(* ===== verification/Go_Prelude.thy ===== *)
theory Go_Prelude
  imports Main "HOL-Library.Word" "HOL-Library.Multiset" "HOL-Library.Sublist"
begin

text \<open>
  What every component of the development shares: the Go integer types that the code
  computes with, results as sums (\<open>Inl\<close> an error, \<open>Inr\<close> a value), and the generic
  facts on lists, words and results that the component theories use. The collections
  \<open>result_simps\<close>, \<open>word_bounds\<close> and \<open>list_facts\<close> are for \<open>simp add:\<close> and
  \<open>auto simp:\<close> in the theories above.
\<close>

named_theorems result_simps \<open>evaluation of results, errors first\<close>
named_theorems word_bounds \<open>64-bit words read as natural numbers\<close>
named_theorems list_facts \<open>updates, swaps and removals on lists\<close>

section \<open>Go types\<close>

type_synonym u64 = "64 word"
type_synonym byte = "8 word"
type_synonym 'a res = "string + 'a"

text \<open>Conversion of a \<open>uint64\<close> to \<open>int64\<close> keeps the bits; it is read by \<open>sint\<close>.\<close>

definition int64_of :: "u64 \<Rightarrow> int" where
  "int64_of w = sint w"

definition u64_of_int :: "int \<Rightarrow> u64" where
  "u64_of_int i = word_of_int i"

text \<open>Signed 64-bit arithmetic wraps around.\<close>

definition int64_wrap :: "int \<Rightarrow> int" where
  "int64_wrap i = (i + 9223372036854775808) mod 18446744073709551616 - 9223372036854775808"

lemma int64_wrap_id: "- 9223372036854775808 \<le> i \<Longrightarrow> i < 9223372036854775808 \<Longrightarrow> int64_wrap i = i"
  by (simp add: int64_wrap_def)

lemma int64_wrap_bounds: "- 9223372036854775808 \<le> int64_wrap i \<and> int64_wrap i < 9223372036854775808"
  using pos_mod_bound [of 18446744073709551616 "i + 9223372036854775808"]
    pos_mod_sign [of 18446744073709551616 "i + 9223372036854775808"]
  unfolding int64_wrap_def by linarith

section \<open>Results\<close>

fun bind_res :: "'e + 'a \<Rightarrow> ('a \<Rightarrow> 'e + 'b) \<Rightarrow> 'e + 'b" where
  "bind_res (Inl e) f = Inl e"
| "bind_res (Inr a) f = f a"

fun map_res :: "('a \<Rightarrow> 'b) \<Rightarrow> 'e + 'a \<Rightarrow> 'e + 'b" where
  "map_res f (Inl e) = Inl e"
| "map_res f (Inr a) = Inr (f a)"

fun is_ok :: "'e + 'a \<Rightarrow> bool" where
  "is_ok (Inl e) = False"
| "is_ok (Inr a) = True"

declare bind_res.simps [result_simps] map_res.simps [result_simps] is_ok.simps [result_simps]

lemma bind_res_Inr [result_simps]: "(bind_res r f = Inr b) = (\<exists>a. r = Inr a \<and> f a = Inr b)"
  by (cases r) auto

lemma map_res_Inr [result_simps]: "(map_res f r = Inr b) = (\<exists>a. r = Inr a \<and> b = f a)"
  by (cases r) auto

lemma map_res_Inl [result_simps]: "(map_res f r = Inl e) = (r = Inl e)"
  by (cases r) auto

lemma is_ok_iff: "is_ok r = (\<exists>a. r = Inr a)"
  by (cases r) auto

section \<open>Words\<close>

lemma unat_u64_bound [word_bounds]: "unat (w :: u64) < 18446744073709551616"
  using unsigned_less [of w] by simp

lemma unat_add_u64:
  "unat a + unat b < 18446744073709551616 \<Longrightarrow> unat (a + b :: u64) = unat a + unat b"
  by (simp add: unat_word_ariths)

lemma unat_mult_u64:
  "unat a * unat b < 18446744073709551616 \<Longrightarrow> unat (a * b :: u64) = unat a * unat b"
  by (simp add: unat_word_ariths)

lemma unat_of_nat_u64: "n < 18446744073709551616 \<Longrightarrow> unat (of_nat n :: u64) = n"
  by (simp add: unat_of_nat)

lemma int64_of_small:
  assumes "unat w < 9223372036854775808"
  shows "int64_of w = int (unat w)"
proof -
  have u: "uint w = int (unat w)" by (rule uint_nat)
  have "uint w < 9223372036854775808" "0 \<le> uint w" using assms u by linarith+
  moreover have "(2::int) ^ 63 = 9223372036854775808" by simp
  ultimately have "- (2 ^ 63) \<le> uint w" "uint w < 2 ^ 63" by linarith+
  then have "signed_take_bit 63 (uint w) = uint w" by (rule signed_take_bit_int_eq_self)
  then have "sint w = uint w" using sint_uint [of w] by simp
  then show ?thesis by (simp add: int64_of_def)
qed

section \<open>Lists\<close>

text \<open>Go's parallel assignment \<open>h[i], h[j] = h[j], h[i]\<close>.\<close>

definition swap :: "'a list \<Rightarrow> nat \<Rightarrow> nat \<Rightarrow> 'a list" where
  "swap xs i j = xs[i := xs ! j, j := xs ! i]"

lemma length_swap [simp]: "length (swap xs i j) = length xs"
  by (simp add: swap_def)

lemma nth_swap [list_facts]:
  "i < length xs \<Longrightarrow> j < length xs \<Longrightarrow> k < length xs \<Longrightarrow>
   swap xs i j ! k = (if k = i then xs ! j else if k = j then xs ! i else xs ! k)"
  by (auto simp: swap_def nth_list_update)

lemma mset_swap' [list_facts]:
  "i < length xs \<Longrightarrow> j < length xs \<Longrightarrow> mset (swap xs i j) = mset xs"
  by (metis mset_swap swap_def)

lemma set_swap [list_facts]:
  "i < length xs \<Longrightarrow> j < length xs \<Longrightarrow> set (swap xs i j) = set xs"
  by (metis mset_eq_setD mset_swap')

lemma distinct_swap [list_facts]:
  "i < length xs \<Longrightarrow> j < length xs \<Longrightarrow> distinct (swap xs i j) = distinct xs"
  by (metis mset_eq_imp_distinct_iff mset_swap')

end
