(* ===== verification/Go_Heap.thy ===== *)
theory Go_Heap
  imports Go_Prelude
begin

text \<open>
  Go's \<open>container/heap\<close>, over its interface: a record of the five operations a heap type
  provides, on a state \<open>'s\<close> whose elements are \<open>'a\<close>. \<open>heap_up\<close>, \<open>heap_down\<close>,
  \<open>heap_Push\<close>, \<open>heap_Pop\<close> and \<open>heap_Fix\<close> are the package's functions, loops as recursion.
  The locale \<open>heap_interface\<close> says what a provider of the interface owes the package (the
  operations act on an array, with an order that they do not change), and inside it the
  package's promises are proved once: the heap order is restored and the elements are kept.
\<close>

named_theorems heap_facts \<open>sift-up and sift-down steps\<close>

record ('s, 'a) heap_ops =
  hp_Len :: "'s \<Rightarrow> nat"
  hp_Less :: "'s \<Rightarrow> nat \<Rightarrow> nat \<Rightarrow> bool"
  hp_Swap :: "'s \<Rightarrow> nat \<Rightarrow> nat \<Rightarrow> 's"
  hp_Push :: "'s \<Rightarrow> 'a \<Rightarrow> 's"
  hp_Pop :: "'s \<Rightarrow> 'a \<times> 's"

section \<open>The package\<close>

function heap_up :: "('s, 'a) heap_ops \<Rightarrow> 's \<Rightarrow> nat \<Rightarrow> 's" where
  "heap_up h s j =
     (let i = (j - 1) div 2 in
      if i = j \<or> \<not> hp_Less h s j i then s else heap_up h (hp_Swap h s i j) i)"
  by pat_completeness auto
termination
  by (relation "measure (\<lambda>(h, s, j). j)") auto

text \<open>The child to compare with: the right one when it exists and is less than the left one.\<close>

definition heap_child :: "('s, 'a) heap_ops \<Rightarrow> 's \<Rightarrow> nat \<Rightarrow> nat \<Rightarrow> nat" where
  "heap_child h s i n =
     (let j1 = 2 * i + 1; j2 = j1 + 1 in if j2 < n \<and> hp_Less h s j2 j1 then j2 else j1)"

lemma heap_child_cases: "heap_child h s i n = 2 * i + 1 \<or> heap_child h s i n = 2 * i + 2"
  by (simp add: heap_child_def Let_def)

text \<open>The result says where the element ended and the state.\<close>

function heap_down_loop :: "('s, 'a) heap_ops \<Rightarrow> 's \<Rightarrow> nat \<Rightarrow> nat \<Rightarrow> nat \<times> 's" where
  "heap_down_loop h s i n =
     (if n \<le> 2 * i + 1 then (i, s)
      else let j = heap_child h s i n in
        if \<not> hp_Less h s j i then (i, s)
        else heap_down_loop h (hp_Swap h s i j) j n)"
  by pat_completeness auto
termination
  by (relation "measure (\<lambda>(h, s, i, n). n - i)") (auto simp: heap_child_def Let_def)

declare heap_up.simps [simp del] heap_down_loop.simps [simp del]

definition heap_down :: "('s, 'a) heap_ops \<Rightarrow> 's \<Rightarrow> nat \<Rightarrow> nat \<Rightarrow> bool \<times> 's" where
  "heap_down h s i0 n = (let (i, s') = heap_down_loop h s i0 n in (i0 < i, s'))"

definition heap_Push :: "('s, 'a) heap_ops \<Rightarrow> 's \<Rightarrow> 'a \<Rightarrow> 's" where
  "heap_Push h s x = (let s' = hp_Push h s x in heap_up h s' (hp_Len h s' - 1))"

definition heap_Pop :: "('s, 'a) heap_ops \<Rightarrow> 's \<Rightarrow> 'a \<times> 's" where
  "heap_Pop h s =
     (let n = hp_Len h s - 1; s1 = hp_Swap h s 0 n; (_, s2) = heap_down h s1 0 n in hp_Pop h s2)"

definition heap_Fix :: "('s, 'a) heap_ops \<Rightarrow> 's \<Rightarrow> nat \<Rightarrow> 's" where
  "heap_Fix h s i =
     (let (moved, s1) = heap_down h s i (hp_Len h s) in if moved then s1 else heap_up h s1 i)"

section \<open>Heap order on arrays of keys\<close>

abbreviation par :: "nat \<Rightarrow> nat" where
  "par c \<equiv> (c - 1) div 2"

definition heap_upto :: "nat \<Rightarrow> 'k::linorder list \<Rightarrow> bool" where
  "heap_upto n ks = (\<forall>c. 0 < c \<and> c < n \<longrightarrow> ks ! par c \<le> ks ! c)"

abbreviation is_heap :: "'k::linorder list \<Rightarrow> bool" where
  "is_heap ks \<equiv> heap_upto (length ks) ks"

text \<open>In order except between \<open>j\<close> and its parent; between \<open>i\<close> and its children; or both.\<close>

definition up_inv :: "'k::linorder list \<Rightarrow> nat \<Rightarrow> bool" where
  "up_inv ks j = (\<forall>c. 0 < c \<and> c < length ks \<longrightarrow>
     (c \<noteq> j \<longrightarrow> ks ! par c \<le> ks ! c) \<and> (par c = j \<and> 0 < j \<longrightarrow> ks ! par j \<le> ks ! c))"

definition down_inv :: "nat \<Rightarrow> 'k::linorder list \<Rightarrow> nat \<Rightarrow> bool" where
  "down_inv n ks i = (\<forall>c. 0 < c \<and> c < n \<longrightarrow>
     (par c \<noteq> i \<longrightarrow> ks ! par c \<le> ks ! c) \<and> (par c = i \<and> 0 < i \<longrightarrow> ks ! par i \<le> ks ! c))"

definition both_inv :: "nat \<Rightarrow> 'k::linorder list \<Rightarrow> nat \<Rightarrow> bool" where
  "both_inv n ks i = (\<forall>c. 0 < c \<and> c < n \<longrightarrow>
     (par c \<noteq> i \<and> c \<noteq> i \<longrightarrow> ks ! par c \<le> ks ! c) \<and>
     (par c = i \<and> 0 < i \<longrightarrow> ks ! par i \<le> ks ! c))"

lemma down_both: "down_inv n ks i \<Longrightarrow> both_inv n ks i"
  by (simp add: down_inv_def both_inv_def)

lemma heap_min: "heap_upto n ks \<Longrightarrow> c < n \<Longrightarrow> ks ! 0 \<le> ks ! c"
proof (induction c rule: less_induct)
  case (less c)
  show ?case
  proof (cases "c = 0")
    case False
    then have "par c < c" by auto
    with less have "ks ! 0 \<le> ks ! par c" by auto
    also have "\<dots> \<le> ks ! c" using less.prems False by (simp add: heap_upto_def)
    finally show ?thesis .
  qed simp
qed

lemma heap_take: "heap_upto n ks \<Longrightarrow> n \<le> length ks \<Longrightarrow> is_heap (take n ks)"
  unfolding heap_upto_def
proof (intro allI impI)
  fix c assume h: "\<forall>c. 0 < c \<and> c < n \<longrightarrow> ks ! par c \<le> ks ! c"
    and n: "n \<le> length ks" and c: "0 < c \<and> c < length (take n ks)"
  have "par c < c" using c by auto
  with h n c show "take n ks ! par c \<le> take n ks ! c" by simp
qed

lemma par_cases: "0 < c \<Longrightarrow> (par c = i) = (c = 2 * i + 1 \<or> c = 2 * i + 2)"
  by auto

lemma up_step:
  assumes u: "up_inv ks j" and j: "0 < j" "j < length ks" and lt: "ks ! j < ks ! par j"
  shows "up_inv (swap ks (par j) j) (par j)"
  unfolding up_inv_def
proof (intro allI impI)
  fix c assume c: "0 < c \<and> c < length (swap ks (par j) j)"
  define p q g where "p = par j" and "q = par c" and "g = par p"
  have b: "p < j" "p < length ks" "q < length ks" "q < c" "c < length ks" "g \<le> p" "0 < p \<Longrightarrow> g < p"
    using j c by (auto simp: p_def q_def g_def)
  have up: "c \<noteq> j \<Longrightarrow> ks ! q \<le> ks ! c" "q = j \<Longrightarrow> ks ! p \<le> ks ! c"
    using u c j by (simp_all add: up_inv_def p_def q_def)
  have gp: "0 < p \<Longrightarrow> ks ! g \<le> ks ! p"
    using u b by (simp add: up_inv_def g_def)
  have jp: "c = j \<Longrightarrow> q = p" by (simp add: p_def q_def)
  have sw: "swap ks p j ! k = (if k = p then ks ! j else if k = j then ks ! p else ks ! k)"
    if "k < length ks" for k using that b j by (simp add: nth_swap)
  have lt': "ks ! j < ks ! p" using lt by (simp add: p_def)
  have 1: "swap ks p j ! q \<le> swap ks p j ! c" if "c \<noteq> p"
    using that b up jp lt' by (cases "c = j"; cases "q = p"; cases "q = j") (auto simp: sw)
  have 2: "swap ks p j ! g \<le> swap ks p j ! c" if "q = p" "0 < p"
    using that b up gp lt' by (cases "c = j") (auto simp: sw)
  show "(c \<noteq> par j \<longrightarrow> swap ks (par j) j ! par c \<le> swap ks (par j) j ! c) \<and>
      (par c = par j \<and> 0 < par j \<longrightarrow> swap ks (par j) j ! par (par j) \<le> swap ks (par j) j ! c)"
    using 1 2 unfolding p_def q_def g_def by blast
qed

lemma up_done: "up_inv ks j \<Longrightarrow> j = 0 \<or> ks ! par j \<le> ks ! j \<Longrightarrow> is_heap ks"
  unfolding up_inv_def heap_upto_def by (metis less_irrefl)

lemma up_append: "is_heap ks \<Longrightarrow> up_inv (ks @ [k]) (length ks)"
  unfolding up_inv_def heap_upto_def
proof (intro allI impI)
  fix c assume h: "\<forall>c. 0 < c \<and> c < length ks \<longrightarrow> ks ! par c \<le> ks ! c"
    and c: "0 < c \<and> c < length (ks @ [k])"
  have "par c < c" using c by auto
  with h c show "(c \<noteq> length ks \<longrightarrow> (ks @ [k]) ! par c \<le> (ks @ [k]) ! c) \<and>
      (par c = length ks \<and> 0 < length ks \<longrightarrow> (ks @ [k]) ! par (length ks) \<le> (ks @ [k]) ! c)"
    by (auto simp: nth_append)
qed

text \<open>One step of sift-down: \<open>j\<close> is the child of \<open>i\<close> that is not greater than its sibling.\<close>

lemma down_step:
  assumes u: "both_inv n ks i" and j: "0 < j" "j < n" "n \<le> length ks" "par j = i"
    and lt: "ks ! j < ks ! i"
    and sib: "\<And>c. 0 < c \<Longrightarrow> c < n \<Longrightarrow> par c = i \<Longrightarrow> ks ! j \<le> ks ! c"
  shows "down_inv n (swap ks i j) j"
  unfolding down_inv_def
proof (intro allI impI)
  fix c assume c: "0 < c \<and> c < n"
  define q where "q = par c"
  have b: "i < j" "i < n" "q < c" "q < n" using j c by (auto simp: q_def)
  have old: "q \<noteq> i \<Longrightarrow> c \<noteq> i \<Longrightarrow> ks ! q \<le> ks ! c" "q = i \<Longrightarrow> 0 < i \<Longrightarrow> ks ! par i \<le> ks ! c"
    using u c by (simp_all add: both_inv_def q_def)
  have sw: "swap ks i j ! k = (if k = i then ks ! j else if k = j then ks ! i else ks ! k)"
    if "k < n" for k using that b j by (simp add: nth_swap)
  have cj: "c = j \<Longrightarrow> q = i" using j by (simp add: q_def)
  have sb: "q = i \<Longrightarrow> ks ! j \<le> ks ! c" using sib c by (simp add: q_def)
  have ij: "c = i \<Longrightarrow> ks ! q \<le> ks ! j"
    using u j b c by (auto simp: both_inv_def q_def)
  have 1: "swap ks i j ! q \<le> swap ks i j ! c" if "q \<noteq> j"
  proof (cases "c = j")
    case True
    with cj b lt j show ?thesis by (simp add: sw)
  next
    case False
    show ?thesis
      using False that b c old sb ij j by (cases "c = i"; cases "q = i") (auto simp: sw)
  qed
  have 2: "swap ks i j ! i \<le> swap ks i j ! c" if "q = j"
  proof -
    have "c \<noteq> i" "c \<noteq> j" "q \<noteq> i" using that b cj by auto
    then show ?thesis using that b c old by (simp add: sw)
  qed
  show "(par c \<noteq> j \<longrightarrow> swap ks i j ! par c \<le> swap ks i j ! c) \<and>
      (par c = j \<and> 0 < j \<longrightarrow> swap ks i j ! par j \<le> swap ks i j ! c)"
    using 1 2 j unfolding q_def by blast
qed

lemma down_done:
  "down_inv n ks i \<Longrightarrow> (\<And>c. 0 < c \<Longrightarrow> c < n \<Longrightarrow> par c = i \<Longrightarrow> ks ! i \<le> ks ! c) \<Longrightarrow> heap_upto n ks"
  unfolding down_inv_def heap_upto_def by blast

lemma both_up:
  "both_inv (length ks) ks i \<Longrightarrow> (\<And>c. 0 < c \<Longrightarrow> c < length ks \<Longrightarrow> par c = i \<Longrightarrow> ks ! i \<le> ks ! c) \<Longrightarrow>
   up_inv ks i"
  unfolding both_inv_def up_inv_def by blast

lemma both_update:
  "is_heap ks \<Longrightarrow> i < length ks \<Longrightarrow> both_inv (length ks) (ks[i := k]) i"
  unfolding both_inv_def heap_upto_def
proof (intro allI impI)
  fix c assume h: "\<forall>c. 0 < c \<and> c < length ks \<longrightarrow> ks ! par c \<le> ks ! c"
    and i: "i < length ks" and c: "0 < c \<and> c < length ks"
  have p: "par c < c" using c by auto
  have "par c = i \<Longrightarrow> 0 < i \<Longrightarrow> ks ! par i \<le> ks ! c"
    using h c i by (metis order_trans p)
  moreover have "0 < i \<Longrightarrow> par i \<noteq> i" by auto
  ultimately show "(par c \<noteq> i \<and> c \<noteq> i \<longrightarrow> ks[i := k] ! par c \<le> ks[i := k] ! c) \<and>
      (par c = i \<and> 0 < i \<longrightarrow> ks[i := k] ! par i \<le> ks[i := k] ! c)"
    using h c i p by auto
qed

lemma both_head:
  "is_heap ks \<Longrightarrow> ks \<noteq> [] \<Longrightarrow> both_inv (length ks - 1) (swap ks 0 (length ks - 1)) 0"
  unfolding both_inv_def heap_upto_def
proof (intro allI impI)
  fix c assume h: "\<forall>c. 0 < c \<and> c < length ks \<longrightarrow> ks ! par c \<le> ks ! c"
    and ne: "ks \<noteq> []" and c: "0 < c \<and> c < length ks - 1"
  have p: "par c < c" using c by auto
  with h c ne show "(par c \<noteq> 0 \<and> c \<noteq> 0 \<longrightarrow>
        swap ks 0 (length ks - 1) ! par c \<le> swap ks 0 (length ks - 1) ! c) \<and>
      (par c = 0 \<and> 0 < (0::nat) \<longrightarrow> swap ks 0 (length ks - 1) ! par 0 \<le> swap ks 0 (length ks - 1) ! c)"
    by (auto simp: nth_swap)
qed

section \<open>The interface and what the package promises\<close>

locale heap_interface =
  fixes h :: "('s, 'a) heap_ops"
    and elems :: "'s \<Rightarrow> 'a list"
    and key :: "'s \<Rightarrow> 'a \<Rightarrow> 'k::linorder"
    and inv :: "'s \<Rightarrow> bool"
    and insertable :: "'s \<Rightarrow> 'a \<Rightarrow> bool"
    and same :: "'s \<Rightarrow> 's \<Rightarrow> bool"
  assumes Len: "inv s \<Longrightarrow> hp_Len h s = length (elems s)"
    and Less: "inv s \<Longrightarrow> i < length (elems s) \<Longrightarrow> j < length (elems s) \<Longrightarrow>
      hp_Less h s i j = (key s (elems s ! i) < key s (elems s ! j))"
    and Swap: "inv s \<Longrightarrow> i < length (elems s) \<Longrightarrow> j < length (elems s) \<Longrightarrow>
      elems (hp_Swap h s i j) = swap (elems s) i j \<and> same s (hp_Swap h s i j) \<and> inv (hp_Swap h s i j)"
    and Push: "inv s \<Longrightarrow> insertable s x \<Longrightarrow>
      elems (hp_Push h s x) = elems s @ [x] \<and> same s (hp_Push h s x) \<and> inv (hp_Push h s x)"
    and Pop: "inv s \<Longrightarrow> elems s \<noteq> [] \<Longrightarrow> hp_Pop h s = (x, s') \<Longrightarrow>
      x = last (elems s) \<and> elems s' = butlast (elems s) \<and> same s s' \<and> inv s'"
    and same_key: "same s s' \<Longrightarrow> key s' = key s"
    and same_refl: "same s s"
    and same_trans: "same s s1 \<Longrightarrow> same s1 s2 \<Longrightarrow> same s s2"
begin

abbreviation ks :: "'s \<Rightarrow> 'k list" where
  "ks s \<equiv> map (key s) (elems s)"

lemma ks_swap:
  "inv s \<Longrightarrow> i < length (elems s) \<Longrightarrow> j < length (elems s) \<Longrightarrow> ks (hp_Swap h s i j) = swap (ks s) i j"
  using Swap [of s i j] same_key [of s "hp_Swap h s i j"] by (simp add: swap_def map_update)

definition restored :: "'s \<Rightarrow> 's \<Rightarrow> bool" where
  "restored s s' = (inv s' \<and> same s s' \<and> mset (elems s') = mset (elems s))"

lemma restored_refl: "inv s \<Longrightarrow> restored s s"
  by (simp add: restored_def same_refl)

lemma restored_trans: "restored s s1 \<Longrightarrow> restored s1 s2 \<Longrightarrow> restored s s2"
  by (auto simp: restored_def intro: same_trans)

lemma restored_length: "restored s s' \<Longrightarrow> length (elems s') = length (elems s)"
  unfolding restored_def by (metis size_mset)

lemma restored_swap:
  "inv s \<Longrightarrow> i < length (elems s) \<Longrightarrow> j < length (elems s) \<Longrightarrow> restored s (hp_Swap h s i j)"
  using Swap [of s i j] by (simp add: restored_def mset_swap')

lemma up_correct:
  "inv s \<Longrightarrow> j < length (elems s) \<Longrightarrow> up_inv (ks s) j \<Longrightarrow>
   restored s (heap_up h s j) \<and> is_heap (ks (heap_up h s j))"
proof (induction j arbitrary: s rule: less_induct)
  case (less j)
  show ?case
  proof (cases "par j = j \<or> \<not> hp_Less h s j (par j)")
    case True
    then have "heap_up h s j = s" by (simp add: heap_up.simps [of h s j] Let_def)
    moreover have "j = 0 \<or> ks s ! par j \<le> ks s ! j"
      using True less.prems by (auto simp: Less not_less)
    ultimately show ?thesis
      using less.prems up_done [of "ks s" j] by (simp add: restored_refl)
  next
    case False
    let ?s = "hp_Swap h s (par j) j"
    have j: "0 < j" "par j < j" using False by auto
    have lt: "ks s ! j < ks s ! par j" using False j less.prems by (simp add: Less)
    have r: "restored s ?s" using less.prems j by (intro restored_swap) auto
    have "up_inv (ks ?s) (par j)"
      using up_step [of "ks s" j] j lt less.prems by (simp add: ks_swap)
    moreover have "inv ?s" "par j < length (elems ?s)"
      using r restored_length [OF r] j less.prems by (auto simp: restored_def)
    ultimately have "restored ?s (heap_up h ?s (par j)) \<and> is_heap (ks (heap_up h ?s (par j)))"
      using less.IH [of "par j" ?s] j by simp
    with r False show ?thesis
      by (simp add: heap_up.simps [of h s j] Let_def) (blast intro: restored_trans)
  qed
qed

lemma child_correct:
  assumes "inv s" "n \<le> length (elems s)" "2 * i + 1 < n"
  defines "j \<equiv> heap_child h s i n"
  shows "0 < j" "i < j" "j < n" "par j = i"
    and "0 < c \<Longrightarrow> c < n \<Longrightarrow> par c = i \<Longrightarrow> ks s ! j \<le> ks s ! c"
proof -
  have ch: "j = (if 2 * i + 2 < n \<and> ks s ! (2 * i + 2) < ks s ! (2 * i + 1) then 2 * i + 2 else 2 * i + 1)"
    using assms by (auto simp: j_def heap_child_def Let_def Less)
  then show "0 < j" "i < j" "j < n" "par j = i" using assms by auto
  assume c: "0 < c" "c < n" "par c = i"
  then have "c = 2 * i + 1 \<or> c = 2 * i + 2" using par_cases by blast
  with ch c show "ks s ! j \<le> ks s ! c" by auto
qed

lemma down_swap:
  assumes "inv s" "n \<le> length (elems s)" "2 * i + 1 < n" "both_inv n (ks s) i"
    and "hp_Less h s (heap_child h s i n) i"
  defines "s' \<equiv> hp_Swap h s i (heap_child h s i n)"
  shows "restored s s'" "down_inv n (ks s') (heap_child h s i n)"
    and "drop n (elems s') = drop n (elems s)"
proof -
  let ?j = "heap_child h s i n"
  note ch = child_correct [OF assms(1-3)]
  have b: "i < length (elems s)" "?j < length (elems s)" "i < n" "?j < n" using ch assms by auto
  show "restored s s'" using b assms unfolding s'_def by (intro restored_swap)
  have "ks s ! ?j < ks s ! i" using assms b by (simp add: Less)
  then have "down_inv n (swap (ks s) i ?j) ?j"
    using ch assms by (intro down_step) auto
  then show "down_inv n (ks s') ?j" using b assms by (simp add: s'_def ks_swap)
  show "drop n (elems s') = drop n (elems s)"
    using Swap [of s i ?j] b assms by (simp add: s'_def swap_def)
qed

lemma down_loop_correct:
  "inv s \<Longrightarrow> n \<le> length (elems s) \<Longrightarrow> down_inv n (ks s) i \<Longrightarrow> heap_down_loop h s i n = (i', s') \<Longrightarrow>
   restored s s' \<and> i \<le> i' \<and> drop n (elems s') = drop n (elems s) \<and> heap_upto n (ks s')"
proof (induction "n - i" arbitrary: i s rule: less_induct)
  case less
  let ?j = "heap_child h s i n"
  consider (leaf) "n \<le> 2 * i + 1" | (stop) "2 * i + 1 < n" "\<not> hp_Less h s ?j i"
    | (move) "2 * i + 1 < n" "hp_Less h s ?j i" by linarith
  then show ?case
  proof cases
    case leaf
    then have "heap_upto n (ks s)"
      using less.prems by (intro down_done [of n "ks s" i]) auto
    with leaf less.prems show ?thesis by (simp add: heap_down_loop.simps [of h s i n] restored_refl)
  next
    case stop
    note ch = child_correct [OF less.prems(1,2) stop(1)]
    have "ks s ! i \<le> ks s ! ?j" using stop ch less.prems by (simp add: Less not_less)
    then have "heap_upto n (ks s)"
      using less.prems ch(5) by (intro down_done [of n "ks s" i]) (auto intro: order_trans)
    with stop less.prems show ?thesis
      by (simp add: heap_down_loop.simps [of h s i n] Let_def restored_refl)
  next
    case move
    let ?s = "hp_Swap h s i ?j"
    note ch = child_correct [OF less.prems(1,2) move(1)]
    note sw = down_swap [OF less.prems(1,2) move(1) down_both [OF less.prems(3)] move(2)]
    have "heap_down_loop h ?s ?j n = (i', s')"
      using move less.prems(4) by (simp add: heap_down_loop.simps [of h s i n] Let_def)
    then have "restored ?s s' \<and> ?j \<le> i' \<and> drop n (elems s') = drop n (elems ?s) \<and> heap_upto n (ks s')"
      using ch sw less.prems restored_length [OF sw(1)]
      by (intro less.hyps) (auto simp: restored_def)
    with sw ch show ?thesis by (auto intro: restored_trans)
  qed
qed

lemma down_correct:
  assumes "inv s" "n \<le> length (elems s)" "both_inv n (ks s) i" "heap_down h s i n = (moved, s')"
  shows "restored s s' \<and> drop n (elems s') = drop n (elems s) \<and>
    (if moved then heap_upto n (ks s')
     else s' = s \<and> (\<forall>c. 0 < c \<and> c < n \<and> par c = i \<longrightarrow> ks s ! i \<le> ks s ! c))"
proof -
  let ?j = "heap_child h s i n"
  consider (leaf) "n \<le> 2 * i + 1" | (stop) "2 * i + 1 < n" "\<not> hp_Less h s ?j i"
    | (move) "2 * i + 1 < n" "hp_Less h s ?j i" by linarith
  then show ?thesis
  proof cases
    case leaf
    then show ?thesis
      using assms by (auto simp: heap_down_def heap_down_loop.simps [of h s i n] restored_refl)
  next
    case stop
    note ch = child_correct [OF assms(1,2) stop(1)]
    have "ks s ! i \<le> ks s ! ?j" using stop ch assms by (simp add: Less not_less)
    then have "\<forall>c. 0 < c \<and> c < n \<and> par c = i \<longrightarrow> ks s ! i \<le> ks s ! c"
      using ch(5) by (auto intro: order_trans)
    with stop assms show ?thesis
      by (simp add: heap_down_def heap_down_loop.simps [of h s i n] Let_def restored_refl)
  next
    case move
    let ?s = "hp_Swap h s i ?j"
    note ch = child_correct [OF assms(1,2) move(1)]
    note sw = down_swap [OF assms(1,2) move(1) assms(3) move(2)]
    obtain i' where l: "heap_down_loop h ?s ?j n = (i', s')" and m: "moved = (i < i')"
      using assms(4) move
      by (auto simp: heap_down_def heap_down_loop.simps [of h s i n] Let_def split: prod.splits)
    have "restored ?s s' \<and> ?j \<le> i' \<and> drop n (elems s') = drop n (elems ?s) \<and> heap_upto n (ks s')"
      using l sw assms restored_length [OF sw(1)]
      by (intro down_loop_correct) (auto simp: restored_def)
    with sw ch m show ?thesis by (auto intro: restored_trans)
  qed
qed

lemma Push_correct:
  assumes "inv s" "insertable s x" "is_heap (ks s)"
  shows "inv (heap_Push h s x) \<and> same s (heap_Push h s x) \<and> is_heap (ks (heap_Push h s x)) \<and>
    mset (elems (heap_Push h s x)) = add_mset x (mset (elems s))"
proof -
  let ?s = "hp_Push h s x"
  have p: "elems ?s = elems s @ [x]" "same s ?s" "inv ?s" using Push [OF assms(1,2)] by auto
  have "up_inv (ks ?s) (length (elems s))"
    using up_append [OF assms(3), of "key s x"] p same_key [OF p(2)] by simp
  then have "restored ?s (heap_up h ?s (length (elems s))) \<and> is_heap (ks (heap_up h ?s (length (elems s))))"
    using p by (intro up_correct) auto
  with p show ?thesis by (auto simp: heap_Push_def Len restored_def intro: same_trans)
qed

text \<open>
  \<open>Pop\<close> swaps the least element to the end and sifts the new head down in front of it: the swap,
  the sift, and the slice's own \<open>Pop\<close>.
\<close>

lemma pop_sifted:
  fixes s
  defines "n \<equiv> length (elems s) - 1"
  assumes i: "inv s" and ne: "elems s \<noteq> []" and hp: "is_heap (ks s)"
    and d: "heap_down h (hp_Swap h s 0 n) 0 n = (m, s2)"
  shows "restored s s2 \<and> last (elems s2) = hd (elems s) \<and> heap_upto n (ks s2)"
proof -
  let ?s1 = "hp_Swap h s 0 n"
  have b: "0 < length (elems s)" "n < length (elems s)" using ne by (auto simp: n_def)
  note sw = Swap [OF i b] and r1 = restored_swap [OF i b]
  have bi: "both_inv n (ks ?s1) 0" using both_head [OF hp] i b by (simp add: ks_swap n_def)
  have c: "restored ?s1 s2 \<and> drop n (elems s2) = drop n (elems ?s1) \<and>
      (if m then heap_upto n (ks s2)
       else s2 = ?s1 \<and> (\<forall>c. 0 < c \<and> c < n \<and> par c = 0 \<longrightarrow> ks ?s1 ! 0 \<le> ks ?s1 ! c))"
    using sw d bi b by (intro down_correct) (auto simp: n_def)
  then have up: "heap_upto n (ks s2)" using bi by (cases m) (auto simp: both_inv_def heap_upto_def)
  have r2: "restored s s2" using r1 c restored_trans by blast
  have len: "length (elems s2) = length (elems s)" using restored_length [OF r2] .
  then have "elems s2 \<noteq> []" using b by auto
  then have "last (elems s2) = hd (drop n (elems s2))"
    using len b by (simp add: hd_drop_conv_nth last_conv_nth n_def)
  also have "\<dots> = hd (elems s)" using c sw b by (simp add: hd_drop_conv_nth nth_swap hd_conv_nth)
  finally show ?thesis using r2 up by blast
qed

lemma heap_head_least:
  assumes "is_heap (ks s)" and "y \<in> set (elems s)"
  shows "key s (hd (elems s)) \<le> key s y"
proof -
  obtain c where c: "c < length (elems s)" "elems s ! c = y" using assms(2) by (auto simp: in_set_conv_nth)
  then have "elems s \<noteq> []" by auto
  then show ?thesis using heap_min [OF assms(1), of c] c by (simp add: hd_conv_nth)
qed

lemma Pop_correct:
  assumes "inv s" "elems s \<noteq> []" "is_heap (ks s)" "heap_Pop h s = (x, s')"
  shows "x = hd (elems s) \<and> inv s' \<and> same s s' \<and> is_heap (ks s') \<and>
    mset (elems s) = add_mset x (mset (elems s')) \<and> (\<forall>y \<in> set (elems s'). key s x \<le> key s y)"
proof -
  let ?n = "length (elems s) - 1"
  obtain m s2 where d: "heap_down h (hp_Swap h s 0 ?n) 0 ?n = (m, s2)" by fastforce
  have r2: "restored s s2" and l2: "last (elems s2) = hd (elems s)" and up: "heap_upto ?n (ks s2)"
    using pop_sifted [OF assms(1-3) d] by blast+
  have len: "length (elems s2) = length (elems s)" using restored_length [OF r2] .
  then have ne: "elems s2 \<noteq> []" using assms(2) by auto
  have "hp_Pop h s2 = (x, s')"
    using assms(1,4) d by (simp add: heap_Pop_def Len Let_def)
  then have pop: "x = last (elems s2)" "elems s' = butlast (elems s2)" "same s2 s'" "inv s'"
    using Pop [of s2 x s'] r2 ne by (auto simp: restored_def)
  have k: "key s' = key s" "key s2 = key s"
    using same_key pop(3) r2 unfolding restored_def by metis+
  have "is_heap (take ?n (ks s2))" using up len by (intro heap_take) auto
  then have "is_heap (ks s')"
    using pop(2) k len by (simp add: butlast_conv_take take_map)
  moreover have ms: "mset (elems s) = add_mset x (mset (elems s'))"
    using r2 ne pop unfolding restored_def
    by (metis append_butlast_last_id mset_append mset_single_iff_right union_mset_add_mset_right add.right_neutral mset.simps)
  moreover have "\<forall>y \<in> set (elems s'). key s x \<le> key s y"
    using heap_head_least [OF assms(3)] mset_eq_setD [of "elems s" "x # elems s'"] ms pop(1) l2 by simp
  ultimately show ?thesis
    using pop l2 r2 by (auto simp: restored_def intro: same_trans)
qed

lemma Fix_correct:
  assumes "inv s" "i < length (elems s)" "both_inv (length (elems s)) (ks s) i"
  shows "restored s (heap_Fix h s i) \<and> is_heap (ks (heap_Fix h s i))"
proof -
  obtain m s1 where d: "heap_down h s i (length (elems s)) = (m, s1)" by fastforce
  note c = down_correct [OF assms(1) order_refl assms(3) d]
  show ?thesis
  proof (cases m)
    case True
    with c d assms show ?thesis
      using restored_length [of s s1] by (simp add: heap_Fix_def Len)
  next
    case False
    then have "up_inv (ks s) i" using c assms by (intro both_up) auto
    with False c d assms show ?thesis using up_correct [of s i] by (simp add: heap_Fix_def Len)
  qed
qed

text \<open>The first element of a non-empty heap has the least key.\<close>

lemma hd_least: "is_heap (ks s) \<Longrightarrow> y \<in> set (elems s) \<Longrightarrow> key s (hd (elems s)) \<le> key s y"
proof -
  assume hp: "is_heap (ks s)" and y: "y \<in> set (elems s)"
  then obtain c where c: "c < length (elems s)" "elems s ! c = y" by (auto simp: in_set_conv_nth)
  then have "elems s \<noteq> []" by auto
  with c heap_min [OF hp, of c] show ?thesis by (simp add: hd_conv_nth)
qed

end

end
