(* ===== verification/Session.thy ===== *)
theory Session
  imports Go_Heap
begin

text \<open>
  \<open>pkg/grpc/session.go\<close>: the scheduler of delayed session receipts. Jobs are pointers, shared
  by the heap array and the map from tokens, and the code mutates them through both; so the
  model has a store from addresses to jobs (\<open>jh_mem\<close>), the array of addresses (\<open>jh_arr\<close>) and
  the map (\<open>sch_jobMap\<close>). Times and durations are nanoseconds as integers; the clock readings
  of each operation are arguments. Every operation runs under the scheduler's mutex, so an
  execution is a sequence of operations.
\<close>

section \<open>Jobs and their heap\<close>

record 'c session_job =
  job_token :: string
  job_claims :: 'c
  job_runAt :: int
  job_canceled :: bool
  job_index :: int

record 'c job_heap =
  jh_arr :: "nat list"
  jh_mem :: "nat \<Rightarrow> 'c session_job"

definition set_index :: "(nat \<Rightarrow> 'c session_job) \<Rightarrow> nat \<Rightarrow> int \<Rightarrow> (nat \<Rightarrow> 'c session_job)" where
  "set_index m a i = m(a := (m a)\<lparr>job_index := i\<rparr>)"

definition jobs_Len :: "'c job_heap \<Rightarrow> nat" where
  "jobs_Len h = length (jh_arr h)"

definition jobs_Less :: "'c job_heap \<Rightarrow> nat \<Rightarrow> nat \<Rightarrow> bool" where
  "jobs_Less h i j = (job_runAt (jh_mem h (jh_arr h ! i)) < job_runAt (jh_mem h (jh_arr h ! j)))"

definition jobs_Swap :: "'c job_heap \<Rightarrow> nat \<Rightarrow> nat \<Rightarrow> 'c job_heap" where
  "jobs_Swap h i j =
     (let arr = swap (jh_arr h) i j in
      h\<lparr>jh_arr := arr,
        jh_mem := set_index (set_index (jh_mem h) (arr ! i) (int i)) (arr ! j) (int j)\<rparr>)"

definition jobs_Push :: "'c job_heap \<Rightarrow> nat \<Rightarrow> 'c job_heap" where
  "jobs_Push h job =
     (let n = length (jh_arr h) in
      h\<lparr>jh_mem := set_index (jh_mem h) job (int n), jh_arr := jh_arr h @ [job]\<rparr>)"

definition jobs_Pop :: "'c job_heap \<Rightarrow> nat \<times> 'c job_heap" where
  "jobs_Pop h =
     (let n = length (jh_arr h); job = jh_arr h ! (n - 1) in
      (job, h\<lparr>jh_mem := set_index (jh_mem h) job (- 1), jh_arr := take (n - 1) (jh_arr h)\<rparr>))"

definition jobs_ops :: "('c job_heap, nat) heap_ops" where
  "jobs_ops = \<lparr>hp_Len = jobs_Len, hp_Less = jobs_Less, hp_Swap = jobs_Swap,
     hp_Push = jobs_Push, hp_Pop = jobs_Pop\<rparr>"

text \<open>
  The invariant of the array: no job twice, and each job's index is its place. \<open>same_jobs\<close>
  says that two heaps agree on every job but for the index.
\<close>

definition jobs_inv :: "'c job_heap \<Rightarrow> bool" where
  "jobs_inv h = (distinct (jh_arr h) \<and>
     (\<forall>i < length (jh_arr h). job_index (jh_mem h (jh_arr h ! i)) = int i))"

definition same_jobs :: "'c job_heap \<Rightarrow> 'c job_heap \<Rightarrow> bool" where
  "same_jobs h h' = (\<forall>a. (jh_mem h' a)\<lparr>job_index := 0\<rparr> = (jh_mem h a)\<lparr>job_index := 0\<rparr>)"

abbreviation job_key :: "'c job_heap \<Rightarrow> nat \<Rightarrow> int" where
  "job_key h a \<equiv> job_runAt (jh_mem h a)"

lemma same_jobs_fields:
  assumes "same_jobs h h'"
  shows "job_token (jh_mem h' a) = job_token (jh_mem h a)"
    and "job_claims (jh_mem h' a) = job_claims (jh_mem h a)"
    and "job_runAt (jh_mem h' a) = job_runAt (jh_mem h a)"
    and "job_canceled (jh_mem h' a) = job_canceled (jh_mem h a)"
proof -
  have "(jh_mem h' a)\<lparr>job_index := 0\<rparr> = (jh_mem h a)\<lparr>job_index := 0\<rparr>"
    using assms by (simp add: same_jobs_def)
  then show "job_token (jh_mem h' a) = job_token (jh_mem h a)"
    "job_claims (jh_mem h' a) = job_claims (jh_mem h a)"
    "job_runAt (jh_mem h' a) = job_runAt (jh_mem h a)"
    "job_canceled (jh_mem h' a) = job_canceled (jh_mem h a)"
    by (metis session_job.select_convs session_job.surjective session_job.update_convs(5))+
qed

lemma set_index_same: "(set_index m a i b)\<lparr>job_index := k\<rparr> = (m b)\<lparr>job_index := k\<rparr>"
  by (simp add: set_index_def)

lemma set_index_index: "job_index (set_index m a i b) = (if b = a then i else job_index (m b))"
  by (simp add: set_index_def)

lemmas jobs_defs = jobs_ops_def jobs_Len_def jobs_Less_def jobs_Swap_def jobs_Push_def jobs_Pop_def Let_def

lemma jobs_Swap_inv:
  assumes "jobs_inv h" "i < length (jh_arr h)" "j < length (jh_arr h)"
  shows "jobs_inv (jobs_Swap h i j)"
proof -
  let ?arr = "swap (jh_arr h) i j"
  have d: "distinct ?arr" using assms by (simp add: jobs_inv_def distinct_swap)
  have "job_index (jh_mem (jobs_Swap h i j) (?arr ! k)) = int k" if k: "k < length ?arr" for k
  proof (cases "k = i \<or> k = j")
    case True
    then show ?thesis
      using assms k nth_eq_iff_index_eq [OF d] by (auto simp: jobs_Swap_def Let_def set_index_index)
  next
    case False
    then have "?arr ! k \<noteq> ?arr ! i" "?arr ! k \<noteq> ?arr ! j"
      using assms(2,3) k by (simp_all add: nth_eq_iff_index_eq [OF d])
    moreover have "?arr ! k = jh_arr h ! k" using False assms k by (simp add: nth_swap)
    ultimately show ?thesis
      using assms k by (simp add: jobs_Swap_def Let_def set_index_index jobs_inv_def)
  qed
  then show ?thesis using d by (simp add: jobs_inv_def jobs_Swap_def Let_def)
qed

text \<open>The heap of jobs is a provider of \<open>container/heap\<close>'s interface.\<close>

interpretation jobs: heap_interface jobs_ops jh_arr job_key jobs_inv
  "\<lambda>h a. a \<notin> set (jh_arr h)" same_jobs
proof (unfold_locales, goal_cases)
  case (3 s i j)
  then show ?case
    using jobs_Swap_inv [of s i j] by (simp add: jobs_defs same_jobs_def set_index_same)
next
  case (4 s x)
  then show ?case
    by (auto simp: jobs_defs same_jobs_def set_index_same jobs_inv_def set_index_index nth_append)
next
  case (5 s x s')
  then show ?case
    by (auto simp: jobs_defs same_jobs_def set_index_same jobs_inv_def set_index_index
        last_conv_nth butlast_conv_take nth_eq_iff_index_eq)
next
  case (6 s s')
  then show ?case by (auto dest: same_jobs_fields)
qed (auto simp: jobs_defs same_jobs_def)

section \<open>The scheduler\<close>

text \<open>
  \<open>sch_next\<close> is the next free address; \<open>sch_trigger\<close> the one-slot channel; \<open>sch_timer\<close> the
  duration the timer was last armed with; \<open>sch_shutdown\<close> whether \<open>shutdown\<close> is closed.
\<close>

record 'c scheduler =
  sch_jobs :: "'c job_heap"
  sch_next :: nat
  sch_jobMap :: "string \<rightharpoonup> nat"
  sch_timer :: "int option"
  sch_trigger :: bool
  sch_shutdown :: bool

definition NewSessionScheduler :: "(nat \<Rightarrow> 'c session_job) \<Rightarrow> 'c scheduler" where
  "NewSessionScheduler m =
     \<lparr>sch_jobs = \<lparr>jh_arr = [], jh_mem = m\<rparr>, sch_next = 0, sch_jobMap = Map.empty,
      sch_timer = None, sch_trigger = False, sch_shutdown = False\<rparr>"

text \<open>
  \<open>heap.Fix\<close> with the job's index. On the index \<open>-1\<close> of a popped job the package's loops stop
  at once.
\<close>

definition fix_job :: "'c job_heap \<Rightarrow> int \<Rightarrow> 'c job_heap" where
  "fix_job h i = (if i < 0 then h else heap_Fix jobs_ops h (nat i))"

definition ScheduleSessionReceipt ::
  "int \<Rightarrow> string \<Rightarrow> 'c \<Rightarrow> int \<Rightarrow> 'c scheduler \<Rightarrow> 'c scheduler" where
  "ScheduleSessionReceipt now token claims delay s =
     (let h = sch_jobs s in
      case sch_jobMap s token of
        Some job \<Rightarrow>
          (let j = (jh_mem h job)\<lparr>job_claims := claims, job_runAt := now + delay, job_canceled := False\<rparr>;
               h1 = h\<lparr>jh_mem := (jh_mem h)(job := j)\<rparr> in
           s\<lparr>sch_jobs := fix_job h1 (job_index j), sch_trigger := True\<rparr>)
      | None \<Rightarrow>
          (let job = sch_next s;
               j = \<lparr>job_token = token, job_claims = claims, job_runAt = now + delay,
                    job_canceled = False, job_index = 0\<rparr>;
               h1 = h\<lparr>jh_mem := (jh_mem h)(job := j)\<rparr> in
           s\<lparr>sch_jobs := heap_Push jobs_ops h1 job, sch_next := job + 1,
             sch_jobMap := (sch_jobMap s)(token \<mapsto> job), sch_trigger := True\<rparr>))"

definition CancelSessionReceipt :: "string \<Rightarrow> 'c scheduler \<Rightarrow> bool \<times> 'c scheduler" where
  "CancelSessionReceipt token s =
     (let h = sch_jobs s in
      case sch_jobMap s token of
        Some job \<Rightarrow>
          (True, s\<lparr>sch_jobs := h\<lparr>jh_mem := (jh_mem h)(job := (jh_mem h job)\<lparr>job_canceled := True\<rparr>)\<rparr>,
                   sch_jobMap := (sch_jobMap s)(token := None)\<rparr>)
      | None \<Rightarrow> (False, s))"

text \<open>
  The inner loop of \<open>run\<close>: pops every job that is due, submits those that are not cancelled
  (the submissions are returned in order) and deletes their tokens. It stops because every
  pop shortens the array.
\<close>

lemma jobs_Swap_length [simp]: "length (jh_arr (jobs_Swap h i j)) = length (jh_arr h)"
  by (simp add: jobs_Swap_def Let_def)

lemma jobs_ops_sel [simp]:
  "hp_Len jobs_ops = jobs_Len" "hp_Less jobs_ops = jobs_Less" "hp_Swap jobs_ops = jobs_Swap"
  "hp_Push jobs_ops = jobs_Push" "hp_Pop jobs_ops = jobs_Pop"
  by (simp_all add: jobs_ops_def)

lemma jobs_down_length:
  "heap_down_loop jobs_ops h i n = (k, h') \<Longrightarrow> length (jh_arr h') = length (jh_arr h)"
proof (induction "n - i" arbitrary: h i rule: less_induct)
  case less
  let ?j = "heap_child jobs_ops h i n"
  show ?case
  proof (cases "n \<le> 2 * i + 1 \<or> \<not> jobs_Less h ?j i")
    case True
    with less.prems show ?thesis by (auto simp: heap_down_loop.simps [of _ h i n] Let_def split: if_splits)
  next
    case False
    then have "heap_down_loop jobs_ops (jobs_Swap h i ?j) ?j n = (k, h')"
      using less.prems by (simp add: heap_down_loop.simps [of _ h i n] Let_def)
    moreover have "n - ?j < n - i" using False heap_child_cases [of jobs_ops h i n] by auto
    ultimately show ?thesis using less.hyps by fastforce
  qed
qed

lemma jobs_Pop_shorter:
  "heap_Pop jobs_ops h = (a, h') \<Longrightarrow> length (jh_arr h') = length (jh_arr h) - 1"
  by (auto simp: heap_Pop_def heap_down_def Let_def jobs_Len_def jobs_Pop_def
      split: prod.splits dest!: jobs_down_length)

function process_expired :: "int \<Rightarrow> 'c scheduler \<Rightarrow> (string \<times> 'c) list \<times> 'c scheduler" where
  "process_expired now s =
     (if jh_arr (sch_jobs s) \<noteq> [] \<and> \<not> now < job_key (sch_jobs s) (hd (jh_arr (sch_jobs s)))
      then let (job, h) = heap_Pop jobs_ops (sch_jobs s);
               j = jh_mem h job;
               (subs, s') = process_expired now
                 (s\<lparr>sch_jobs := h, sch_jobMap := (sch_jobMap s)(job_token j := None)\<rparr>)
           in (if job_canceled j then subs else (job_token j, job_claims j) # subs, s')
      else ([], s))"
  by pat_completeness auto
termination
  by (relation "measure (\<lambda>(now, s). length (jh_arr (sch_jobs s)))")
    (auto dest!: jobs_Pop_shorter [OF sym])

declare process_expired.simps [simp del]

definition day_ns :: int where
  "day_ns = 24 * 3600 * 1000000000"

definition next_wait :: "int \<Rightarrow> 'c scheduler \<Rightarrow> int" where
  "next_wait now s =
     (let h = sch_jobs s in
      if jh_arr h \<noteq> [] then max 0 (job_key h (hd (jh_arr h)) - now) else day_ns)"

text \<open>
  One turn of \<open>run\<close> up to its \<open>select\<close>, with the clock read at the start and again for the
  wait; and what the \<open>select\<close> then takes.
\<close>

definition run_turn :: "int \<Rightarrow> int \<Rightarrow> 'c scheduler \<Rightarrow> (string \<times> 'c) list \<times> 'c scheduler" where
  "run_turn now now' s =
     (let (subs, s') = process_expired now s in (subs, s'\<lparr>sch_timer := Some (next_wait now' s')\<rparr>))"

datatype wakeup = TimerFired | TriggerReceived | ShutdownClosed

text \<open>\<open>None\<close>: the loop returns.\<close>

fun run_select :: "wakeup \<Rightarrow> 'c scheduler \<Rightarrow> 'c scheduler option" where
  "run_select TimerFired s = Some s"
| "run_select TriggerReceived s = Some (s\<lparr>sch_trigger := False\<rparr>)"
| "run_select ShutdownClosed s = None"

text \<open>Closing a closed channel panics (\<open>None\<close>).\<close>

definition sched_Stop :: "'c scheduler \<Rightarrow> 'c scheduler option" where
  "sched_Stop s = (if sch_shutdown s then None else Some (s\<lparr>sch_shutdown := True\<rparr>))"

section \<open>The invariant\<close>

text \<open>
  The array is a heap with correct back indices, its jobs are allocated, and the map points at
  queued jobs of its tokens that are not cancelled.
\<close>

definition sched_inv :: "'c scheduler \<Rightarrow> bool" where
  "sched_inv s =
     (let h = sch_jobs s in
      jobs_inv h \<and> is_heap (map (job_key h) (jh_arr h)) \<and> (\<forall>a \<in> set (jh_arr h). a < sch_next s) \<and>
      (\<forall>t a. sch_jobMap s t = Some a \<longrightarrow>
         a \<in> set (jh_arr h) \<and> job_token (jh_mem h a) = t \<and> \<not> job_canceled (jh_mem h a)))"

lemma sched_invD:
  assumes "sched_inv s"
  shows "jobs_inv (sch_jobs s)" "is_heap (map (job_key (sch_jobs s)) (jh_arr (sch_jobs s)))"
    and "a \<in> set (jh_arr (sch_jobs s)) \<Longrightarrow> a < sch_next s"
    and "sch_jobMap s t = Some a \<Longrightarrow> a \<in> set (jh_arr (sch_jobs s)) \<and>
      job_token (jh_mem (sch_jobs s) a) = t \<and> \<not> job_canceled (jh_mem (sch_jobs s) a)"
  using assms by (auto simp: sched_inv_def Let_def)

lemma sched_invI:
  assumes "jobs_inv (sch_jobs s)" "is_heap (map (job_key (sch_jobs s)) (jh_arr (sch_jobs s)))"
    and "\<And>a. a \<in> set (jh_arr (sch_jobs s)) \<Longrightarrow> a < sch_next s"
    and "\<And>t a. sch_jobMap s t = Some a \<Longrightarrow> a \<in> set (jh_arr (sch_jobs s)) \<and>
      job_token (jh_mem (sch_jobs s) a) = t \<and> \<not> job_canceled (jh_mem (sch_jobs s) a)"
  shows "sched_inv s"
  using assms by (auto simp: sched_inv_def Let_def)

lemma NewSessionScheduler_inv: "sched_inv (NewSessionScheduler m)"
  by (simp add: sched_inv_def NewSessionScheduler_def jobs_inv_def heap_upto_def)

lemma jobs_restored:
  assumes "jobs.restored h h'"
  shows "jobs_inv h'" "same_jobs h h'" "set (jh_arr h') = set (jh_arr h)"
  using assms by (auto simp: jobs.restored_def dest: mset_eq_setD)

lemma jobs_inv_index:
  assumes "jobs_inv h" "a \<in> set (jh_arr h)"
  obtains i where "i < length (jh_arr h)" "jh_arr h ! i = a" "job_index (jh_mem h a) = int i"
  using assms unfolding jobs_inv_def in_set_conv_nth by metis

text \<open>Changing a queued job and fixing its place keeps the heap.\<close>

lemma fix_job_correct:
  assumes h: "jobs_inv h" "is_heap (map (job_key h) (jh_arr h))" and a: "a \<in> set (jh_arr h)"
    and j: "job_index j = job_index (jh_mem h a)"
  defines "h1 \<equiv> h\<lparr>jh_mem := (jh_mem h)(a := j)\<rparr>"
  shows "jobs.restored h1 (fix_job h1 (job_index j)) \<and>
    is_heap (map (job_key (fix_job h1 (job_index j))) (jh_arr (fix_job h1 (job_index j))))"
proof -
  obtain i where i: "i < length (jh_arr h)" "jh_arr h ! i = a" "job_index (jh_mem h a) = int i"
    using jobs_inv_index [OF h(1) a] .
  have d: "distinct (jh_arr h)" using h(1) by (simp add: jobs_inv_def)
  have inv1: "jobs_inv h1" using h(1) j by (auto simp: jobs_inv_def h1_def)
  have "map (job_key h1) (jh_arr h1) = (map (job_key h) (jh_arr h))[i := job_runAt j]"
    using i d by (intro nth_equalityI) (auto simp: h1_def nth_list_update nth_eq_iff_index_eq)
  then have "both_inv (length (jh_arr h1)) (map (job_key h1) (jh_arr h1)) i"
    using both_update [OF h(2), of i "job_runAt j"] i by (simp add: h1_def)
  then have "jobs.restored h1 (heap_Fix jobs_ops h1 i) \<and>
    is_heap (map (job_key (heap_Fix jobs_ops h1 i)) (jh_arr (heap_Fix jobs_ops h1 i)))"
    using inv1 i by (intro jobs.Fix_correct) (auto simp: h1_def)
  then show ?thesis using i j by (simp add: fix_job_def)
qed

text \<open>So does pushing a job at a fresh address.\<close>

lemma push_job_correct:
  fixes h :: "'c job_heap" and j :: "'c session_job"
  assumes h: "jobs_inv h" "is_heap (map (job_key h) (jh_arr h))" and a: "a \<notin> set (jh_arr h)"
  defines "h1 \<equiv> h\<lparr>jh_mem := (jh_mem h)(a := j)\<rparr>"
  shows "jobs_inv (heap_Push jobs_ops h1 a)" "same_jobs h1 (heap_Push jobs_ops h1 a)"
    and "is_heap (map (job_key (heap_Push jobs_ops h1 a)) (jh_arr (heap_Push jobs_ops h1 a)))"
    and "set (jh_arr (heap_Push jobs_ops h1 a)) = insert a (set (jh_arr h))"
proof -
  have arr: "jh_arr h1 = jh_arr h" by (simp add: h1_def)
  have i1: "jobs_inv h1" using h(1) a by (auto simp: jobs_inv_def in_set_conv_nth h1_def)
  have k1: "map (job_key h1) (jh_arr h1) = map (job_key h) (jh_arr h)" using a by (auto simp: h1_def)
  have k2: "is_heap (map (job_key h1) (jh_arr h1))" using h(2) unfolding k1 .
  have a1: "a \<notin> set (jh_arr h1)" using a by (simp add: h1_def)
  note p = jobs.Push_correct [OF i1 a1 k2]
  show "jobs_inv (heap_Push jobs_ops h1 a)" "same_jobs h1 (heap_Push jobs_ops h1 a)"
    "is_heap (map (job_key (heap_Push jobs_ops h1 a)) (jh_arr (heap_Push jobs_ops h1 a)))"
    using p by blast+
  have "mset (jh_arr (heap_Push jobs_ops h1 a)) = add_mset a (mset (jh_arr h))" using p arr by simp
  then show "set (jh_arr (heap_Push jobs_ops h1 a)) = insert a (set (jh_arr h))"
    by (metis set_mset_add_mset_insert set_mset_mset)
qed

lemma Schedule_inv:
  assumes inv: "sched_inv s"
  shows "sched_inv (ScheduleSessionReceipt now token claims delay s)"
proof (cases "sch_jobMap s token")
  case None
  let ?h = "sch_jobs s"
  let ?j = "\<lparr>job_token = token, job_claims = claims, job_runAt = now + delay,
             job_canceled = False, job_index = 0\<rparr>"
  note D = sched_invD [OF inv]
  have fresh: "sch_next s \<notin> set (jh_arr ?h)" using D(3) by blast
  define h2 where "h2 = heap_Push jobs_ops (?h\<lparr>jh_mem := (jh_mem ?h)(sch_next s := ?j)\<rparr>) (sch_next s)"
  note p = push_job_correct [OF D(1,2) fresh, of ?j, folded h2_def]
  note F = same_jobs_fields [OF p(2)]
  have "ScheduleSessionReceipt now token claims delay s =
      s\<lparr>sch_jobs := h2, sch_next := sch_next s + 1,
        sch_jobMap := (sch_jobMap s)(token \<mapsto> sch_next s), sch_trigger := True\<rparr>"
    using None by (simp add: ScheduleSessionReceipt_def Let_def h2_def)
  then show ?thesis
    using p(1,3,4) D fresh by (auto simp: sched_inv_def Let_def F less_Suc_eq)
next
  case (Some a)
  let ?h = "sch_jobs s"
  let ?j = "(jh_mem ?h a)\<lparr>job_claims := claims, job_runAt := now + delay, job_canceled := False\<rparr>"
  note D = sched_invD [OF inv] and A = sched_invD(4) [OF inv Some]
  define h1 where "h1 = ?h\<lparr>jh_mem := (jh_mem ?h)(a := ?j)\<rparr>"
  define h2 where "h2 = fix_job h1 (job_index ?j)"
  have p: "jobs.restored h1 h2 \<and> is_heap (map (job_key h2) (jh_arr h2))"
    unfolding h1_def h2_def using D(1,2) A by (intro fix_job_correct) auto
  then have r: "jobs.restored h1 h2" by blast
  note R = jobs_restored [OF r] and F = same_jobs_fields [OF jobs_restored(2) [OF r]]
  have e: "ScheduleSessionReceipt now token claims delay s = s\<lparr>sch_jobs := h2, sch_trigger := True\<rparr>"
    using Some by (simp add: ScheduleSessionReceipt_def Let_def h1_def h2_def)
  have arr: "set (jh_arr h2) = set (jh_arr ?h)" using R(3) by (simp add: h1_def)
  show ?thesis
    unfolding e
  proof (rule sched_invI)
    fix t b assume "sch_jobMap (s\<lparr>sch_jobs := h2, sch_trigger := True\<rparr>) t = Some b"
    then have "sch_jobMap s t = Some b" by simp
    from D(4) [OF this]
    show "b \<in> set (jh_arr (sch_jobs (s\<lparr>sch_jobs := h2, sch_trigger := True\<rparr>))) \<and>
        job_token (jh_mem (sch_jobs (s\<lparr>sch_jobs := h2, sch_trigger := True\<rparr>)) b) = t \<and>
        \<not> job_canceled (jh_mem (sch_jobs (s\<lparr>sch_jobs := h2, sch_trigger := True\<rparr>)) b)"
      by (auto simp: arr F h1_def)
  qed (use p R(1) arr D(3) in auto)
qed

lemma cancel_key:
  "job_key (h\<lparr>jh_mem := (jh_mem h)(a := (jh_mem h a)\<lparr>job_canceled := True\<rparr>)\<rparr>) = job_key h"
  by (rule ext) simp

lemma Cancel_inv:
  assumes "sched_inv s"
  shows "sched_inv (snd (CancelSessionReceipt token s))"
proof (cases "sch_jobMap s token")
  case (Some a)
  let ?h = "sch_jobs s"
  define h1 where "h1 = ?h\<lparr>jh_mem := (jh_mem ?h)(a := (jh_mem ?h a)\<lparr>job_canceled := True\<rparr>)\<rparr>"
  note D = sched_invD [OF assms]
  have k: "job_key h1 = job_key ?h" unfolding h1_def by (rule cancel_key)
  have "jobs_inv h1" using D(1) by (auto simp: jobs_inv_def h1_def)
  moreover have "sch_jobMap s t = Some b \<Longrightarrow> t \<noteq> token \<Longrightarrow> b \<noteq> a" for t b
    using D(4) [OF Some] D(4) [of t b] by auto
  moreover have "snd (CancelSessionReceipt token s) =
      s\<lparr>sch_jobs := h1, sch_jobMap := (sch_jobMap s)(token := None)\<rparr>"
    using Some by (simp add: CancelSessionReceipt_def h1_def Let_def)
  ultimately show ?thesis
    using D by (auto intro!: sched_invI simp: k) (auto simp: h1_def split: if_splits)
qed (use assms in \<open>simp add: CancelSessionReceipt_def\<close>)

section \<open>What a turn of the loop submits\<close>

text \<open>
  \<open>popped\<close> are the jobs a turn takes off the heap, in order: the due ones, by time; what it
  submits are those of them that are not cancelled, and their tokens leave the map.
\<close>

definition pops :: "int \<Rightarrow> 'c scheduler \<Rightarrow> nat list \<Rightarrow> (string \<times> 'c) list \<Rightarrow> 'c scheduler \<Rightarrow> bool" where
  "pops now s popped subs s' =
     (let h = sch_jobs s; m = jh_mem h in
      mset (jh_arr h) = mset popped + mset (jh_arr (sch_jobs s')) \<and>
      sorted (map (job_key h) popped) \<and>
      (\<forall>a \<in> set popped. job_key h a \<le> now) \<and>
      (\<forall>a \<in> set (jh_arr (sch_jobs s')). now < job_key h a) \<and>
      subs = map (\<lambda>a. (job_token (m a), job_claims (m a))) (filter (\<lambda>a. \<not> job_canceled (m a)) popped) \<and>
      sch_jobMap s' = (\<lambda>t. if t \<in> (\<lambda>a. job_token (m a)) ` set popped then None else sch_jobMap s t))"

lemma pop_due_inv:
  assumes inv: "sched_inv s" and ne: "jh_arr (sch_jobs s) \<noteq> []"
    and pop: "heap_Pop jobs_ops (sch_jobs s) = (a, h)"
  defines "s1 \<equiv> s\<lparr>sch_jobs := h, sch_jobMap := (sch_jobMap s)(job_token (jh_mem h a) := None)\<rparr>"
  shows "sched_inv s1 \<and> same_jobs (sch_jobs s) h \<and> a = hd (jh_arr (sch_jobs s)) \<and>
    mset (jh_arr (sch_jobs s)) = add_mset a (mset (jh_arr h)) \<and>
    (\<forall>b \<in> set (jh_arr h). job_key (sch_jobs s) a \<le> job_key (sch_jobs s) b)"
proof -
  note D = sched_invD [OF inv]
  note P = jobs.Pop_correct [OF D(1) ne D(2) pop]
  then have same: "same_jobs (sch_jobs s) h" by blast
  note F = same_jobs_fields [OF same]
  have arr: "set (jh_arr (sch_jobs s)) = insert a (set (jh_arr h))"
    using P by (metis set_mset_add_mset_insert set_mset_mset)
  have "sched_inv s1"
  proof (rule sched_invI)
    fix t b assume "sch_jobMap s1 t = Some b"
    then have m: "sch_jobMap s t = Some b" "t \<noteq> job_token (jh_mem h a)"
      by (auto simp: s1_def split: if_splits)
    with D(4) [OF m(1)] arr F
    show "b \<in> set (jh_arr (sch_jobs s1)) \<and> job_token (jh_mem (sch_jobs s1) b) = t \<and>
        \<not> job_canceled (jh_mem (sch_jobs s1) b)"
      by (auto simp: s1_def)
  qed (use P D(3) arr in \<open>auto simp: s1_def\<close>)
  with P same show ?thesis by blast
qed

lemma process_expired_spec:
  "sched_inv s \<Longrightarrow> process_expired now s = (subs, s') \<Longrightarrow>
   sched_inv s' \<and> sch_next s' = sch_next s \<and> same_jobs (sch_jobs s) (sch_jobs s') \<and>
   (\<exists>popped. pops now s popped subs s')"
proof (induction now s arbitrary: subs s' rule: process_expired.induct)
  case (1 now s)
  let ?h0 = "sch_jobs s"
  show ?case
  proof (cases "jh_arr ?h0 \<noteq> [] \<and> \<not> now < job_key ?h0 (hd (jh_arr ?h0))")
    case False
    then have "subs = []" "s' = s" using "1.prems" by (auto simp: process_expired.simps [of now s])
    moreover have "\<forall>a \<in> set (jh_arr ?h0). now < job_key ?h0 a"
      using False jobs.hd_least [OF sched_invD(2) [OF "1.prems"(1)]] by fastforce
    ultimately show ?thesis
      using "1.prems" by (auto simp: same_jobs_def pops_def Let_def intro!: exI [of _ "[]"])
  next
    case True
    obtain a h where pop: "heap_Pop jobs_ops ?h0 = (a, h)" by fastforce
    let ?j = "jh_mem h a"
    define s1 where "s1 = s\<lparr>sch_jobs := h, sch_jobMap := (sch_jobMap s)(job_token ?j := None)\<rparr>"
    obtain subs1 where rec: "process_expired now s1 = (subs1, s')"
      and subs: "subs = (if job_canceled ?j then subs1 else (job_token ?j, job_claims ?j) # subs1)"
      using "1.prems"(2) True pop
      by (auto simp: process_expired.simps [of now s] Let_def s1_def split: prod.splits)
    note P = pop_due_inv [OF "1.prems"(1) conjunct1 [OF True] pop, folded s1_def]
    have same: "same_jobs ?h0 h" using P by blast
    note F = same_jobs_fields [OF same]
    have IH: "sched_inv s' \<and> sch_next s' = sch_next s1 \<and> same_jobs (sch_jobs s1) (sch_jobs s') \<and>
        (\<exists>popped. pops now s1 popped subs1 s')"
      using "1.IH" [OF True pop [symmetric] refl refl] P rec unfolding s1_def by blast
    then obtain popped where po: "pops now s1 popped subs1 s'" by blast
    have "pops now s (a # popped) subs s'"
    proof -
      have s1: "sch_jobs s1 = h" "sch_jobMap s1 = (sch_jobMap s)(job_token ?j := None)" by (simp_all add: s1_def)
      have "\<forall>b \<in> set popped. b \<in> set (jh_arr h)"
        using po unfolding pops_def s1 Let_def by (metis UnCI set_mset_mset set_mset_union)
      then show ?thesis
        using po P True subs unfolding pops_def s1 Let_def by (auto simp: F)
    qed
    moreover have "same_jobs ?h0 (sch_jobs s')"
      using same IH by (auto simp: s1_def intro: jobs.same_trans)
    ultimately show ?thesis using IH by (auto simp: s1_def)
  qed
qed

section \<open>Executions\<close>

text \<open>
  The operations with the clock readings each of them makes, and what a caller or the receipt
  service observes of each.
\<close>

datatype 'c sched_op =
    Op_Schedule int string 'c int
  | Op_Cancel string
  | Op_Run int int

datatype 'c sched_out =
    Out_Scheduled
  | Out_Cancelled bool
  | Out_Submitted "(string \<times> 'c) list"

fun sched_step :: "'c sched_op \<Rightarrow> 'c scheduler \<Rightarrow> 'c sched_out \<times> 'c scheduler" where
  "sched_step (Op_Schedule now t c d) s = (Out_Scheduled, ScheduleSessionReceipt now t c d s)"
| "sched_step (Op_Cancel t) s = (let (b, s') = CancelSessionReceipt t s in (Out_Cancelled b, s'))"
| "sched_step (Op_Run now now') s = (let (subs, s') = run_turn now now' s in (Out_Submitted subs, s'))"

fun sched_exec :: "'c sched_op list \<Rightarrow> 'c scheduler \<Rightarrow> 'c sched_out list \<times> 'c scheduler" where
  "sched_exec [] s = ([], s)"
| "sched_exec (p # ps) s =
     (let (out, s1) = sched_step p s; (outs, s2) = sched_exec ps s1 in (out # outs, s2))"

lemma sched_inv_timer [simp]: "sched_inv (s\<lparr>sch_timer := w\<rparr>) = sched_inv s"
  by (simp add: sched_inv_def)

lemma run_turn_spec:
  assumes "sched_inv s" "run_turn now now' s = (subs, s')"
  obtains s1 popped where "process_expired now s = (subs, s1)" "sched_inv s1"
    "same_jobs (sch_jobs s) (sch_jobs s1)" "pops now s popped subs s1"
    "s' = s1\<lparr>sch_timer := Some (next_wait now' s1)\<rparr>"
  using assms process_expired_spec [OF assms(1), of now] by (auto simp: run_turn_def split: prod.splits)

lemma sched_step_inv: "sched_inv s \<Longrightarrow> sched_inv (snd (sched_step p s))"
proof (cases p)
  case (Op_Cancel t)
  assume "sched_inv s"
  then show ?thesis using Op_Cancel Cancel_inv [of s t] by (simp add: case_prod_beta)
next
  case (Op_Run now now')
  assume s: "sched_inv s"
  obtain subs s' where r: "run_turn now now' s = (subs, s')" by fastforce
  with run_turn_spec [OF s r] have "sched_inv s'" by (metis sched_inv_timer)
  then show ?thesis using Op_Run r by simp
qed (simp add: Schedule_inv)

lemma sched_exec_inv: "sched_inv s \<Longrightarrow> sched_inv (snd (sched_exec ps s))"
  by (induction ps arbitrary: s) (auto simp: case_prod_beta sched_step_inv)

text \<open>
  C14. In every state the scheduler reaches from its constructor, by any sequence of schedule
  and cancel calls and turns of the loop at any clock readings, the array is a heap ordered by
  the run time with the back index of every job correct, and the map from tokens holds only
  queued jobs of that token that are not cancelled.
\<close>

theorem scheduler_invariant: "sched_inv (snd (sched_exec ps (NewSessionScheduler m)))"
  by (simp add: sched_exec_inv NewSessionScheduler_inv)

lemma next_wait_least:
  assumes "sched_inv s"
  shows "next_wait now s = (if jh_arr (sch_jobs s) = [] then day_ns
     else max 0 (Min (job_key (sch_jobs s) ` set (jh_arr (sch_jobs s))) - now))"
proof (cases "jh_arr (sch_jobs s)")
  case (Cons a as)
  have "job_key (sch_jobs s) a = Min (job_key (sch_jobs s) ` set (jh_arr (sch_jobs s)))"
    using jobs.hd_least [OF sched_invD(2) [OF assms]] Cons by (intro Min_eqI [symmetric]) auto
  then show ?thesis using Cons by (simp add: next_wait_def Let_def)
qed (simp add: next_wait_def Let_def)

text \<open>
  C28. A turn of the scheduler's loop, in every state reached, takes off the heap exactly the
  jobs whose time has come (not after the clock reading), in the order of their times, submits
  those of them that are not cancelled in that order, forgets their tokens, and arms the timer
  with the time left to the earliest remaining job (zero when it is past), or 24 hours when
  none is left.
\<close>

theorem run_submits_due_jobs:
  "let s = snd (sched_exec ps (NewSessionScheduler m));
       (subs, s') = run_turn now now' s;
       rest = jh_arr (sch_jobs s')
   in (\<exists>popped. pops now s popped subs s') \<and>
      sch_timer s' = Some (if rest = [] then 24 * 3600 * 1000000000
        else max 0 (Min ((\<lambda>a. job_runAt (jh_mem (sch_jobs s') a)) ` set rest) - now'))"
proof -
  let ?s = "snd (sched_exec ps (NewSessionScheduler m))"
  obtain subs s' where r: "run_turn now now' ?s = (subs, s')" by fastforce
  obtain s1 popped where s1: "sched_inv s1" "pops now ?s popped subs s1"
      "s' = s1\<lparr>sch_timer := Some (next_wait now' s1)\<rparr>"
    using run_turn_spec [OF sched_exec_inv [OF NewSessionScheduler_inv] r] by metis
  have "pops now ?s popped subs s'" using s1(2,3) by (simp add: pops_def)
  then show ?thesis using s1(1,3) r next_wait_least [OF s1(1), of now'] by (auto simp: Let_def day_ns_def)
qed

section \<open>One token's receipt, abstractly\<close>

text \<open>
  What the scheduler promises about one token: at most one pending receipt, with a time and
  claims. Scheduling replaces it, cancelling drops it and says whether there was one, and a
  turn submits it once its time has come. \<open>None\<close>: no receipt is pending.
\<close>

type_synonym 'c receipt = "(int \<times> 'c) option"

fun receipt_step :: "string \<Rightarrow> 'c sched_op \<Rightarrow> 'c receipt \<Rightarrow> 'c sched_out \<times> 'c receipt" where
  "receipt_step t (Op_Schedule now t' c d) r =
     (Out_Scheduled, if t' = t then Some (now + d, c) else r)"
| "receipt_step t (Op_Cancel t') r =
     (if t' = t then (Out_Cancelled (r \<noteq> None), None) else (Out_Scheduled, r))"
| "receipt_step t (Op_Run now now') r =
     (case r of Some (at, c) \<Rightarrow> if at \<le> now then (Out_Submitted [(t, c)], None) else (Out_Submitted [], r)
      | None \<Rightarrow> (Out_Submitted [], None))"

text \<open>What an operation shows of the token, its pending receipt, and the condition on the queue.\<close>

fun out_for :: "string \<Rightarrow> 'c sched_op \<Rightarrow> 'c sched_out \<Rightarrow> 'c sched_out" where
  "out_for t (Op_Run now now') (Out_Submitted subs) = Out_Submitted (filter (\<lambda>x. fst x = t) subs)"
| "out_for t (Op_Cancel t') out = (if t' = t then out else Out_Scheduled)"
| "out_for t p out = out"

definition receipt_of :: "string \<Rightarrow> 'c scheduler \<Rightarrow> 'c receipt" where
  "receipt_of t s = map_option
     (\<lambda>a. (job_runAt (jh_mem (sch_jobs s) a), job_claims (jh_mem (sch_jobs s) a))) (sch_jobMap s t)"

definition no_stale :: "string \<Rightarrow> 'c scheduler \<Rightarrow> bool" where
  "no_stale t s = (\<forall>a \<in> set (jh_arr (sch_jobs s)).
     \<not> (job_token (jh_mem (sch_jobs s) a) = t \<and> job_canceled (jh_mem (sch_jobs s) a)))"

definition clean_tok :: "string \<Rightarrow> 'c scheduler \<Rightarrow> bool" where
  "clean_tok t s = (\<forall>a \<in> set (jh_arr (sch_jobs s)). job_token (jh_mem (sch_jobs s) a) = t \<longrightarrow>
     sch_jobMap s t = (if job_canceled (jh_mem (sch_jobs s) a) then None else Some a))"

lemma clean_tokD:
  assumes "clean_tok t s" "a \<in> set (jh_arr (sch_jobs s))" "job_token (jh_mem (sch_jobs s) a) = t"
  shows "sch_jobMap s t = (if job_canceled (jh_mem (sch_jobs s) a) then None else Some a)"
  using assms by (simp add: clean_tok_def)

lemma clean_tok_timer [simp]: "clean_tok t (s\<lparr>sch_timer := w\<rparr>) = clean_tok t s"
  by (simp add: clean_tok_def)

lemma filter_unique:
  "distinct xs \<Longrightarrow> (\<And>x. x \<in> set xs \<Longrightarrow> P x \<longleftrightarrow> x = a) \<Longrightarrow>
   filter P xs = (if a \<in> set xs then [a] else [])"
proof (induction xs)
  case (Cons x xs)
  then have "filter P xs = (if a \<in> set xs then [a] else [])" by simp
  then show ?case using Cons.prems(1) Cons.prems(2) [of x] by auto
qed simp

text \<open>Scheduling makes the token's receipt the new one, in every state.\<close>

lemma schedule_receipt_of:
  assumes inv: "sched_inv s"
  shows "receipt_of t (ScheduleSessionReceipt now t c d s) = Some (now + d, c)"
proof (cases "sch_jobMap s t")
  case None
  let ?h = "sch_jobs s"
  let ?j = "\<lparr>job_token = t, job_claims = c, job_runAt = now + d, job_canceled = False, job_index = 0\<rparr>"
  note D = sched_invD [OF inv]
  have fresh: "sch_next s \<notin> set (jh_arr ?h)" using D(3) by blast
  note p = push_job_correct [OF D(1,2) fresh, of ?j]
  show ?thesis using None same_jobs_fields [OF p(2)]
    by (simp add: receipt_of_def ScheduleSessionReceipt_def Let_def)
next
  case (Some a)
  let ?h = "sch_jobs s"
  let ?j = "(jh_mem ?h a)\<lparr>job_claims := c, job_runAt := now + d, job_canceled := False\<rparr>"
  note D = sched_invD [OF inv] and A = sched_invD(4) [OF inv Some]
  have "jobs.restored (?h\<lparr>jh_mem := (jh_mem ?h)(a := ?j)\<rparr>)
      (fix_job (?h\<lparr>jh_mem := (jh_mem ?h)(a := ?j)\<rparr>) (job_index ?j))"
    using fix_job_correct [OF D(1,2)] A by auto
  note F = same_jobs_fields [OF jobs_restored(2) [OF this]]
  show ?thesis using Some F by (simp add: receipt_of_def ScheduleSessionReceipt_def Let_def)
qed

lemma schedule_receipt_fresh:
  assumes inv: "sched_inv s" and cl: "clean_tok t s" and st: "t' = t \<longrightarrow> no_stale t s"
    and s'_def: "s' = ScheduleSessionReceipt now t' c d s" and None: "sch_jobMap s t' = None"
  shows "clean_tok t s' \<and> receipt_of t s' = (if t' = t then Some (now + d, c) else receipt_of t s)"
proof -
  let ?h = "sch_jobs s"
  let ?j = "\<lparr>job_token = t', job_claims = c, job_runAt = now + d, job_canceled = False, job_index = 0\<rparr>"
  note D = sched_invD [OF inv]
  have fresh: "sch_next s \<notin> set (jh_arr ?h)" using D(3) by blast
  define h2 where "h2 = heap_Push jobs_ops (?h\<lparr>jh_mem := (jh_mem ?h)(sch_next s := ?j)\<rparr>) (sch_next s)"
  note p = push_job_correct [OF D(1,2) fresh, of ?j, folded h2_def]
  note F = same_jobs_fields [OF p(2)]
  have e: "s' = s\<lparr>sch_jobs := h2, sch_next := sch_next s + 1,
        sch_jobMap := (sch_jobMap s)(t' \<mapsto> sch_next s), sch_trigger := True\<rparr>"
    using None by (simp add: s'_def ScheduleSessionReceipt_def Let_def h2_def)
  have "sch_jobMap s' t = (if job_canceled (jh_mem (sch_jobs s') a) then None else Some a)"
    if a: "a \<in> set (jh_arr (sch_jobs s'))" "job_token (jh_mem (sch_jobs s') a) = t" for a
  proof -
    have "a = sch_next s \<or> a \<noteq> sch_next s \<and> a \<in> set (jh_arr ?h)" using a(1) p(4) by (auto simp: e)
    then show ?thesis using a(2) st clean_tokD [OF cl, of a] None by (auto simp: e F no_stale_def split: if_splits)
  qed
  then have "clean_tok t s'" by (simp add: clean_tok_def)
  moreover have "sch_jobMap s t = Some b \<Longrightarrow> b \<noteq> sch_next s" for b using D(4) [of t b] fresh by auto
  ultimately show ?thesis by (cases "sch_jobMap s t") (auto simp: receipt_of_def e F)
qed

lemma schedule_receipt_again:
  assumes inv: "sched_inv s" and cl: "clean_tok t s"
    and s'_def: "s' = ScheduleSessionReceipt now t' c d s" and Some: "sch_jobMap s t' = Some a"
  shows "clean_tok t s' \<and> receipt_of t s' = (if t' = t then Some (now + d, c) else receipt_of t s)"
proof -
  let ?h = "sch_jobs s"
  let ?j = "(jh_mem ?h a)\<lparr>job_claims := c, job_runAt := now + d, job_canceled := False\<rparr>"
  note D = sched_invD [OF inv] and A = sched_invD(4) [OF inv Some]
  define h1 where "h1 = ?h\<lparr>jh_mem := (jh_mem ?h)(a := ?j)\<rparr>"
  define h2 where "h2 = fix_job h1 (job_index ?j)"
  have "jobs.restored h1 h2 \<and> is_heap (map (job_key h2) (jh_arr h2))"
    unfolding h1_def h2_def using D(1,2) A by (intro fix_job_correct) auto
  then have r: "jobs.restored h1 h2" by blast
  note F = same_jobs_fields [OF jobs_restored(2) [OF r]]
  have e: "s' = s\<lparr>sch_jobs := h2, sch_trigger := True\<rparr>"
    using Some by (simp add: s'_def ScheduleSessionReceipt_def Let_def h1_def h2_def)
  have arr: "set (jh_arr h2) = set (jh_arr ?h)" using jobs_restored(3) [OF r] by (simp add: h1_def)
  have "clean_tok t s'" using cl A by (auto simp: clean_tok_def e arr F h1_def)
  moreover have "sch_jobMap s t = Some a \<longleftrightarrow> t' = t" using Some A D(4) [of t a] by auto
  ultimately show ?thesis using Some by (cases "sch_jobMap s t") (auto simp: receipt_of_def e F h1_def)
qed

lemma schedule_receipt:
  assumes "sched_inv s" and "clean_tok t s" and "t' = t \<longrightarrow> no_stale t s"
    and "s' = ScheduleSessionReceipt now t' c d s"
  shows "clean_tok t s' \<and> receipt_of t s' = (if t' = t then Some (now + d, c) else receipt_of t s)"
  using schedule_receipt_fresh [OF assms] schedule_receipt_again [OF assms(1,2,4)] by (cases "sch_jobMap s t'")

lemma cancel_receipt:
  assumes inv: "sched_inv s" and cl: "clean_tok t s" and c: "CancelSessionReceipt t' s = (b, s')"
  shows "clean_tok t s' \<and> receipt_of t s' = (if t' = t then None else receipt_of t s) \<and>
    (t' = t \<longrightarrow> b = (receipt_of t s \<noteq> None))"
proof (cases "sch_jobMap s t'")
  case None
  then show ?thesis using c cl by (auto simp: CancelSessionReceipt_def receipt_of_def)
next
  case (Some a)
  let ?h = "sch_jobs s"
  define h1 where "h1 = ?h\<lparr>jh_mem := (jh_mem ?h)(a := (jh_mem ?h a)\<lparr>job_canceled := True\<rparr>)\<rparr>"
  have e: "b" "s' = s\<lparr>sch_jobs := h1, sch_jobMap := (sch_jobMap s)(t' := None)\<rparr>"
    using c Some by (auto simp: CancelSessionReceipt_def h1_def Let_def)
  note A = sched_invD(4) [OF inv Some]
  have "clean_tok t s'" using cl A Some by (auto simp: clean_tok_def e(2) h1_def split: if_splits)
  moreover have "t' \<noteq> t \<Longrightarrow> sch_jobMap s t \<noteq> Some a" using A sched_invD(4) [OF inv, of t a] by auto
  ultimately show ?thesis
    using Some e(1) by (cases "sch_jobMap s t") (auto simp: receipt_of_def e(2) h1_def)
qed

text \<open>What a turn popped, seen from one token.\<close>

lemma pops_token:
  assumes inv: "sched_inv s" and same: "same_jobs (sch_jobs s) (sch_jobs s1)" and pops: "pops now s popped subs s1"
  defines "m \<equiv> jh_mem (sch_jobs s)"
  shows "set (jh_arr (sch_jobs s)) = set popped \<union> set (jh_arr (sch_jobs s1))" and "distinct popped"
    and "filter (\<lambda>x. fst x = t) subs =
      map (\<lambda>a. (t, job_claims (m a))) (filter (\<lambda>a. \<not> job_canceled (m a) \<and> job_token (m a) = t) popped)"
    and "sch_jobMap s1 = (\<lambda>u. if u \<in> (\<lambda>a. job_token (m a)) ` set popped then None else sch_jobMap s u)"
    and "a \<in> set (jh_arr (sch_jobs s)) \<Longrightarrow> a \<in> set popped \<longleftrightarrow> job_runAt (m a) \<le> now"
proof -
  have ms: "mset (jh_arr (sch_jobs s)) = mset (popped @ jh_arr (sch_jobs s1))"
    and due: "\<forall>a \<in> set popped. job_runAt (m a) \<le> now"
    and rest: "\<forall>a \<in> set (jh_arr (sch_jobs s1)). now < job_runAt (m a)"
    and subs: "subs = map (\<lambda>a. (job_token (m a), job_claims (m a))) (filter (\<lambda>a. \<not> job_canceled (m a)) popped)"
    and jm: "sch_jobMap s1 = (\<lambda>u. if u \<in> (\<lambda>a. job_token (m a)) ` set popped then None else sch_jobMap s u)"
    using pops by (simp_all add: pops_def Let_def m_def)
  show arr: "set (jh_arr (sch_jobs s)) = set popped \<union> set (jh_arr (sch_jobs s1))"
    using mset_eq_setD [OF ms] by simp
  have "distinct (jh_arr (sch_jobs s))" using sched_invD(1) [OF inv] by (simp add: jobs_inv_def)
  then show "distinct popped" using mset_eq_imp_distinct_iff [OF ms] by simp
  show "filter (\<lambda>x. fst x = t) subs =
      map (\<lambda>a. (t, job_claims (m a))) (filter (\<lambda>a. \<not> job_canceled (m a) \<and> job_token (m a) = t) popped)"
    by (simp add: subs filter_map o_def)
  show "sch_jobMap s1 = (\<lambda>u. if u \<in> (\<lambda>a. job_token (m a)) ` set popped then None else sch_jobMap s u)" by (rule jm)
  show "a \<in> set popped \<longleftrightarrow> job_runAt (m a) \<le> now" if "a \<in> set (jh_arr (sch_jobs s))"
    using that arr due rest by fastforce
qed

text \<open>In a clean queue a token has one job that counts, the one in the map, or none.\<close>

lemma clean_tok_none:
  assumes "clean_tok t s" "sch_jobMap s t = None" "a \<in> set (jh_arr (sch_jobs s))" "job_token (jh_mem (sch_jobs s) a) = t"
  shows "job_canceled (jh_mem (sch_jobs s) a)"
  using clean_tokD [OF assms(1,3,4)] assms(2) by (simp split: if_splits)

lemma clean_tok_one:
  assumes "clean_tok t s" "sched_inv s" "sch_jobMap s t = Some a" "b \<in> set (jh_arr (sch_jobs s))"
  shows "job_token (jh_mem (sch_jobs s) b) = t \<longleftrightarrow> b = a"
    and "\<not> job_canceled (jh_mem (sch_jobs s) b) \<and> job_token (jh_mem (sch_jobs s) b) = t \<longleftrightarrow> b = a"
proof -
  have "job_token (jh_mem (sch_jobs s) b) = t \<Longrightarrow> b = a \<and> \<not> job_canceled (jh_mem (sch_jobs s) b)"
    using clean_tokD [OF assms(1,4)] assms(3) by (simp split: if_splits)
  then show "job_token (jh_mem (sch_jobs s) b) = t \<longleftrightarrow> b = a"
    and "\<not> job_canceled (jh_mem (sch_jobs s) b) \<and> job_token (jh_mem (sch_jobs s) b) = t \<longleftrightarrow> b = a"
    using sched_invD(4) [OF assms(2,3)] by blast+
qed

lemma run_receipt:
  assumes inv: "sched_inv s" and cl: "clean_tok t s" and r: "run_turn now now' s = (subs, s')"
  shows "clean_tok t s' \<and>
    (Out_Submitted (filter (\<lambda>x. fst x = t) subs), receipt_of t s') =
      receipt_step t (Op_Run now now') (receipt_of t s)"
proof -
  obtain s1 popped where s1: "same_jobs (sch_jobs s) (sch_jobs s1)" "pops now s popped subs s1"
      "s' = s1\<lparr>sch_timer := Some (next_wait now' s1)\<rparr>"
    using run_turn_spec [OF inv r] by metis
  let ?m = "jh_mem (sch_jobs s)"
  note F = same_jobs_fields [OF s1(1)] and P = pops_token [OF inv s1(1,2)]
  show ?thesis
  proof (cases "sch_jobMap s t")
    case None
    have f: "filter (\<lambda>a. \<not> job_canceled (?m a) \<and> job_token (?m a) = t) popped = []"
      using clean_tok_none [OF cl None] P(1) by (auto simp: filter_empty_conv)
    have "clean_tok t s1" using cl None P(1) by (auto simp: clean_tok_def P(4) F)
    then show ?thesis using None by (auto simp: s1(3) P(3,4) f receipt_of_def)
  next
    case (Some a)
    note A = sched_invD(4) [OF inv Some] and uniq = clean_tok_one [OF cl inv Some]
    have f: "filter (\<lambda>b. \<not> job_canceled (?m b) \<and> job_token (?m b) = t) popped = (if a \<in> set popped then [a] else [])"
      using P(1,2) uniq(2) by (intro filter_unique) auto
    have inp: "a \<in> set popped \<longleftrightarrow> job_runAt (?m a) \<le> now" using A by (intro P(5)) simp
    have "(t = job_token (?m b)) = (b = a)" if "b \<in> set popped" for b using uniq(1) [of b] that P(1) by blast
    then have img: "t \<in> (\<lambda>a. job_token (?m a)) ` set popped \<longleftrightarrow> a \<in> set popped"
      by (simp add: image_iff cong: bex_cong)
    have "sch_jobMap s1 t = (if job_canceled (?m b) then None else Some b)"
      if b: "b \<in> set (jh_arr (sch_jobs s1))" "job_token (?m b) = t" for b
    proof -
      have "b = a" using uniq(1) [of b] b P(1) by auto
      moreover have "b \<notin> set popped" using s1(2) b(1) P(5) [of b] P(1) by (auto simp: pops_def Let_def)
      ultimately show ?thesis using A Some img by (simp add: P(4))
    qed
    then have "clean_tok t s1" by (simp add: clean_tok_def F)
    then show ?thesis using Some img inp by (auto simp: s1(3) P(3,4) f receipt_of_def F)
  qed
qed

text \<open>
  The condition on an execution: when the token is scheduled, no cancelled job of it is still
  queued.
\<close>

fun guarded :: "string \<Rightarrow> 'c sched_op list \<Rightarrow> 'c scheduler \<Rightarrow> bool" where
  "guarded t [] s = True"
| "guarded t (p # ps) s =
     ((case p of Op_Schedule now t' c d \<Rightarrow> t' = t \<longrightarrow> no_stale t s | _ \<Rightarrow> True) \<and>
      guarded t ps (snd (sched_step p s)))"

fun receipt_exec :: "string \<Rightarrow> 'c sched_op list \<Rightarrow> 'c receipt \<Rightarrow> 'c sched_out list \<times> 'c receipt" where
  "receipt_exec t [] r = ([], r)"
| "receipt_exec t (p # ps) r =
     (let (out, r1) = receipt_step t p r; (outs, r2) = receipt_exec t ps r1 in (out # outs, r2))"

lemma step_refines:
  assumes "sched_inv s" "clean_tok t s" "guarded t (p # ps) s" "sched_step p s = (out, s')"
  shows "clean_tok t s' \<and> (out_for t p out, receipt_of t s') = receipt_step t p (receipt_of t s)"
proof (cases p)
  case (Op_Schedule now t' c d)
  then show ?thesis
    using schedule_receipt [OF assms(1,2) _ refl, of t' now c d] assms(3,4) by auto
next
  case (Op_Cancel t')
  obtain b s2 where c: "CancelSessionReceipt t' s = (b, s2)" by fastforce
  then show ?thesis using cancel_receipt [OF assms(1,2) c] assms(4) Op_Cancel by auto
next
  case (Op_Run now now')
  obtain subs s2 where r: "run_turn now now' s = (subs, s2)" by fastforce
  then show ?thesis using run_receipt [OF assms(1,2) r] assms(4) Op_Run by auto
qed

lemma exec_refines:
  "sched_inv s \<Longrightarrow> clean_tok t s \<Longrightarrow> guarded t ps s \<Longrightarrow> sched_exec ps s = (outs, s') \<Longrightarrow>
   (map2 (out_for t) ps outs, receipt_of t s') = receipt_exec t ps (receipt_of t s)"
proof (induction ps arbitrary: s outs)
  case (Cons p ps)
  obtain out s1 where st: "sched_step p s = (out, s1)" by fastforce
  obtain outs1 where ex: "sched_exec ps s1 = (outs1, s')" and o: "outs = out # outs1"
    using Cons.prems(4) st by (auto split: prod.splits)
  note R = step_refines [OF Cons.prems(1-3) st]
  have "sched_inv s1" using sched_step_inv [OF Cons.prems(1), of p] st by simp
  then have "(map2 (out_for t) ps outs1, receipt_of t s') = receipt_exec t ps (receipt_of t s1)"
    using Cons.IH R Cons.prems(3) ex st by auto
  then show ?case using R o by (auto split: prod.splits)
qed simp

text \<open>
  C4. Seen from one token, the scheduler is a single pending receipt: for every sequence of
  operations in which the token is not scheduled while a cancelled job of it is still queued,
  the operations show of the token exactly what the abstract receipt shows (each scheduled
  receipt is submitted once, by the first turn at or after its time, unless it was replaced or
  cancelled before; cancelling reports whether one was pending), and the final states agree.
\<close>

theorem scheduler_refines_receipt:
  assumes "guarded t ps (NewSessionScheduler m)"
    and "sched_exec ps (NewSessionScheduler m) = (outs, s)"
  shows "(map2 (out_for t) ps outs, receipt_of t s) = receipt_exec t ps None"
  using exec_refines [OF NewSessionScheduler_inv _ assms]
  by (simp add: clean_tok_def receipt_of_def NewSessionScheduler_def)

definition sample_ops :: "nat sched_op list" where
  "sample_ops = [Op_Schedule 0 ''a'' 1 30, Op_Schedule 1 ''b'' 2 10, Op_Schedule 2 ''a'' 3 10,
     Op_Run 11 11, Op_Run 12 12, Op_Cancel ''a'']"

definition blank_job :: "nat session_job" where
  "blank_job = \<lparr>job_token = [], job_claims = 0, job_runAt = 0, job_canceled = False, job_index = 0\<rparr>"

theorem scheduler_refines_receipt_witness:
  "map2 (out_for ''a'') sample_ops (fst (sched_exec sample_ops (NewSessionScheduler (\<lambda>_. blank_job)))) =
   [Out_Scheduled, Out_Scheduled, Out_Scheduled, Out_Submitted [], Out_Submitted [(''a'', 3)],
    Out_Cancelled False]"
proof -
  have g: "guarded ''a'' sample_ops (NewSessionScheduler (\<lambda>_. blank_job))" by code_simp
  have "receipt_exec ''a'' sample_ops None =
    ([Out_Scheduled, Out_Scheduled, Out_Scheduled, Out_Submitted [], Out_Submitted [(''a'', 3)],
      Out_Cancelled False], None)" by code_simp
  then show ?thesis
    using scheduler_refines_receipt [OF g prod.collapse [symmetric]] by (metis prod.inject)
qed

text \<open>
  The condition is needed. A receipt cancelled before its time stays queued, and when its
  turn comes the loop deletes the token from the map even if the token was scheduled again
  since: the second receipt can then no longer be cancelled, the cancel call answers that there
  is none, and the receipt is submitted all the same.
\<close>

theorem stale_job_defeats_cancel:
  "fst (sched_exec [Op_Schedule 0 t c 10, Op_Cancel t, Op_Schedule 2 t c' 20, Op_Run 15 15,
     Op_Cancel t, Op_Run 40 40] (NewSessionScheduler m)) =
   [Out_Scheduled, Out_Cancelled True, Out_Scheduled, Out_Submitted [], Out_Cancelled False,
    Out_Submitted [(t, c')]]"
  by (simp add: NewSessionScheduler_def ScheduleSessionReceipt_def CancelSessionReceipt_def run_turn_def
      process_expired.simps heap_Push_def heap_Pop_def heap_up.simps heap_down_def heap_down_loop.simps
      heap_child_def jobs_defs set_index_def swap_def Let_def)

end
