(* ===== verification/Go_Strings.thy ===== *)
theory Go_Strings
  imports Go_Prelude
begin

text \<open>
  The functions of Go's \<open>strings\<close> and \<open>fmt\<close> packages that the service calls, on byte
  strings (\<open>string\<close>, one \<open>char\<close> per byte). \<open>to_lower\<close> and \<open>trim_space\<close> are Go's on
  ASCII, which is what the service feeds them (hex addresses, hashes, event names); bytes
  above 127 are left alone. The collection \<open>string_simps\<close> holds the rewriting rules the
  component proofs use.
\<close>

named_theorems string_simps \<open>prefixes, splits, joins and case folding of strings\<close>

section \<open>Prefixes and suffixes\<close>

definition has_prefix :: "string \<Rightarrow> string \<Rightarrow> bool" where
  "has_prefix s p = (take (length p) s = p)"

definition trim_prefix :: "string \<Rightarrow> string \<Rightarrow> string" where
  "trim_prefix s p = (if has_prefix s p then drop (length p) s else s)"

definition has_suffix :: "string \<Rightarrow> string \<Rightarrow> bool" where
  "has_suffix s p = (length p \<le> length s \<and> drop (length s - length p) s = p)"

definition trim_suffix :: "string \<Rightarrow> string \<Rightarrow> string" where
  "trim_suffix s p = (if has_suffix s p then take (length s - length p) s else s)"

lemma has_prefix_append [string_simps]: "has_prefix (p @ s) p"
  by (simp add: has_prefix_def)

lemma has_prefix_iff: "has_prefix s p = (\<exists>r. s = p @ r)"
  unfolding has_prefix_def by (metis append_eq_conv_conj append_take_drop_id)

lemma trim_prefix_append [string_simps]: "trim_prefix (p @ s) p = s"
  by (simp add: trim_prefix_def has_prefix_append)

lemma trim_prefix_absent [string_simps]: "\<not> has_prefix s p \<Longrightarrow> trim_prefix s p = s"
  by (simp add: trim_prefix_def)

lemma has_suffix_iff: "has_suffix s p = (\<exists>r. s = r @ p)"
proof
  assume "has_suffix s p"
  then have "s = take (length s - length p) s @ p"
    by (metis append_take_drop_id has_suffix_def)
  then show "\<exists>r. s = r @ p" ..
qed (auto simp: has_suffix_def)

lemma has_suffix_append [string_simps]: "has_suffix (s @ p) p"
  by (auto simp: has_suffix_iff)

lemma trim_suffix_append [string_simps]: "trim_suffix (s @ p) p = s"
  by (simp add: trim_suffix_def has_suffix_append)

section \<open>Searching and splitting\<close>

fun index_of :: "string \<Rightarrow> string \<Rightarrow> nat option" where
  "index_of [] sub = (if sub = [] then Some 0 else None)"
| "index_of (c # cs) sub =
     (if has_prefix (c # cs) sub then Some 0 else map_option Suc (index_of cs sub))"

definition contains :: "string \<Rightarrow> string \<Rightarrow> bool" where
  "contains s sub = (index_of s sub \<noteq> None)"

lemma index_of_parts:
  "index_of s sub = Some i \<Longrightarrow> s = take i s @ sub @ drop (i + length sub) s"
proof (induction s arbitrary: i)
  case Nil
  then show ?case by (simp split: if_splits)
next
  case (Cons c cs)
  then show ?case
    by (auto simp: has_prefix_def split: if_splits) (metis append_take_drop_id)
qed

lemma index_of_bound: "index_of s sub = Some i \<Longrightarrow> i + length sub \<le> length s"
proof (induction s arbitrary: i)
  case (Cons c cs)
  then show ?case
    by (auto simp: has_prefix_iff split: if_splits) (metis le_add1 length_Cons length_append)
qed (simp split: if_splits)

text \<open>\<open>strings.Split\<close>; an empty separator would split into characters.\<close>

function split :: "string \<Rightarrow> string \<Rightarrow> string list" where
  "split s sep =
     (if sep = [] then map (\<lambda>c. [c]) s
      else case index_of s sep of
             None \<Rightarrow> [s]
           | Some i \<Rightarrow> take i s # split (drop (i + length sep) s) sep)"
  by pat_completeness auto
termination
  by (relation "measure (\<lambda>(s, sep). length s)")
     (auto dest!: index_of_bound simp: neq_Nil_conv)

declare split.simps [simp del]

text \<open>\<open>strings.SplitN(s, sep, 2)\<close>: at most one cut.\<close>

definition split_n2 :: "string \<Rightarrow> string \<Rightarrow> string list" where
  "split_n2 s sep =
     (case index_of s sep of None \<Rightarrow> [s] | Some i \<Rightarrow> [take i s, drop (i + length sep) s])"

fun join :: "string list \<Rightarrow> string \<Rightarrow> string" where
  "join [] sep = []"
| "join [x] sep = x"
| "join (x # y # ys) sep = x @ sep @ join (y # ys) sep"

definition replace_all :: "string \<Rightarrow> string \<Rightarrow> string \<Rightarrow> string" where
  "replace_all s old new = join (split s old) new"

lemma split_Nil [simp]: "sep \<noteq> [] \<Longrightarrow> split [] sep = [[]]"
  by (simp add: split.simps)

lemma split_found [string_simps]:
  "sep \<noteq> [] \<Longrightarrow> index_of s sep = Some i \<Longrightarrow> split s sep = take i s # split (drop (i + length sep) s) sep"
  by (subst split.simps) simp

lemma split_not_found [string_simps]: "sep \<noteq> [] \<Longrightarrow> index_of s sep = None \<Longrightarrow> split s sep = [s]"
  by (subst split.simps) simp

lemma split_not_Nil [simp]: "sep \<noteq> [] \<Longrightarrow> split s sep \<noteq> []"
  by (cases "index_of s sep") (simp_all add: string_simps)

lemma join_Cons: "ys \<noteq> [] \<Longrightarrow> join (x # ys) sep = x @ sep @ join ys sep"
  by (cases ys) auto

text \<open>Joining what was split gives the string back.\<close>

lemma join_split: "sep \<noteq> [] \<Longrightarrow> join (split s sep) sep = s"
proof (induction s sep rule: split.induct)
  case (1 s sep)
  show ?case
  proof (cases "index_of s sep")
    case None
    with 1 show ?thesis by (simp add: string_simps)
  next
    case (Some i)
    with 1 show ?thesis
      using index_of_parts [OF Some] by (simp add: string_simps join_Cons)
  qed
qed

text \<open>Single-byte separators.\<close>

lemma has_prefix_single [string_simps]: "has_prefix (c # cs) [d] = (c = d)"
  by (simp add: has_prefix_def)

lemma has_prefix_single_set: "has_prefix s [c] \<Longrightarrow> c \<in> set s"
  by (auto simp: has_prefix_iff)

lemma has_prefix_Nil1 [string_simps]: "has_prefix [] p = (p = [])"
  by (auto simp: has_prefix_def)

lemma index_of_single:
  "index_of s [c] = (if c \<in> set s then Some (length (takeWhile (\<lambda>x. x \<noteq> c) s)) else None)"
  by (induction s) (auto simp: string_simps)

lemma contains_single [string_simps]: "contains s [c] = (c \<in> set s)"
  by (simp add: contains_def index_of_single)

lemma absent_takeWhile: "c \<notin> set a \<Longrightarrow> takeWhile (\<lambda>x. x \<noteq> c) a = a"
  by (auto simp: takeWhile_eq_all_conv)

lemma absent_filter: "c \<notin> set a \<Longrightarrow> filter (\<lambda>x. x \<noteq> c) a = a"
  by (induction a) auto

lemma index_of_append_single: "c \<notin> set a \<Longrightarrow> index_of (a @ c # b) [c] = Some (length a)"
  by (simp add: index_of_single takeWhile_tail absent_takeWhile)

lemma split_single_Cons [string_simps]: "c \<notin> set a \<Longrightarrow> split (a @ c # b) [c] = a # split b [c]"
  by (simp add: index_of_append_single split_found)

lemma split_single_absent [string_simps]: "c \<notin> set a \<Longrightarrow> split a [c] = [a]"
  by (simp add: split_not_found index_of_single)

lemma split_single_parts: "x \<in> set (split s [c]) \<Longrightarrow> c \<notin> set x"
proof (induction s "[c]" rule: split.induct)
  case (1 s)
  show ?case
  proof (cases "index_of s [c]")
    case None
    then have "c \<notin> set s" by (simp add: index_of_single split: if_splits)
    with None 1 show ?thesis by (simp add: string_simps)
  next
    case (Some i)
    then have "i = length (takeWhile (\<lambda>x. x \<noteq> c) s)" by (simp add: index_of_single split: if_splits)
    then have "c \<notin> set (take i s)"
      by (metis (mono_tags, lifting) set_takeWhileD takeWhile_eq_take)
    with Some 1 show ?thesis by (auto simp: string_simps)
  qed
qed

lemma split_join:
  "xs \<noteq> [] \<Longrightarrow> (\<And>x. x \<in> set xs \<Longrightarrow> c \<notin> set x) \<Longrightarrow> split (join xs [c]) [c] = xs"
proof (induction xs)
  case (Cons x xs)
  have x: "c \<notin> set x" using Cons.prems by simp
  show ?case
  proof (cases "xs = []")
    case True
    with x show ?thesis by (simp add: split_single_absent)
  next
    case False
    with Cons have "split (join xs [c]) [c] = xs" by simp
    with x False show ?thesis by (simp add: split_single_Cons join_Cons)
  qed
qed simp

lemma filter_join_single:
  "\<forall>x \<in> set xs. c \<notin> set x \<Longrightarrow> filter (\<lambda>x. x \<noteq> c) (join xs [c]) = join xs []"
proof (induction xs)
  case (Cons x xs)
  have x: "filter (\<lambda>x. x \<noteq> c) x = x" by (rule absent_filter) (use Cons.prems in simp)
  have "filter (\<lambda>x. x \<noteq> c) (join xs [c]) = join xs []" by (rule Cons.IH) (use Cons.prems in simp)
  with x show ?case by (cases "xs = []") (simp_all add: join_Cons)
qed simp

lemma replace_all_remove: "replace_all s [c] [] = filter (\<lambda>x. x \<noteq> c) s"
  using filter_join_single [of "split s [c]" c] split_single_parts [of _ s c]
  by (auto simp: replace_all_def join_split)

section \<open>Case folding and white space (ASCII)\<close>

definition lower_char :: "char \<Rightarrow> char" where
  "lower_char c = (let n = (of_char c :: nat) in if 65 \<le> n \<and> n \<le> 90 then char_of (n + 32) else c)"

definition upper_char :: "char \<Rightarrow> char" where
  "upper_char c = (let n = (of_char c :: nat) in if 97 \<le> n \<and> n \<le> 122 then char_of (n - 32) else c)"

definition to_lower :: "string \<Rightarrow> string" where
  "to_lower s = map lower_char s"

definition is_space :: "char \<Rightarrow> bool" where
  "is_space c = (let n = (of_char c :: nat) in n = 32 \<or> (9 \<le> n \<and> n \<le> 13))"

definition trim_space :: "string \<Rightarrow> string" where
  "trim_space s = rev (dropWhile is_space (rev (dropWhile is_space s)))"

lemma lower_char_idem [simp]: "lower_char (lower_char c) = lower_char c"
  by (auto simp: lower_char_def Let_def)

lemma lower_upper_char [simp]: "lower_char (upper_char c) = lower_char c"
  by (auto simp: lower_char_def upper_char_def Let_def)

lemma lower_char_eq_slash [simp]: "(lower_char c = CHR ''/'') = (c = CHR ''/'')"
proof
  assume l: "lower_char c = CHR ''/''"
  show "c = CHR ''/''"
  proof (rule ccontr)
    assume "c \<noteq> CHR ''/''"
    with l have n: "65 \<le> (of_char c :: nat)" "of_char c \<le> (90 :: nat)" "char_of (of_char c + 32 :: nat) = CHR ''/''"
      by (auto simp: lower_char_def Let_def split: if_splits)
    from n(3) have "(of_char c + 32) mod 256 = (of_char (CHR ''/'') :: nat)" by (metis of_char_of)
    with n(1,2) show False by simp
  qed
qed (simp add: lower_char_def)

lemma to_lower_Nil [simp]: "to_lower [] = []"
  by (simp add: to_lower_def)

lemma to_lower_Cons [simp]: "to_lower (c # s) = lower_char c # to_lower s"
  by (simp add: to_lower_def)

lemma to_lower_append [string_simps]: "to_lower (a @ b) = to_lower a @ to_lower b"
  by (simp add: to_lower_def)

lemma to_lower_idem [simp]: "to_lower (to_lower s) = to_lower s"
  by (simp add: to_lower_def)

lemma length_to_lower [simp]: "length (to_lower s) = length s"
  by (simp add: to_lower_def)

lemma slash_to_lower [simp]: "(CHR ''/'' \<in> set (to_lower s)) = (CHR ''/'' \<in> set s)"
  by (induction s) (auto simp: eq_commute [of "CHR ''/''"])

lemma trim_space_idem: "trim_space (trim_space s) = trim_space s"
proof -
  let ?d = "dropWhile is_space" and ?t = "rev (dropWhile is_space (rev (dropWhile is_space s)))"
  have "?d ?t = ?t"
  proof (cases ?t)
    case (Cons c cs)
    have "prefix ?t (?d s)"
      by (metis suffix_dropWhile suffix_to_prefix rev_rev_ident)
    then obtain r where "?d s = c # r" using Cons by (auto simp: prefix_def)
    then have "\<not> is_space c" by (metis dropWhile_eq_Cons_conv)
    with Cons show ?thesis by simp
  next
    case Nil
    then show ?thesis by (simp only: dropWhile.simps)
  qed
  then show ?thesis by (simp add: trim_space_def)
qed

end
