(* ===== verification/Config.thy ===== *)
theory Config
  imports Go_Strings
begin

text \<open>
  \<open>internal/config/config.go\<close>: the configuration as the file and the environment give it, and
  the variable of the package that keeps it. Viper is a library: what reading, unmarshalling into
  a given configuration and looking a key up answer are the fields of a record. The map of the
  chains is a list of pairs in the order a \<open>range\<close> over it yields.
\<close>

section \<open>The configuration\<close>

record server_config =
  sc_Port :: int
  sc_Host :: string

record grpc_server_config =
  gc_Port :: int
  gc_Host :: string

record database_config =
  dc_URL :: string

record redis_config =
  rc_Addr :: string
  rc_Password :: string
  rc_DB :: int

record chain_config =
  cc_RPCURL :: string
  cc_BlockTime :: int

record ethereum_config =
  ec_Chains :: "(int \<times> chain_config) list"

record mqtt_config =
  mq_BrokerURL :: string
  mq_ClientID :: string
  mq_Username :: string
  mq_Password :: string
  mq_QoS :: byte
  mq_CleanSession :: bool
  mq_PingInterval :: int
  mq_ConnectTimeout :: int

record asynq_config =
  ac_RedisAddr :: string
  ac_Concurrency :: int

record node_config =
  nc_PrivateKeyPath :: string
  nc_WhitelistPaths :: "string list"

record config =
  cf_Server :: server_config
  cf_GrpcServer :: grpc_server_config
  cf_Database :: database_config
  cf_Redis :: redis_config
  cf_Ethereum :: ethereum_config
  cf_MQTT :: mqtt_config
  cf_Asynq :: asynq_config
  cf_Node :: node_config
  cf_SecretKey :: string
  cf_SessionContract :: string
  cf_NodeContract :: string
  cf_ChainId :: int
  cf_LogLevel :: string
  cf_JwtSecretPath :: string
  cf_JwtSecret :: string

text \<open>\<open>&Config{}\<close>: every field has its zero value.\<close>

definition zero_config :: config where
  "zero_config = \<lparr>cf_Server = \<lparr>sc_Port = 0, sc_Host = []\<rparr>, cf_GrpcServer = \<lparr>gc_Port = 0, gc_Host = []\<rparr>,
     cf_Database = \<lparr>dc_URL = []\<rparr>, cf_Redis = \<lparr>rc_Addr = [], rc_Password = [], rc_DB = 0\<rparr>,
     cf_Ethereum = \<lparr>ec_Chains = []\<rparr>,
     cf_MQTT = \<lparr>mq_BrokerURL = [], mq_ClientID = [], mq_Username = [], mq_Password = [], mq_QoS = 0,
       mq_CleanSession = False, mq_PingInterval = 0, mq_ConnectTimeout = 0\<rparr>,
     cf_Asynq = \<lparr>ac_RedisAddr = [], ac_Concurrency = 0\<rparr>,
     cf_Node = \<lparr>nc_PrivateKeyPath = [], nc_WhitelistPaths = []\<rparr>,
     cf_SecretKey = [], cf_SessionContract = [], cf_NodeContract = [], cf_ChainId = 0, cf_LogLevel = [],
     cf_JwtSecretPath = [], cf_JwtSecret = []\<rparr>"

section \<open>Loading\<close>

record viper =
  vp_ReadInConfig :: "string option"
  vp_Unmarshal :: "config \<Rightarrow> string option \<times> config"
  vp_GetString :: "string \<Rightarrow> string"

text \<open>
  \<open>Load\<close>, with the variable \<open>cfg\<close> of the package as state: it is replaced by an empty
  configuration before unmarshalling, and so keeps what was filled in when that fails.
\<close>

definition config_Load :: "viper \<Rightarrow> config option \<Rightarrow> config res \<times> config option" where
  "config_Load V cfg =
     (case vp_ReadInConfig V of
        Some err \<Rightarrow> (Inl (''error reading config file: '' @ err), cfg)
      | None \<Rightarrow>
          (case vp_Unmarshal V zero_config of
             (Some err, c) \<Rightarrow> (Inl (''error unmarshaling config: '' @ err), Some c)
           | (None, c) \<Rightarrow>
               let c' = c\<lparr>cf_SecretKey := vp_GetString V ''SECRET_KEY''\<rparr>
               in (Inr c', Some c')))"

definition config_Get :: "config option \<Rightarrow> config option" where
  "config_Get cfg = cfg"

lemma config_Load_Inr:
  "config_Load V cfg = (Inr c, cfg') \<longleftrightarrow>
   vp_ReadInConfig V = None \<and> (\<exists>c0. vp_Unmarshal V zero_config = (None, c0) \<and>
     c = c0\<lparr>cf_SecretKey := vp_GetString V ''SECRET_KEY''\<rparr>) \<and> cfg' = Some c"
  by (auto simp: config_Load_def Let_def split: option.splits prod.splits)

lemma config_Load_ok: "config_Load V cfg = (Inr c, cfg') \<Longrightarrow> config_Get cfg' = Some c"
  by (simp add: config_Load_Inr config_Get_def)

text \<open>
  A failed \<open>Load\<close> either left the earlier configuration or none that was loaded: \<open>Get\<close> then
  answers whatever the unmarshalling had filled in, without the secret key.
\<close>

lemma config_Load_failed:
  assumes "config_Load V cfg = (Inl err, cfg')"
  shows "config_Get cfg' = cfg \<or> config_Get cfg' = Some (snd (vp_Unmarshal V zero_config))"
  using assms by (auto simp: config_Load_def config_Get_def Let_def split: option.splits prod.splits)

end
