(* ===== verification/Go_Strconv.thy ===== *)
theory Go_Strconv
  imports Go_Strings
begin

text \<open>
  Go's \<open>strconv\<close> and \<open>encoding/hex\<close>, as far as the service uses them: printing in a base
  (\<open>AppendUint\<close>, the verbs \<open>%d\<close> and \<open>%x\<close>, \<open>big.Int.Text\<close>), \<open>ParseUint\<close>,
  \<open>ParseInt\<close> and \<open>Atoi\<close> with their two errors, and the hex codec of byte slices.
  \<open>parse_uint\<close> is the library's loop on 64-bit words with its cut-off test;
  \<open>parse_nat\<close> is the same parse on natural numbers, and \<open>parse_uint_refines\<close> says they
  agree. A number returned beside an error is not modelled, except for the hex decoder, whose
  partial output one caller keeps.
\<close>

named_theorems digit_facts \<open>digits printed and read back\<close>

section \<open>Printing\<close>

definition digit_char :: "nat \<Rightarrow> char" where
  "digit_char d = char_of (if d < 10 then 48 + d else 87 + d)"

fun digits :: "nat \<Rightarrow> nat \<Rightarrow> string" where
  "digits b n = (if b < 2 \<or> n < b then [digit_char n]
                 else digits b (n div b) @ [digit_char (n mod b)])"

declare digits.simps [simp del]

text \<open>The verb \<open>%d\<close>.\<close>

definition fmt_d :: "int \<Rightarrow> string" where
  "fmt_d i = (if i < 0 then CHR ''-'' # digits 10 (nat (- i)) else digits 10 (nat i))"

section \<open>Reading\<close>

datatype num_error = ErrSyntax | ErrRange

definition digit_val :: "char \<Rightarrow> nat option" where
  "digit_val c = (let n = of_char c :: nat in
     if 48 \<le> n \<and> n \<le> 57 then Some (n - 48)
     else if 97 \<le> n \<and> n \<le> 122 then Some (n - 87)
     else if 65 \<le> n \<and> n \<le> 90 then Some (n - 55)
     else None)"

text \<open>The loop of \<open>ParseUint(s, base, 64)\<close>, on words.\<close>

fun parse_uint_loop :: "u64 \<Rightarrow> u64 \<Rightarrow> string \<Rightarrow> num_error + u64" where
  "parse_uint_loop base n [] = Inr n"
| "parse_uint_loop base n (c # cs) =
     (case digit_val c of
        None \<Rightarrow> Inl ErrSyntax
      | Some d \<Rightarrow>
          if unat base \<le> d then Inl ErrSyntax
          else if (- 1) div base + 1 \<le> n then Inl ErrRange
          else let n' = n * base; n1 = n' + of_nat d in
            if n1 < n' then Inl ErrRange else parse_uint_loop base n1 cs)"

definition parse_uint :: "u64 \<Rightarrow> string \<Rightarrow> num_error + u64" where
  "parse_uint base s = (if s = [] then Inl ErrSyntax else parse_uint_loop base 0 s)"

text \<open>\<open>ParseInt(s, 10, 64)\<close>, and \<open>Atoi\<close>, which agrees with it where \<open>int\<close> has 64 bits.\<close>

definition parse_int :: "string \<Rightarrow> num_error + int" where
  "parse_int s =
     (let neg = has_prefix s ''-'';
          body = (if neg \<or> has_prefix s ''+'' then tl s else s) in
      bind_res (parse_uint 10 body)
        (\<lambda>un. if \<not> neg \<and> 2 ^ 63 \<le> unat un then Inl ErrRange
              else if neg \<and> 2 ^ 63 < unat un then Inl ErrRange
              else Inr (if neg then - int (unat un) else int (unat un))))"

definition atoi :: "string \<Rightarrow> num_error + int" where
  "atoi s = parse_int s"

text \<open>The reference: the same parse on natural numbers.\<close>

fun parse_nat :: "nat \<Rightarrow> nat \<Rightarrow> string \<Rightarrow> num_error + nat" where
  "parse_nat b n [] = Inr n"
| "parse_nat b n (c # cs) =
     (case digit_val c of
        None \<Rightarrow> Inl ErrSyntax
      | Some d \<Rightarrow> if b \<le> d then Inl ErrSyntax
          else if 2 ^ 64 \<le> n * b + d then Inl ErrRange
          else parse_nat b (n * b + d) cs)"

lemma cutoff_iff:
  fixes n base :: u64
  assumes "1 < unat base"
  shows "((- 1) div base + 1 \<le> n) = (2 ^ 64 \<le> unat n * unat base)"
proof -
  let ?b = "unat base"
  have m: "unat (- 1 :: u64) = 18446744073709551615"
    by (simp add: unsigned_minus_1_eq_mask mask_eq_exp_minus_1)
  have q: "unat ((- 1) div base) = 18446744073709551615 div ?b"
    by (simp add: unat_div m)
  have le: "18446744073709551615 div ?b < 18446744073709551615"
    using assms by (simp add: div_less_dividend)
  have "unat ((- 1) div base + 1) = 18446744073709551615 div ?b + 1"
    using q le by (subst unat_add_u64) auto
  then have "((- 1) div base + 1 \<le> n) = (18446744073709551615 div ?b < unat n)"
    by (simp add: word_le_nat_alt Suc_le_eq)
  also have "\<dots> = (18446744073709551615 < unat n * ?b)"
    using assms by (simp add: div_less_iff_less_mult)
  also have "\<dots> = (18446744073709551616 \<le> unat n * ?b)" by arith
  finally show ?thesis by simp
qed

lemma parse_uint_loop_refines:
  assumes b: "1 < unat base" "unat base \<le> 36"
  shows "map_res unat (parse_uint_loop base n cs) = parse_nat (unat base) (unat n) cs"
proof (induction cs arbitrary: n)
  case (Cons c cs)
  show ?case
  proof (cases "digit_val c")
    case (Some d)
    show ?thesis
    proof (cases "unat base \<le> d \<or> 2 ^ 64 \<le> unat n * unat base")
      case True
      with Some show ?thesis using cutoff_iff [OF b(1), of n] by (auto simp: trans_le_add1)
    next
      case False
      then have d: "d < unat base" and nb: "unat n * unat base < 18446744073709551616" by auto
      have m: "unat (n * base) = unat n * unat base" using nb by (rule unat_mult_u64)
      have ud: "unat (of_nat d :: u64) = d" using d b by (subst unat_of_nat_u64) auto
      have lt: "(n * base + of_nat d < n * base) = (2 ^ 64 \<le> unat n * unat base + d)"
      proof (cases "unat n * unat base + d < 18446744073709551616")
        case True
        then have "unat (n * base + of_nat d) = unat n * unat base + d"
          using m ud by (subst unat_add_u64) auto
        with True m show ?thesis by (simp add: word_less_nat_alt)
      next
        case False
        have "unat (n * base + of_nat d) = (unat n * unat base + d) mod 18446744073709551616"
          using m ud by (simp add: unat_word_ariths)
        also have "\<dots> = unat n * unat base + d - 18446744073709551616"
          using False nb d b by (intro mod_nat_eqI) auto
        finally show ?thesis using False m d b by (simp add: word_less_nat_alt)
      qed
      show ?thesis
      proof (cases "2 ^ 64 \<le> unat n * unat base + d")
        case True
        with Some False d show ?thesis using cutoff_iff [OF b(1), of n] lt by (simp add: Let_def)
      next
        case fits: False
        then have "unat (n * base + of_nat d) = unat n * unat base + d"
          using m ud by (subst unat_add_u64) auto
        with Some False fits d show ?thesis
          using cutoff_iff [OF b(1), of n] lt Cons.IH [of "n * base + of_nat d"] by (simp add: Let_def)
      qed
    qed
  qed simp
qed simp

text \<open>The word loop is the parse on natural numbers, errors included.\<close>

lemma parse_uint_refines:
  "1 < unat base \<Longrightarrow> unat base \<le> 36 \<Longrightarrow>
   map_res unat (parse_uint base s) = (if s = [] then Inl ErrSyntax else parse_nat (unat base) 0 s)"
  using parse_uint_loop_refines [of base 0 s] by (simp add: parse_uint_def)

section \<open>Digits read back\<close>

lemma of_char_digit_char [digit_facts]: "d < 36 \<Longrightarrow> of_char (digit_char d) = (if d < 10 then 48 + d else 87 + d)"
  by (simp add: digit_char_def)

lemma digit_val_char [digit_facts]: "d < 36 \<Longrightarrow> digit_val (digit_char d) = Some d"
  by (auto simp: digit_val_def of_char_digit_char Let_def)

lemma digits_not_Nil [simp]: "digits b n \<noteq> []"
  by (subst digits.simps) simp

lemma mod_base: "2 \<le> b \<Longrightarrow> b \<le> 36 \<Longrightarrow> n mod b < (36 :: nat)"
  by (rule less_le_trans [OF mod_less_divisor]) auto

lemma parse_nat_append:
  "parse_nat b n (xs @ ys) = bind_res (parse_nat b n xs) (\<lambda>m. parse_nat b m ys)"
  by (induction xs arbitrary: n) (auto split: option.splits)

lemma parse_nat_digits:
  assumes "2 \<le> b" "b \<le> 36" "n < 2 ^ 64"
  shows "parse_nat b 0 (digits b n) = Inr n"
  using assms
proof (induction b n rule: digits.induct)
  case (1 b n)
  show ?case
  proof (cases "n < b")
    case True
    with 1 show ?thesis by (subst digits.simps) (simp add: digit_facts)
  next
    case False
    have "n div b < 2 ^ 64" using "1.prems"(3) by (rule le_less_trans [OF div_le_dividend])
    with False 1 have "parse_nat b 0 (digits b (n div b)) = Inr (n div b)" by simp
    moreover have "\<not> b \<le> n mod b" "n mod b < 36" "n div b * b + n mod b = n"
      using "1.prems" mod_base [of b n] by (auto simp: not_le)
    ultimately show ?thesis
      using False 1 by (subst digits.simps) (simp add: parse_nat_append digit_facts)
  qed
qed

lemma parse_uint_digits:
  assumes "unat base = b" "2 \<le> b" "b \<le> 36"
  shows "parse_uint base (digits b (unat w)) = Inr w"
proof -
  have "map_res unat (parse_uint base (digits b (unat w))) = Inr (unat w)"
    using assms parse_nat_digits [of b "unat w"] unat_u64_bound [of w]
    by (subst parse_uint_refines) auto
  then show ?thesis by (auto simp: result_simps word_unat_eq_iff)
qed

text \<open>Printed digits are digits or lower-case letters, and printing is injective.\<close>

lemma digits_chars: "2 \<le> b \<Longrightarrow> b \<le> 36 \<Longrightarrow> c \<in> set (digits b n) \<Longrightarrow> \<exists>d < b. c = digit_char d"
proof (induction b n rule: digits.induct)
  case (1 b n)
  then show ?case
    by (cases "n < b") (auto simp: digits.simps [of b n] intro: exI [of _ "n mod b"])
qed

lemma digit_char_neq [digit_facts]:
  "d < 36 \<Longrightarrow> digit_char d \<noteq> CHR ''/''" "d < 36 \<Longrightarrow> digit_char d \<noteq> CHR ''-''" "d < 36 \<Longrightarrow> digit_char d \<noteq> CHR ''+''"
  using of_char_digit_char [of d] by (auto split: if_splits dest: arg_cong [of _ _ "of_char :: char \<Rightarrow> nat"])

lemma lower_digit_char [simp]: "d < 36 \<Longrightarrow> lower_char (digit_char d) = digit_char d"
  by (auto simp: lower_char_def of_char_digit_char Let_def)

lemma lower_digits: "2 \<le> b \<Longrightarrow> b \<le> 36 \<Longrightarrow> to_lower (digits b n) = digits b n"
  unfolding to_lower_def by (rule map_idI) (auto dest!: digits_chars)

lemma slash_digits: "2 \<le> b \<Longrightarrow> b \<le> 36 \<Longrightarrow> CHR ''/'' \<notin> set (digits b n)"
  using digits_chars [of b "CHR ''/''" n] digit_char_neq(1) by (metis less_le_trans)

lemma minus_digits: "2 \<le> b \<Longrightarrow> b \<le> 36 \<Longrightarrow> CHR ''-'' \<notin> set (digits b n)"
  using digits_chars [of b "CHR ''-''" n] digit_char_neq(2) by (metis less_le_trans)

lemma plus_digits: "2 \<le> b \<Longrightarrow> b \<le> 36 \<Longrightarrow> CHR ''+'' \<notin> set (digits b n)"
  using digits_chars [of b "CHR ''+''" n] digit_char_neq(3) by (metis less_le_trans)

fun digits_nat :: "nat \<Rightarrow> nat \<Rightarrow> string \<Rightarrow> nat" where
  "digits_nat b n [] = n"
| "digits_nat b n (c # cs) = digits_nat b (n * b + the (digit_val c)) cs"

lemma digits_nat_append: "digits_nat b n (xs @ ys) = digits_nat b (digits_nat b n xs) ys"
  by (induction xs arbitrary: n) auto

lemma digits_nat_digits: "2 \<le> b \<Longrightarrow> b \<le> 36 \<Longrightarrow> digits_nat b 0 (digits b n) = n"
proof (induction b n rule: digits.induct)
  case (1 b n)
  show ?case
  proof (cases "n < b")
    case True
    with 1 show ?thesis by (subst digits.simps) (simp add: digit_facts)
  next
    case False
    have "n mod b < 36" using "1.prems" mod_base by simp
    with False 1 show ?thesis
      by (subst digits.simps) (simp add: digits_nat_append digit_facts)
  qed
qed

lemma digits_inject: "2 \<le> b \<Longrightarrow> b \<le> 36 \<Longrightarrow> (digits b m = digits b n) = (m = n)"
  by (metis digits_nat_digits)

lemma fmt_d_inject: "(fmt_d i = fmt_d j) = (i = j)"
proof
  have neg: "fmt_d a \<noteq> fmt_d b" if "a < 0" "\<not> b < 0" for a b :: int
  proof
    assume "fmt_d a = fmt_d b"
    with that have "digits 10 (nat b) = CHR ''-'' # digits 10 (nat (- a))" by (simp add: fmt_d_def)
    then have "CHR ''-'' \<in> set (digits 10 (nat b))" by simp
    then show False by (simp add: minus_digits)
  qed
  assume "fmt_d i = fmt_d j"
  then show "i = j"
    using neg [of i j] neg [of j i] by (auto simp: fmt_d_def digits_inject split: if_splits)
qed simp

lemma slash_fmt_d: "CHR ''/'' \<notin> set (fmt_d i)"
  by (auto simp: fmt_d_def slash_digits)

lemma lower_fmt_d: "to_lower (fmt_d i) = fmt_d i"
  by (auto simp: fmt_d_def lower_digits) (simp add: lower_char_def)

section \<open>The hex codec of byte slices\<close>

datatype hex_error = InvalidByte char | ErrLength

definition nibble :: "char \<Rightarrow> nat option" where
  "nibble c = (case digit_val c of Some d \<Rightarrow> if d < 16 then Some d else None | None \<Rightarrow> None)"

text \<open>
  \<open>hex.DecodeString\<close> returns the bytes decoded before the error beside the error.
\<close>

fun hex_decode :: "string \<Rightarrow> byte list \<times> hex_error option" where
  "hex_decode [] = ([], None)"
| "hex_decode [p] = ([], Some (if nibble p = None then InvalidByte p else ErrLength))"
| "hex_decode (p # q # r) =
     (case nibble p of
        None \<Rightarrow> ([], Some (InvalidByte p))
      | Some a \<Rightarrow>
          (case nibble q of
             None \<Rightarrow> ([], Some (InvalidByte q))
           | Some b \<Rightarrow> (let (bs, e) = hex_decode r in (of_nat (16 * a + b) # bs, e))))"

definition hex_byte :: "byte \<Rightarrow> string" where
  "hex_byte w = [digit_char (unat w div 16), digit_char (unat w mod 16)]"

definition hex_encode :: "byte list \<Rightarrow> string" where
  "hex_encode bs = concat (map hex_byte bs)"

text \<open>The result as error or bytes, for the callers that drop partial output.\<close>

definition hex_decode_res :: "string \<Rightarrow> hex_error + byte list" where
  "hex_decode_res s = (case hex_decode s of (bs, None) \<Rightarrow> Inr bs | (bs, Some e) \<Rightarrow> Inl e)"

lemma unat_byte: "unat (w :: byte) < 256"
  using unsigned_less [of w] by simp

lemma nibble_digit_char [digit_facts]: "d < 16 \<Longrightarrow> nibble (digit_char d) = Some d"
  by (simp add: nibble_def digit_facts)

lemma nibble_upper [digit_facts]: "nibble (upper_char c) = nibble c"
proof -
  have "digit_val (upper_char c) = digit_val c"
    by (auto simp: digit_val_def upper_char_def Let_def)
  then show ?thesis by (simp add: nibble_def)
qed

lemma hex_byte_word: "of_nat (16 * (unat w div 16) + unat w mod 16) = (w :: byte)"
  by (simp add: mult.commute)

lemma hex_encode_Nil [simp]: "hex_encode [] = []"
  by (simp add: hex_encode_def)

lemma hex_encode_Cons [simp]:
  "hex_encode (w # bs) = digit_char (unat w div 16) # digit_char (unat w mod 16) # hex_encode bs"
  by (simp add: hex_encode_def hex_byte_def)

lemma length_hex_encode [simp]: "length (hex_encode bs) = 2 * length bs"
  by (induction bs) auto

text \<open>
  Decoding what was encoded gives the bytes back with each character in either case: \<open>up i\<close>
  says that the i-th character is turned to upper case.
\<close>

fun mixed_case :: "(nat \<Rightarrow> bool) \<Rightarrow> string \<Rightarrow> string" where
  "mixed_case up [] = []"
| "mixed_case up (c # s) = (if up 0 then upper_char c else c) # mixed_case (\<lambda>i. up (Suc i)) s"

lemma nibbles_of_byte: "unat (w :: byte) div 16 < 16" "unat w mod 16 < 16"
  using unat_byte [of w] by auto

lemma hex_decode_mixed: "hex_decode (mixed_case up (hex_encode bs)) = (bs, None)"
proof (induction bs arbitrary: up)
  case (Cons w bs)
  then show ?case
    using nibbles_of_byte [of w] hex_byte_word [of w] by (simp add: digit_facts)
qed simp

lemma mixed_case_none: "mixed_case (\<lambda>_. False) s = s"
  by (induction s) auto

lemma lower_mixed_case: "to_lower (mixed_case up s) = to_lower s"
  by (induction s arbitrary: up) auto

lemma length_mixed_case [simp]: "length (mixed_case up s) = length s"
  by (induction s arbitrary: up) auto

lemma hex_decode_encode [simp]: "hex_decode (hex_encode bs) = (bs, None)"
  using hex_decode_mixed [of "\<lambda>_. False" bs] unfolding mixed_case_none .

lemma hex_decode_res_encode [simp]: "hex_decode_res (hex_encode bs) = Inr bs"
  by (simp add: hex_decode_res_def)

lemma hex_decode_length: "hex_decode s = (bs, None) \<Longrightarrow> length s = 2 * length bs"
  by (induction s arbitrary: bs rule: hex_decode.induct) (auto split: option.splits prod.splits)

end
