(* ===== verification/Hex.thy ===== *)
theory Hex
  imports Go_Strconv
begin

text \<open>
  \<open>helper/hex/hex.go\<close> and \<open>types/encoding.go\<close>: the 0x-prefixed encodings of bytes, of
  \<open>uint64\<close> and of big integers. The definitions carry the Go package in their name
  (\<open>hex_EncodeUint64\<close> is \<open>hex.EncodeUint64\<close>, \<open>types_EncodeUint64\<close> is
  \<open>types.EncodeUint64\<close>). The locale \<open>codec\<close> is the contract an encoder and its decoder
  share; it is interpreted on every such pair of the two files.
\<close>

section \<open>What an encoder and its decoder promise\<close>

locale codec =
  fixes enc :: "'a \<Rightarrow> string"
    and dec :: "string \<Rightarrow> 'e + 'a"
    and valid :: "'a \<Rightarrow> bool"
  assumes dec_enc: "valid a \<Longrightarrow> dec (enc a) = Inr a"
begin

lemma enc_inject: "valid a \<Longrightarrow> valid b \<Longrightarrow> (enc a = enc b) = (a = b)"
  by (metis dec_enc sum.inject(2))

lemma rejected_not_encoded: "dec s = Inl e \<Longrightarrow> valid a \<Longrightarrow> s \<noteq> enc a"
  using dec_enc by auto

lemma dec_determines: "valid a \<Longrightarrow> dec (enc a) = Inr b \<Longrightarrow> b = a"
  by (simp add: dec_enc)

end

section \<open>Package hex\<close>

definition hex_EncodeToHex :: "byte list \<Rightarrow> string" where
  "hex_EncodeToHex str = ''0x'' @ hex_encode str"

definition hex_EncodeToString :: "byte list \<Rightarrow> string" where
  "hex_EncodeToString str = hex_encode str"

definition hex_DecodeString :: "string \<Rightarrow> byte list \<times> hex_error option" where
  "hex_DecodeString str = hex_decode str"

definition hex_DecodeHex :: "string \<Rightarrow> byte list \<times> hex_error option" where
  "hex_DecodeHex str = hex_decode (trim_prefix str ''0x'')"

text \<open>\<open>MustDecodeHex\<close> panics on an error: \<open>Inl\<close> is the panic.\<close>

definition hex_MustDecodeHex :: "string \<Rightarrow> hex_error + byte list" where
  "hex_MustDecodeHex str =
     (case hex_DecodeHex str of (buf, Some err) \<Rightarrow> Inl err | (buf, None) \<Rightarrow> Inr buf)"

definition hex_EncodeUint64 :: "u64 \<Rightarrow> string" where
  "hex_EncodeUint64 i = ''0x'' @ digits 16 (unat i)"

definition hex_DecodeUint64 :: "string \<Rightarrow> num_error + u64" where
  "hex_DecodeUint64 hexStr = (let cleaned = trim_prefix hexStr ''0x'' in parse_uint 16 cleaned)"

definition BadNibble :: u64 where
  "BadNibble = not 0"

definition hex_DecodeNibble :: "byte \<Rightarrow> u64" where
  "hex_DecodeNibble b =
     (if 48 \<le> b \<and> b \<le> 57 then ucast (b - 48)
      else if 65 \<le> b \<and> b \<le> 70 then ucast (b - 65 + 10)
      else if 97 \<le> b \<and> b \<le> 102 then ucast (b - 97 + 10)
      else BadNibble)"

text \<open>\<open>big.Int.SetString\<close>: an optional sign, then at least one digit of the base and nothing else.\<close>

definition is_digit :: "nat \<Rightarrow> char \<Rightarrow> bool" where
  "is_digit b c = (case digit_val c of Some d \<Rightarrow> d < b | None \<Rightarrow> False)"

definition big_SetString :: "nat \<Rightarrow> string \<Rightarrow> int option" where
  "big_SetString b s =
     (let neg = has_prefix s ''-'';
          body = (if neg \<or> has_prefix s ''+'' then tl s else s) in
      if body \<noteq> [] \<and> list_all (is_digit b) body
      then Some (if neg then - int (digits_nat b 0 body) else int (digits_nat b 0 body))
      else None)"

text \<open>The verb \<open>%#x\<close> puts the prefix after the sign; \<open>big.Int.Text\<close> prints the sign alone.\<close>

definition big_Text :: "nat \<Rightarrow> int \<Rightarrow> string" where
  "big_Text b i = (if i < 0 then CHR ''-'' # digits b (nat (- i)) else digits b (nat i))"

definition fmt_alt_x :: "int \<Rightarrow> string" where
  "fmt_alt_x i = (if i < 0 then ''-0x'' @ digits 16 (nat (- i)) else ''0x'' @ digits 16 (nat i))"

definition hex_EncodeBig :: "int \<Rightarrow> string" where
  "hex_EncodeBig bigint = (if bigint = 0 then ''0x0'' else fmt_alt_x bigint)"

definition hex_DecodeHexToBig :: "string \<Rightarrow> unit + int" where
  "hex_DecodeHexToBig hexNum =
     (let cleaned = trim_prefix hexNum ''0x'' in
      case big_SetString 16 cleaned of None \<Rightarrow> Inl () | Some value \<Rightarrow> Inr value)"

text \<open>\<open>input[2:]\<close> panics on fewer than two bytes.\<close>

definition hex_DropHexPrefix :: "'a list \<Rightarrow> unit + 'a list" where
  "hex_DropHexPrefix input = (if length input < 2 then Inl () else Inr (drop 2 input))"

section \<open>Package types: encoding.go\<close>

text \<open>A \<open>*string\<close> argument is an option.\<close>

definition types_ParseUint64orHex :: "string option \<Rightarrow> num_error + u64" where
  "types_ParseUint64orHex val =
     (case val of
        None \<Rightarrow> Inr 0
      | Some str \<Rightarrow>
          if has_prefix str ''0x'' then parse_uint 16 (drop 2 str) else parse_uint 10 str)"

definition types_ParseUint256orHex :: "string option \<Rightarrow> unit + int option" where
  "types_ParseUint256orHex val =
     (case val of
        None \<Rightarrow> Inr None
      | Some str \<Rightarrow>
          (let (str', base) = (if has_prefix str ''0x'' then (drop 2 str, 16) else (str, 10)) in
           case big_SetString base str' of None \<Rightarrow> Inl () | Some b \<Rightarrow> Inr (Some b)))"

definition types_ParseInt64orHex :: "string option \<Rightarrow> num_error + int" where
  "types_ParseInt64orHex val = map_res int64_of (types_ParseUint64orHex val)"

definition types_ParseBytes :: "string option \<Rightarrow> byte list \<times> hex_error option" where
  "types_ParseBytes val =
     (case val of
        None \<Rightarrow> ([], None)
      | Some str \<Rightarrow> hex_DecodeString (trim_prefix str ''0x''))"

definition types_EncodeUint64 :: "u64 \<Rightarrow> string" where
  "types_EncodeUint64 b = ''0x'' @ digits 16 (unat b)"

definition types_EncodeBytes :: "byte list \<Rightarrow> string" where
  "types_EncodeBytes b = ''0x'' @ hex_EncodeToString b"

definition types_EncodeBigInt :: "int \<Rightarrow> string" where
  "types_EncodeBigInt b = ''0x'' @ big_Text 16 b"

section \<open>Round trips\<close>

lemma digits_are_digits: "2 \<le> b \<Longrightarrow> b \<le> 36 \<Longrightarrow> list_all (is_digit b) (digits b n)"
  by (auto simp: list_all_iff is_digit_def digit_facts dest!: digits_chars)

lemma digits_no_sign:
  "2 \<le> b \<Longrightarrow> b \<le> 36 \<Longrightarrow> \<not> has_prefix (digits b n) ''-''"
  "2 \<le> b \<Longrightarrow> b \<le> 36 \<Longrightarrow> \<not> has_prefix (digits b n) ''+''"
  by (meson has_prefix_single_set minus_digits plus_digits)+

lemma big_SetString_digits:
  "2 \<le> b \<Longrightarrow> b \<le> 36 \<Longrightarrow> big_SetString b (digits b n) = Some (int n)"
  by (simp add: big_SetString_def digits_no_sign digits_are_digits digits_nat_digits)

lemma big_SetString_minus_digits:
  "2 \<le> b \<Longrightarrow> b \<le> 36 \<Longrightarrow> big_SetString b (CHR ''-'' # digits b n) = Some (- int n)"
  by (simp add: big_SetString_def string_simps digits_are_digits digits_nat_digits)

lemma big_SetString_Text: "2 \<le> b \<Longrightarrow> b \<le> 36 \<Longrightarrow> big_SetString b (big_Text b i) = Some i"
  by (simp add: big_Text_def big_SetString_digits big_SetString_minus_digits)

lemma trim_0x [string_simps]: "trim_prefix (CHR ''0'' # CHR ''x'' # s) ''0x'' = s"
  using trim_prefix_append [of "''0x''" s] by simp

lemma has_0x [string_simps]: "has_prefix (CHR ''0'' # CHR ''x'' # s) ''0x''"
  by (simp add: has_prefix_def)

lemma unat_base16: "unat (16 :: u64) = 16"
  by simp

lemma digits_0: "digits 16 0 = ''0''"
  by code_simp

interpretation bytes_codec: codec hex_EncodeToHex "\<lambda>s. hex_MustDecodeHex s" "\<lambda>_. True"
  by unfold_locales
    (simp add: hex_EncodeToHex_def hex_MustDecodeHex_def hex_DecodeHex_def string_simps)

interpretation hex_u64_codec: codec hex_EncodeUint64 hex_DecodeUint64 "\<lambda>_. True"
  by unfold_locales
    (simp add: hex_EncodeUint64_def hex_DecodeUint64_def string_simps parse_uint_digits)

interpretation types_u64_codec:
  codec types_EncodeUint64 "\<lambda>s. types_ParseUint64orHex (Some s)" "\<lambda>_. True"
  by unfold_locales
    (simp add: types_EncodeUint64_def types_ParseUint64orHex_def string_simps parse_uint_digits)

lemma EncodeBig_nonneg: "0 \<le> i \<Longrightarrow> hex_EncodeBig i = ''0x'' @ digits 16 (nat i)"
  by (simp add: hex_EncodeBig_def fmt_alt_x_def digits_0)

interpretation big_codec: codec hex_EncodeBig hex_DecodeHexToBig "\<lambda>i. 0 \<le> i"
  by unfold_locales
    (simp add: EncodeBig_nonneg hex_DecodeHexToBig_def string_simps big_SetString_digits)

interpretation types_big_codec:
  codec types_EncodeBigInt "\<lambda>s. map_res the (types_ParseUint256orHex (Some s))" "\<lambda>_. True"
  by unfold_locales
    (simp add: types_EncodeBigInt_def types_ParseUint256orHex_def string_simps big_SetString_Text)

interpretation types_bytes_codec:
  codec types_EncodeBytes "\<lambda>s. case types_ParseBytes (Some s) of (b, None) \<Rightarrow> Inr b | (b, Some e) \<Rightarrow> Inl e"
    "\<lambda>_. True"
  by unfold_locales
    (simp add: types_EncodeBytes_def types_ParseBytes_def hex_EncodeToString_def
      hex_DecodeString_def string_simps)

lemma EncodeBig_negative: "i < 0 \<Longrightarrow> hex_DecodeHexToBig (hex_EncodeBig i) = Inl ()"
  by (simp add: hex_EncodeBig_def hex_DecodeHexToBig_def fmt_alt_x_def has_prefix_def
      trim_prefix_def big_SetString_def is_digit_def digit_val_def)

text \<open>
  A \<open>uint64\<close> printed by \<open>hex.EncodeUint64\<close> or \<open>types.EncodeUint64\<close> is read back by
  every decoder of the two packages that takes the form: \<open>hex.DecodeUint64\<close> and
  \<open>types.ParseUint64orHex\<close>. The two encoders agree and no two numbers share a text.
\<close>

theorem uint64_hex_roundtrip:
  "hex_DecodeUint64 (hex_EncodeUint64 w) = Inr w
   \<and> types_ParseUint64orHex (Some (hex_EncodeUint64 w)) = Inr w
   \<and> hex_EncodeUint64 w = types_EncodeUint64 w
   \<and> (hex_EncodeUint64 w = hex_EncodeUint64 v \<longleftrightarrow> w = v)"
proof (intro conjI)
  show "hex_DecodeUint64 (hex_EncodeUint64 w) = Inr w" by (rule hex_u64_codec.dec_enc) simp
  show same: "hex_EncodeUint64 w = types_EncodeUint64 w"
    by (simp add: hex_EncodeUint64_def types_EncodeUint64_def)
  show "types_ParseUint64orHex (Some (hex_EncodeUint64 w)) = Inr w"
    unfolding same by (rule types_u64_codec.dec_enc) simp
  show "hex_EncodeUint64 w = hex_EncodeUint64 v \<longleftrightarrow> w = v" by (simp add: hex_u64_codec.enc_inject)
qed

text \<open>
  Hex text of bytes is read back by \<open>DecodeHex\<close> whatever the case of each digit, with
  and without the 0x prefix, and reads the same number of bytes; this is what lets a
  checksummed address be decoded.
\<close>

theorem decode_hex_any_case:
  "hex_DecodeHex (''0x'' @ mixed_case up (hex_EncodeToString bs)) = (bs, None)
   \<and> hex_DecodeString (mixed_case up (hex_EncodeToString bs)) = (bs, None)
   \<and> hex_MustDecodeHex (hex_EncodeToHex bs) = Inr bs
   \<and> (hex_EncodeToHex bs = hex_EncodeToHex cs \<longleftrightarrow> bs = cs)"
  by (simp add: hex_DecodeHex_def hex_DecodeString_def hex_EncodeToString_def string_simps
      hex_decode_mixed bytes_codec.dec_enc bytes_codec.enc_inject)

text \<open>
  \<open>EncodeBig\<close> keeps the sign (its comment says the sign is ignored): a negative number
  is printed with the sign before the prefix and \<open>DecodeHexToBig\<close> refuses it, so the pair
  round-trips exactly on the non-negative integers, whereas \<open>types.EncodeBigInt\<close> and
  \<open>types.ParseUint256orHex\<close> round-trip on all of them, negative ones included.
\<close>

theorem big_hex_roundtrip:
  "hex_DecodeHexToBig (hex_EncodeBig i) = (if 0 \<le> i then Inr i else Inl ())
   \<and> types_ParseUint256orHex (Some (types_EncodeBigInt i)) = Inr (Some i)"
  using big_codec.dec_enc [of i] EncodeBig_negative [of i]
  by (simp add: types_EncodeBigInt_def types_ParseUint256orHex_def string_simps big_SetString_Text)

end
