(* ===== verification/Types.thy ===== *)
theory Types
  imports Hex
begin

text \<open>
  \<open>types/types.go\<close> and \<open>helper/keccak\<close>: hashes and addresses as byte lists of fixed
  length, their text and database forms, the EIP-55 checksum, and the pool of hashers the
  checksum uses. The sha3 implementation behind the pool is not code of the repository: it is a
  record of operations, and \<open>sha3_ok\<close> states what the package documents of it.
\<close>

definition HashLength :: nat where "HashLength = 32"
definition AddressLength :: nat where "AddressLength = 20"

section \<open>The keccak pool\<close>

text \<open>A sha3 state \<open>'h\<close>: absorbing, squeezing one digest, resetting.\<close>

record 'h sha3_ops =
  h_new :: 'h
  h_write :: "'h \<Rightarrow> byte list \<Rightarrow> 'h"
  h_read :: "'h \<Rightarrow> byte list \<times> 'h"
  h_reset :: "'h \<Rightarrow> 'h"

text \<open>A reset hasher is as new, and what is squeezed after one write is 32 bytes.\<close>

definition sha3_ok :: "'h sha3_ops \<Rightarrow> bool" where
  "sha3_ok ops =
     ((\<forall>h. h_reset ops h = h_new ops) \<and>
      (\<forall>src. length (fst (h_read ops (h_write ops (h_new ops) src))) = 32))"

record 'h keccak =
  k_buf :: "byte list"
  k_tmp :: "byte list"
  k_hash :: 'h

definition newKeccak :: "'h sha3_ops \<Rightarrow> 'h keccak" where
  "newKeccak ops = \<lparr>k_buf = [], k_tmp = replicate 32 0, k_hash = h_new ops\<rparr>"

definition keccak_Write :: "'h sha3_ops \<Rightarrow> 'h keccak \<Rightarrow> byte list \<Rightarrow> 'h keccak" where
  "keccak_Write ops k b = k\<lparr>k_hash := h_write ops (k_hash k) b\<rparr>"

definition keccak_Reset :: "'h sha3_ops \<Rightarrow> 'h keccak \<Rightarrow> 'h keccak" where
  "keccak_Reset ops k = k\<lparr>k_buf := [], k_hash := h_reset ops (k_hash k)\<rparr>"

definition keccak_Read :: "'h sha3_ops \<Rightarrow> 'h keccak \<Rightarrow> byte list \<times> 'h keccak" where
  "keccak_Read ops k = (let (out, h) = h_read ops (k_hash k) in (out, k\<lparr>k_tmp := out, k_hash := h\<rparr>))"

definition keccak_Sum :: "'h sha3_ops \<Rightarrow> 'h keccak \<Rightarrow> byte list \<Rightarrow> byte list \<times> 'h keccak" where
  "keccak_Sum ops k dst =
     (let (out, h) = h_read ops (k_hash k) in (dst @ out, k\<lparr>k_tmp := out, k_hash := h\<rparr>))"

text \<open>\<open>WriteRlp\<close>: the marshalled value is the argument.\<close>

definition keccak_WriteRlp :: "'h sha3_ops \<Rightarrow> 'h keccak \<Rightarrow> byte list \<Rightarrow> byte list \<Rightarrow> byte list \<times> 'h keccak" where
  "keccak_WriteRlp ops k dst v = keccak_Sum ops (keccak_Write ops (k\<lparr>k_buf := v\<rparr>) v) dst"

text \<open>
  A pool is the list of idle hashers. \<open>sync.Pool\<close> hands out any of them or none; the choice
  is an argument (\<open>Some i\<close> the i-th idle hasher, \<open>None\<close> none, and then a new one is made).
\<close>

definition pool_Get :: "'h sha3_ops \<Rightarrow> nat option \<Rightarrow> 'h keccak list \<Rightarrow> 'h keccak \<times> 'h keccak list" where
  "pool_Get ops pick p =
     (case pick of
        Some i \<Rightarrow> if i < length p then (p ! i, take i p @ drop (Suc i) p) else (newKeccak ops, p)
      | None \<Rightarrow> (newKeccak ops, p))"

definition pool_Put :: "'h sha3_ops \<Rightarrow> 'h keccak list \<Rightarrow> 'h keccak \<Rightarrow> 'h keccak list" where
  "pool_Put ops p k = keccak_Reset ops k # p"

definition Keccak256 ::
  "'h sha3_ops \<Rightarrow> nat option \<Rightarrow> 'h keccak list \<Rightarrow> byte list \<Rightarrow> byte list \<Rightarrow> byte list \<times> 'h keccak list" where
  "Keccak256 ops pick p dst src =
     (let (h, p1) = pool_Get ops pick p;
          (dst', h') = keccak_Sum ops (keccak_Write ops h src) dst
      in (dst', pool_Put ops p1 h'))"

definition Keccak256Rlp ::
  "'h sha3_ops \<Rightarrow> nat option \<Rightarrow> 'h keccak list \<Rightarrow> byte list \<Rightarrow> byte list \<Rightarrow> byte list \<times> 'h keccak list" where
  "Keccak256Rlp ops pick p dst src =
     (let (h, p1) = pool_Get ops pick p; (dst', h') = keccak_WriteRlp ops h dst src
      in (dst', pool_Put ops p1 h'))"

text \<open>A run of calls, each with its choice and input, on the shared pool.\<close>

fun keccak_calls ::
  "'h sha3_ops \<Rightarrow> 'h keccak list \<Rightarrow> (nat option \<times> byte list) list \<Rightarrow> byte list list \<times> 'h keccak list" where
  "keccak_calls ops p [] = ([], p)"
| "keccak_calls ops p ((pick, src) # cs) =
     (let (out, p1) = Keccak256 ops pick p [] src; (outs, p2) = keccak_calls ops p1 cs
      in (out # outs, p2))"

text \<open>The pool's invariant: every idle hasher has been reset.\<close>

definition pool_inv :: "'h sha3_ops \<Rightarrow> 'h keccak list \<Rightarrow> bool" where
  "pool_inv ops p = (\<forall>k \<in> set p. k_hash k = h_new ops)"

definition digest :: "'h sha3_ops \<Rightarrow> byte list \<Rightarrow> byte list" where
  "digest ops src = fst (h_read ops (h_write ops (h_new ops) src))"

lemma pool_Get_fresh:
  "pool_inv ops p \<Longrightarrow> pool_Get ops pick p = (k, p') \<Longrightarrow> k_hash k = h_new ops \<and> pool_inv ops p'"
  by (auto simp: pool_inv_def pool_Get_def newKeccak_def split: option.splits if_splits)
     (meson in_set_takeD in_set_dropD)+

lemma pool_Put_inv: "sha3_ok ops \<Longrightarrow> pool_inv ops p \<Longrightarrow> pool_inv ops (pool_Put ops p k)"
  by (simp add: pool_inv_def pool_Put_def keccak_Reset_def sha3_ok_def)

lemma Keccak256_digest:
  assumes "sha3_ok ops" "pool_inv ops p" "Keccak256 ops pick p dst src = (out, p')"
  shows "out = dst @ digest ops src \<and> pool_inv ops p'"
  using assms pool_Get_fresh [OF assms(2)]
  by (auto simp: Keccak256_def keccak_Sum_def keccak_Write_def digest_def split: prod.splits
      intro!: pool_Put_inv)

lemma Keccak256Rlp_digest:
  assumes "sha3_ok ops" "pool_inv ops p" "Keccak256Rlp ops pick p dst src = (out, p')"
  shows "out = dst @ digest ops src \<and> pool_inv ops p'"
  using assms pool_Get_fresh [OF assms(2)]
  by (auto simp: Keccak256Rlp_def keccak_WriteRlp_def keccak_Sum_def keccak_Write_def digest_def
      split: prod.splits intro!: pool_Put_inv)

text \<open>
  Whatever hashers the pool hands out, each call of \<open>Keccak256\<close> in a run returns the
  digest of its own input alone: no call sees what an earlier one absorbed, because \<open>Put\<close>
  resets a hasher before it is idle.
\<close>

theorem keccak_calls_independent:
  assumes "sha3_ok ops"
  shows "fst (keccak_calls ops [] cs) = map (\<lambda>(pick, src). digest ops src) cs"
proof -
  have "pool_inv ops p \<Longrightarrow> fst (keccak_calls ops p cs) = map (\<lambda>(pick, src). digest ops src) cs" for p
  proof (induction cs arbitrary: p)
    case (Cons c cs)
    obtain pick src where c: "c = (pick, src)" by (cases c)
    obtain out p' where k: "Keccak256 ops pick p [] src = (out, p')" by fastforce
    from Keccak256_digest [OF assms Cons.prems k] have "out = digest ops src" "pool_inv ops p'" by auto
    with c k Cons.IH [of p'] show ?case by (simp add: case_prod_beta)
  qed simp
  then show ?thesis by (simp add: pool_inv_def)
qed

text \<open>A hasher of one's own: it absorbs bytes and squeezes 32 copies of their sum.\<close>

definition sum_sha3 :: "byte list sha3_ops" where
  "sum_sha3 = \<lparr>h_new = [], h_write = (\<lambda>h b. h @ b),
     h_read = (\<lambda>h. (replicate 32 (sum_list h), [])), h_reset = (\<lambda>h. [])\<rparr>"

lemma sum_sha3_ok: "sha3_ok sum_sha3"
  by (simp add: sha3_ok_def sum_sha3_def)

theorem keccak_calls_independent_witness:
  "fst (keccak_calls sum_sha3 [] [(None, [1, 2]), (Some 0, [5])]) =
   [replicate 32 3, replicate 32 5]"
  using keccak_calls_independent [OF sum_sha3_ok, of "[(None, [1, 2]), (Some 0, [5])]"]
  by (simp add: digest_def sum_sha3_def)

section \<open>Hashes and addresses\<close>

text \<open>\<open>copy(dst[k:], src)\<close> writes the shorter of the two lengths and leaves the rest.\<close>

definition copy_at :: "byte list \<Rightarrow> nat \<Rightarrow> byte list \<Rightarrow> byte list" where
  "copy_at dst k src =
     (let n = min (length dst - k) (length src) in take k dst @ take n src @ drop (k + n) dst)"

definition types_min :: "nat \<Rightarrow> nat \<Rightarrow> nat" where
  "types_min i j = (if i < j then i else j)"

definition BytesToHash :: "byte list \<Rightarrow> byte list" where
  "BytesToHash b =
     (let h = replicate HashLength 0; size = length b; m = types_min size HashLength
      in copy_at h (HashLength - m) (drop (length b - m) b))"

definition BytesToAddress :: "byte list \<Rightarrow> byte list" where
  "BytesToAddress b =
     (let a = replicate AddressLength 0; size = length b; m = types_min size AddressLength
      in copy_at a (AddressLength - m) (drop (length b - m) b))"

definition stringToBytes :: "string \<Rightarrow> byte list" where
  "stringToBytes str =
     (let str1 = trim_prefix str ''0x'';
          str2 = (if length str1 mod 2 = 1 then ''0'' @ str1 else str1)
      in fst (hex_DecodeString str2))"

definition StringToHash :: "string \<Rightarrow> byte list" where
  "StringToHash str = BytesToHash (stringToBytes str)"

definition StringToAddress :: "string \<Rightarrow> byte list" where
  "StringToAddress str = BytesToAddress (stringToBytes str)"

definition hash_String :: "byte list \<Rightarrow> string" where
  "hash_String h = hex_EncodeToHex h"

text \<open>A database value is bytes or something else; a failed assertion or decode is an error.\<close>

datatype db_value = DBytes string | DOther

datatype scan_error = InvalidTypeAssert | UnableToDecode hex_error

definition types_Scan :: "byte list \<Rightarrow> db_value \<Rightarrow> scan_error + byte list" where
  "types_Scan recv src =
     (case src of
        DOther \<Rightarrow> Inl InvalidTypeAssert
      | DBytes stringVal \<Rightarrow>
          (case hex_DecodeHex stringVal of
             (hh, Some e) \<Rightarrow> Inl (UnableToDecode e)
           | (hh, None) \<Rightarrow> Inr (copy_at recv 0 hh)))"

text \<open>\<open>Hash.Scan\<close> and \<open>Address.Scan\<close> have the same body.\<close>

definition hash_Scan :: "byte list \<Rightarrow> db_value \<Rightarrow> scan_error + byte list" where
  "hash_Scan h src = types_Scan h src"

definition address_Scan :: "byte list \<Rightarrow> db_value \<Rightarrow> scan_error + byte list" where
  "address_Scan a src = types_Scan a src"

definition hash_Value :: "byte list \<Rightarrow> string" where
  "hash_Value h = hash_String h"

definition hash_UnmarshalText :: "string \<Rightarrow> byte list" where
  "hash_UnmarshalText input = BytesToHash (stringToBytes input)"

definition address_UnmarshalText :: "string \<Rightarrow> unit + byte list" where
  "address_UnmarshalText input =
     (let buf = stringToBytes input in
      if length buf \<noteq> AddressLength then Inl () else Inr (BytesToAddress buf))"

definition hash_MarshalText :: "byte list \<Rightarrow> string" where
  "hash_MarshalText h = hash_String h"

text \<open>
  \<open>checksumEncode\<close>: a character is kept when it is a decimal digit or when the hash has a
  digit 0 to 7 at its place; an index past the hash's text would panic (\<open>None\<close>). \<open>K\<close> is the
  digest of the pool's \<open>Keccak256(nil, _)\<close>.
\<close>

definition ascii_bytes :: "string \<Rightarrow> byte list" where
  "ascii_bytes s = map (\<lambda>c. of_nat (of_char c)) s"

definition char_between :: "char \<Rightarrow> char \<Rightarrow> char \<Rightarrow> bool" where
  "char_between lo hi c = ((of_char lo :: nat) \<le> of_char c \<and> (of_char c :: nat) \<le> of_char hi)"

fun checksum_loop :: "string \<Rightarrow> string \<Rightarrow> string option" where
  "checksum_loop [] hashed = Some []"
| "checksum_loop (ch # cs) hashed =
     (if char_between (CHR ''0'') (CHR ''9'') ch
      then map_option ((#) ch) (checksum_loop cs (tl hashed))
      else case hashed of
             [] \<Rightarrow> None
           | x # xs \<Rightarrow>
               map_option ((#) (if char_between (CHR ''0'') (CHR ''7'') x then ch else upper_char ch))
                 (checksum_loop cs xs))"

definition checksumEncode :: "(byte list \<Rightarrow> byte list) \<Rightarrow> byte list \<Rightarrow> string option" where
  "checksumEncode K a =
     (let lowercaseHex = drop 2 (hex_EncodeToHex a);
          hashedAddress = drop 2 (hex_EncodeToHex (K (ascii_bytes lowercaseHex)))
      in map_option ((@) ''0x'') (checksum_loop lowercaseHex hashedAddress))"

definition address_String :: "(byte list \<Rightarrow> byte list) \<Rightarrow> byte list \<Rightarrow> string option" where
  "address_String K a = checksumEncode K a"

definition address_MarshalText :: "(byte list \<Rightarrow> byte list) \<Rightarrow> byte list \<Rightarrow> string option" where
  "address_MarshalText K a = address_String K a"

text \<open>What goes to the database, the bytes as a string, and the two constants.\<close>

definition address_Value :: "(byte list \<Rightarrow> byte list) \<Rightarrow> byte list \<Rightarrow> string option" where
  "address_Value K a = address_String K a"

definition AddressToString :: "byte list \<Rightarrow> string" where
  "AddressToString address = map (\<lambda>b. char_of (unat b)) address"

definition EmptyRootHash :: "byte list" where
  "EmptyRootHash = StringToHash ''0x56e81f171bcc55a6ff8345e692c0f86e5b48e01b996cadc001622fb5e363b421''"

definition EmptyUncleHash :: "byte list" where
  "EmptyUncleHash = StringToHash ''0x1dcc4de8dec75d7aab85b567b6ccd41ad312451b948a7413f0a142fd40d49347''"


section \<open>Fixed lengths and low-order bytes\<close>

fun be_val :: "byte list \<Rightarrow> nat" where
  "be_val [] = 0"
| "be_val (b # bs) = unat b * 256 ^ length bs + be_val bs"

lemma be_val_append: "be_val (xs @ ys) = be_val xs * 256 ^ length ys + be_val ys"
  by (induction xs) (auto simp: algebra_simps power_add)

lemma be_val_bound: "be_val bs < 256 ^ length bs"
proof (induction bs)
  case (Cons b bs)
  have "be_val (b # bs) < (unat b + 1) * 256 ^ length bs" using Cons by (simp add: algebra_simps)
  also have "\<dots> \<le> 256 * 256 ^ length bs" using unat_byte [of b] by (intro mult_right_mono) auto
  finally show ?case by simp
qed simp

lemma be_val_zeros [simp]: "be_val (replicate n 0) = 0"
  by (induction n) auto

lemma be_val_drop: "be_val (drop n bs) = be_val bs mod 256 ^ (length bs - n)"
  using be_val_append [of "take n bs" "drop n bs"] be_val_bound [of "drop n bs"] by simp

lemma BytesToHash_eq: "BytesToHash b = replicate (32 - length b) 0 @ drop (length b - 32) b"
  by (auto simp: BytesToHash_def copy_at_def types_min_def HashLength_def Let_def min_def)

lemma BytesToAddress_eq: "BytesToAddress b = replicate (20 - length b) 0 @ drop (length b - 20) b"
  by (auto simp: BytesToAddress_def copy_at_def types_min_def AddressLength_def Let_def min_def)

lemma be_val_low: "be_val (replicate (n - length b) 0 @ drop (length b - n) b) = be_val b mod 256 ^ n"
proof (cases "length b < n")
  case True
  then have "(256 :: nat) ^ length b \<le> 256 ^ n" by (intro power_increasing) auto
  with be_val_bound [of b] have "be_val b < 256 ^ n" by (rule less_le_trans)
  with True show ?thesis by (simp add: be_val_append mod_less)
qed (simp add: be_val_drop)

lemma copy_at_whole: "length src \<le> length dst \<Longrightarrow> copy_at dst 0 src = src @ drop (length src) dst"
  by (simp add: copy_at_def Let_def min_def)

lemma copy_at_more: "length dst \<le> length src \<Longrightarrow> copy_at dst 0 src = take (length dst) src"
  by (simp add: copy_at_def Let_def min_def)

text \<open>
  \<open>BytesToHash\<close> and \<open>BytesToAddress\<close> take bytes of any length: the result has 32 and 20
  bytes and keeps the low-order ones, that is, as big-endian numbers they reduce modulo
  256^32 and 256^20. A value of the right length is kept as it is.
\<close>

theorem bytes_to_fixed:
  "length (BytesToHash b) = 32 \<and> be_val (BytesToHash b) = be_val b mod 256 ^ 32
   \<and> length (BytesToAddress b) = 20 \<and> be_val (BytesToAddress b) = be_val b mod 256 ^ 20
   \<and> BytesToHash (BytesToHash b) = BytesToHash b
   \<and> BytesToAddress (BytesToAddress b) = BytesToAddress b"
  unfolding BytesToHash_eq BytesToAddress_eq be_val_low by (intro conjI) simp_all

lemma stringToBytes_any_case:
  "stringToBytes (''0x'' @ mixed_case up (hex_encode bs)) = bs"
  by (simp add: stringToBytes_def string_simps hex_DecodeString_def hex_decode_mixed)

lemma stringToBytes_hex [simp]: "stringToBytes (hex_EncodeToHex bs) = bs"
  using stringToBytes_any_case [of "\<lambda>_. False" bs]
  by (simp add: hex_EncodeToHex_def mixed_case_none)

lemma DecodeHex_any_case: "hex_DecodeHex (''0x'' @ mixed_case up (hex_encode bs)) = (bs, None)"
  by (simp add: hex_DecodeHex_def string_simps hex_decode_mixed)

text \<open>
  The two ways of reading a hash disagree on short values: \<open>Scan\<close> copies the decoded bytes
  to the front of the array and leaves zeros behind them, while \<open>UnmarshalText\<close> (as
  \<open>BytesToHash\<close>) puts the zeros in front. They agree on 32 bytes, and a hash written by
  \<open>Value\<close> or \<open>MarshalText\<close> is read back by both.
\<close>

theorem hash_scan_alignment:
  "hash_Scan (replicate 32 0) (DBytes (hex_EncodeToHex bs)) =
     Inr (take 32 bs @ replicate (32 - length bs) 0)
   \<and> hash_UnmarshalText (hex_EncodeToHex bs) = replicate (32 - length bs) 0 @ drop (length bs - 32) bs
   \<and> hash_Scan r (DBytes (hash_Value (BytesToHash bs))) = Inr (copy_at r 0 (BytesToHash bs))
   \<and> hash_UnmarshalText (hash_MarshalText (BytesToHash bs)) = BytesToHash bs"
proof -
  have dec: "hex_DecodeHex (hex_EncodeToHex cs) = (cs, None)" for cs
    using DecodeHex_any_case [of "\<lambda>_. False" cs] by (simp add: hex_EncodeToHex_def mixed_case_none)
  have "copy_at (replicate 32 0) 0 bs = take 32 bs @ replicate (32 - length bs) 0"
    by (cases "length bs \<le> 32") (simp_all add: copy_at_whole copy_at_more)
  moreover have "BytesToHash (BytesToHash bs) = BytesToHash bs" by (simp add: BytesToHash_eq)
  ultimately show ?thesis
    by (simp add: hash_Scan_def types_Scan_def dec hash_UnmarshalText_def
        hash_MarshalText_def hash_Value_def hash_String_def)
      (simp add: BytesToHash_eq)
qed

section \<open>The checksum\<close>

lemma checksum_loop_mixed:
  "length cs \<le> length hashed \<Longrightarrow> \<exists>up. checksum_loop cs hashed = Some (mixed_case up cs)"
proof (induction cs arbitrary: hashed)
  case (Cons c cs)
  then obtain x xs where h: "hashed = x # xs" by (cases hashed) auto
  with Cons obtain up where up: "checksum_loop cs xs = Some (mixed_case up cs)" by auto
  let ?b = "\<not> (char_between (CHR ''0'') (CHR ''9'') c \<or> char_between (CHR ''0'') (CHR ''7'') x)"
  have "checksum_loop (c # cs) hashed = Some (mixed_case (case_nat ?b up) (c # cs))"
    using h up by simp
  then show ?case by blast
qed (simp)

text \<open>
  C40. An address printed with its EIP-55 checksum (under any hash with 32-byte digests) is the
  address's hex text up to case, never panics, and is read back by every reader of the package:
  \<open>UnmarshalText\<close>, \<open>StringToAddress\<close> and \<open>Scan\<close>.
\<close>

theorem address_text_roundtrip:
  assumes "length a = 20" and "length r = 20" and "\<And>x. length (K x) = 32"
  shows "\<exists>t. address_MarshalText K a = Some t \<and> address_Value K a = Some t
     \<and> to_lower t = to_lower (hex_EncodeToHex a)
     \<and> address_UnmarshalText t = Inr a
     \<and> StringToAddress t = a
     \<and> address_Scan r (DBytes t) = Inr a"
proof -
  obtain up where up: "address_MarshalText K a = Some (''0x'' @ mixed_case up (hex_encode a))"
    using checksum_loop_mixed [of "hex_encode a" "hex_encode (K (ascii_bytes (hex_encode a)))"] assms
    by (auto simp: address_MarshalText_def address_String_def checksumEncode_def hex_EncodeToHex_def)
  have a: "BytesToAddress a = a" using assms by (simp add: BytesToAddress_eq)
  show ?thesis
    using assms up a stringToBytes_any_case [of up a] DecodeHex_any_case [of up a]
    by (intro exI [of _ "''0x'' @ mixed_case up (hex_encode a)"])
      (simp add: address_MarshalText_def address_Value_def address_UnmarshalText_def StringToAddress_def AddressLength_def address_Scan_def
        types_Scan_def copy_at_def hex_EncodeToHex_def lower_mixed_case string_simps)
qed

theorem address_text_roundtrip_witness:
  "length (replicate 20 (171 :: byte)) = 20
   \<and> (\<exists>t. address_MarshalText (\<lambda>_. replicate 32 128) (replicate 20 171) = Some t
     \<and> address_UnmarshalText t = Inr (replicate 20 171))"
  using address_text_roundtrip [of "replicate 20 171" "replicate 20 0" "\<lambda>_. replicate 32 128"]
  by auto

text \<open>The constants print as the texts they are made from.\<close>

lemma empty_hashes:
  "hash_String EmptyRootHash = ''0x56e81f171bcc55a6ff8345e692c0f86e5b48e01b996cadc001622fb5e363b421''"
  "hash_String EmptyUncleHash = ''0x1dcc4de8dec75d7aab85b567b6ccd41ad312451b948a7413f0a142fd40d49347''"
  by code_simp+

text \<open>A string of raw bytes has as many characters, and its bytes are the address.\<close>

lemma AddressToString_bytes: "ascii_bytes (AddressToString a) = a"
proof -
  have "unat b < 256" for b :: byte using unsigned_less [of b] by simp
  then have "unat b mod 256 = unat b" for b :: byte by simp
  then show ?thesis by (induction a) (simp_all add: AddressToString_def ascii_bytes_def of_char_of)
qed

end
