(* ===== verification/Eth_Utils.thy ===== *)
theory Eth_Utils
  imports Types
begin

text \<open>
  \<open>pkg/ethereum/utils.go\<close>: addresses and hashes from text, and the readable event signatures
  that clients register. The go-ethereum functions are the fields of a record, since their code
  is not part of the repository; \<open>geth_ok\<close> states what their documentation promises.
\<close>

section \<open>The functions of go-ethereum\<close>

record geth =
  g_HexToAddress :: "string \<Rightarrow> byte list"
  g_HexToHash :: "string \<Rightarrow> byte list"
  g_IsHexAddress :: "string \<Rightarrow> bool"
  g_AddressHex :: "byte list \<Rightarrow> string"
  g_HashHex :: "byte list \<Rightarrow> string"
  g_HashString :: "byte list \<Rightarrow> string"
  g_HashBig :: "byte list \<Rightarrow> int"
  g_BytesToAddress :: "byte list \<Rightarrow> byte list"
  g_Bytes2Hex :: "byte list \<Rightarrow> string"
  g_Keccak256Hash :: "byte list \<Rightarrow> byte list"

text \<open>
  Hashes print as \<open>0x\<close> and lower-case hex digits, addresses as \<open>0x\<close> and hex digits in some
  case, both are read back by \<open>HexToHash\<close> and \<open>HexToAddress\<close> in any case, a hash is a
  big-endian number, and a digest has 32 bytes.
\<close>

definition geth_ok :: "geth \<Rightarrow> bool" where
  "geth_ok G =
     ((\<forall>h. g_HashHex G h = ''0x'' @ hex_encode h \<and> g_HashString G h = g_HashHex G h \<and>
        g_HashBig G h = int (be_val h)) \<and>
      (\<forall>a. to_lower (g_AddressHex G a) = ''0x'' @ hex_encode a) \<and>
      (\<forall>a s. length a = 20 \<longrightarrow> to_lower s = ''0x'' @ hex_encode a \<longrightarrow>
         g_HexToAddress G s = a \<and> g_IsHexAddress G s) \<and>
      (\<forall>h s. length h = 32 \<longrightarrow> to_lower s = ''0x'' @ hex_encode h \<longrightarrow> g_HexToHash G s = h) \<and>
      (\<forall>b. g_Bytes2Hex G b = hex_encode b) \<and>
      (\<forall>b. length (g_Keccak256Hash G b) = 32))"

section \<open>Addresses and hashes from text\<close>

definition HexToAddress :: "geth \<Rightarrow> string \<Rightarrow> byte list" where
  "HexToAddress G hex = g_HexToAddress G (if has_prefix hex ''0x'' then hex else ''0x'' @ hex)"

definition HexToHash :: "geth \<Rightarrow> string \<Rightarrow> byte list" where
  "HexToHash G hex = g_HexToHash G (if has_prefix hex ''0x'' then hex else ''0x'' @ hex)"

definition IsValidAddress :: "geth \<Rightarrow> string \<Rightarrow> bool" where
  "IsValidAddress G address =
     g_IsHexAddress G (if has_prefix address ''0x'' then address else ''0x'' @ address)"

section \<open>Event signatures\<close>

text \<open>One parameter of the list, as the loop of \<open>ParseEventSignature\<close> rewrites it.\<close>

definition canonical_param :: "string \<Rightarrow> string" where
  "canonical_param param =
     (if contains param ''indexed'' then
        (let typePart = hd (split param ''indexed'')
         in if contains typePart '' '' then hd (split typePart '' '') else typePart)
      else if contains param '' '' then hd (split param '' '')
      else param)"

text \<open>The text that is hashed, and the whole function.\<close>

definition canonical_sig :: "string \<Rightarrow> string res" where
  "canonical_sig readableSig0 =
     (let readableSig = replace_all readableSig0 '' '' '''' in
      if \<not> contains readableSig ''('' \<or> \<not> has_suffix readableSig '')''
      then Inl ''invalid event signature format''
      else let parts = split_n2 readableSig ''('' in
        if length parts \<noteq> 2 then Inl ''invalid event signature format''
        else let eventName = parts ! 0;
                 params = trim_suffix (parts ! 1) '')'';
                 paramList = map canonical_param (split params '','')
             in Inr (eventName @ ''('' @ join paramList '','' @ '')''))"

definition ParseEventSignature :: "geth \<Rightarrow> string \<Rightarrow> string res" where
  "ParseEventSignature G readableSig =
     map_res (\<lambda>sig. g_HashHex G (g_Keccak256Hash G (ascii_bytes sig))) (canonical_sig readableSig)"

definition ExtractEventName :: "string \<Rightarrow> string res" where
  "ExtractEventName readableSig =
     (case index_of readableSig ''('' of
        None \<Rightarrow> Inl ''invalid function signature format''
      | Some i \<Rightarrow> if i = 0 \<or> \<not> has_suffix readableSig '')''
                  then Inl ''invalid function signature format'' else Inr (take i readableSig))"

section \<open>When a signature is accepted\<close>

lemma no_space_param: "CHR '' '' \<notin> set p \<Longrightarrow>
    canonical_param p = (case index_of p ''indexed'' of Some i \<Rightarrow> take i p | None \<Rightarrow> p)"
  by (auto simp: canonical_param_def contains_def index_of_single split_found Let_def
      split: option.splits dest: in_set_takeD)

lemma has_suffix_single: "has_suffix s [c] = (s \<noteq> [] \<and> last s = c)"
  by (cases s rule: rev_cases) (auto simp: has_suffix_iff)

lemma split_n2_found: "c \<in> set s \<Longrightarrow> split_n2 s [c] =
    [takeWhile (\<lambda>x. x \<noteq> c) s, drop (length (takeWhile (\<lambda>x. x \<noteq> c) s) + 1) s]"
  by (simp add: split_n2_def index_of_single) (metis takeWhile_eq_take)

definition no_spaces :: "string \<Rightarrow> string" where
  "no_spaces s = filter (\<lambda>c. c \<noteq> CHR '' '') s"

lemma canonical_sig_eq:
  "canonical_sig s =
     (let r = no_spaces s; name = takeWhile (\<lambda>x. x \<noteq> CHR ''('') r in
      if CHR ''('' \<in> set r \<and> last r = CHR '')''
      then Inr (name @ ''('' @
        join (map canonical_param (split (trim_suffix (drop (length name + 1) r) '')'') '','')) '','' @ '')'')
      else Inl ''invalid event signature format'')"
  by (auto simp: canonical_sig_def replace_all_remove no_spaces_def [symmetric] contains_single
      has_suffix_single split_n2_found Let_def)

lemma takeWhile_filter: "(\<And>x. P x \<longrightarrow> Q x \<or> True) \<Longrightarrow> (\<forall>x. \<not> P x \<longrightarrow> Q x) \<Longrightarrow>
    takeWhile P (filter Q xs) = filter Q (takeWhile P xs)"
  by (induction xs) auto

lemma last_no_spaces: "s \<noteq> [] \<Longrightarrow> last s \<noteq> CHR '' '' \<Longrightarrow> no_spaces s \<noteq> [] \<and> last (no_spaces s) = last s"
  by (cases s rule: rev_cases) (auto simp: no_spaces_def)

text \<open>
  \<open>ParseEventSignature\<close> accepts exactly the texts that, spaces removed, contain an opening
  parenthesis and end in a closing one; \<open>ExtractEventName\<close> accepts exactly those that end in a
  closing parenthesis as they stand and have a non-empty text before the first opening one.
  What the second accepts the first accepts, with the same name, spaces aside.
\<close>

theorem signature_accepted:
  "(is_ok (ParseEventSignature G s) \<longleftrightarrow> CHR ''('' \<in> set s \<and> no_spaces s \<noteq> [] \<and> last (no_spaces s) = CHR '')'')
   \<and> (is_ok (ExtractEventName s) \<longleftrightarrow> CHR ''('' \<in> set s \<and> hd s \<noteq> CHR ''('' \<and> last s = CHR '')'')
   \<and> (case ExtractEventName s of
        Inl e \<Rightarrow> True
      | Inr name \<Rightarrow> name = takeWhile (\<lambda>x. x \<noteq> CHR ''('') s
          \<and> (\<exists>rest. canonical_sig s = Inr (no_spaces name @ ''('' @ rest)))"
proof -
  have sp: "CHR ''('' \<in> set (no_spaces s) \<longleftrightarrow> CHR ''('' \<in> set s" by (auto simp: no_spaces_def)
  have p: "is_ok (ParseEventSignature G s) \<longleftrightarrow>
      CHR ''('' \<in> set s \<and> no_spaces s \<noteq> [] \<and> last (no_spaces s) = CHR '')''"
    using sp by (auto simp: ParseEventSignature_def canonical_sig_eq Let_def is_ok_iff map_res_Inr)
  have x: "ExtractEventName s =
      (if CHR ''('' \<in> set s \<and> hd s \<noteq> CHR ''('' \<and> last s = CHR '')''
       then Inr (takeWhile (\<lambda>x. x \<noteq> CHR ''('') s) else Inl ''invalid function signature format'')"
    by (cases s) (auto simp: ExtractEventName_def index_of_single has_suffix_single
        takeWhile_eq_take [symmetric])
  have t: "takeWhile (\<lambda>x. x \<noteq> CHR ''('') (no_spaces s) = no_spaces (takeWhile (\<lambda>x. x \<noteq> CHR ''('') s)"
    unfolding no_spaces_def by (rule takeWhile_filter) auto
  have "\<exists>rest. canonical_sig s = Inr (no_spaces (takeWhile (\<lambda>x. x \<noteq> CHR ''('') s) @ ''('' @ rest)"
    if "CHR ''('' \<in> set s" "last s = CHR '')''"
    using that sp last_no_spaces [of s] by (cases "s = []") (auto simp: canonical_sig_eq Let_def t)
  then show ?thesis using p x by auto
qed


section \<open>The canonical form of a readable signature\<close>

text \<open>
  A readable parameter is a type, a type with \<open>indexed\<close> and a name, or a type and a name.
  \<open>hashed_type\<close> is what the parser makes of it; \<open>param_type\<close> what the ABI hashes.
\<close>

datatype sig_param = Plain string | Indexed string string | Named string string

fun render_param :: "sig_param \<Rightarrow> string" where
  "render_param (Plain t) = t"
| "render_param (Indexed t n) = t @ '' indexed '' @ n"
| "render_param (Named t n) = t @ '' '' @ n"

fun hashed_type :: "sig_param \<Rightarrow> string" where
  "hashed_type (Plain t) = t"
| "hashed_type (Indexed t n) = t"
| "hashed_type (Named t n) = t @ n"

fun param_type :: "sig_param \<Rightarrow> string" where
  "param_type (Plain t) = t"
| "param_type (Indexed t n) = t"
| "param_type (Named t n) = t"

definition render_sig :: "string \<Rightarrow> sig_param list \<Rightarrow> string" where
  "render_sig name ps = name @ ''('' @ join (map render_param ps) '', '' @ '')''"

definition word_ok :: "string \<Rightarrow> bool" where
  "word_ok w = (CHR '' '' \<notin> set w \<and> CHR '','' \<notin> set w)"

fun param_ok :: "sig_param \<Rightarrow> bool" where
  "param_ok (Plain t) = (word_ok t \<and> \<not> contains t ''indexed'')"
| "param_ok (Indexed t n) = (word_ok t \<and> word_ok n \<and> index_of (t @ ''indexed'') ''indexed'' = Some (length t))"
| "param_ok (Named t n) = (word_ok t \<and> word_ok n \<and> \<not> contains (t @ n) ''indexed'')"

lemma no_spaces_append [simp]: "no_spaces (a @ b) = no_spaces a @ no_spaces b"
  by (simp add: no_spaces_def)

lemma no_spaces_Cons [simp]: "no_spaces (c # s) = (if c = CHR '' '' then no_spaces s else c # no_spaces s)"
  by (simp add: no_spaces_def)

lemma no_spaces_Nil [simp]: "no_spaces [] = []"
  by (simp add: no_spaces_def)

lemma no_spaces_id: "CHR '' '' \<notin> set w \<Longrightarrow> no_spaces w = w"
  unfolding no_spaces_def by (rule absent_filter)

lemma no_spaces_absent [simp]: "CHR '' '' \<notin> set (no_spaces w)"
  by (simp add: no_spaces_def)

lemma no_spaces_join: "no_spaces (join xs '', '') = join (map no_spaces xs) '',''"
proof (induction xs)
  case (Cons x xs)
  then show ?case by (cases xs) simp_all
qed simp

lemma index_of_extend:
  "index_of (t @ sub) sub = Some (length t) \<Longrightarrow> index_of (t @ sub @ r) sub = Some (length t)"
proof (induction t)
  case Nil
  have "has_prefix (sub @ r) sub" by (simp add: has_prefix_append)
  then show ?case by (cases "sub @ r") (auto simp: has_prefix_Nil1)
next
  case (Cons c t)
  then have "\<not> has_prefix (c # t @ sub) sub" "index_of (t @ sub) sub = Some (length t)"
    by (auto split: if_splits)
  moreover from this(1) have "\<not> has_prefix (c # t @ sub @ r) sub"
    by (simp add: has_prefix_def take_Cons' split: if_splits)
  ultimately show ?case using Cons.IH by simp
qed

lemma canonical_rendered_param: "param_ok p \<Longrightarrow> canonical_param (no_spaces (render_param p)) = hashed_type p"
proof (cases p)
  case (Plain t)
  then show "param_ok p \<Longrightarrow> ?thesis"
    by (simp add: no_space_param no_spaces_id word_ok_def contains_def)
next
  case (Indexed t n)
  then show "param_ok p \<Longrightarrow> ?thesis"
    using index_of_extend [of t "''indexed''" n]
    by (simp add: no_space_param no_spaces_id word_ok_def)
next
  case (Named t n)
  then show "param_ok p \<Longrightarrow> ?thesis"
    by (simp add: no_space_param no_spaces_id word_ok_def contains_def)
qed

lemma rendered_param_comma: "param_ok p \<Longrightarrow> CHR '','' \<notin> set (no_spaces (render_param p))"
  by (cases p) (auto simp: word_ok_def no_spaces_def)

text \<open>
  The text that \<open>ParseEventSignature\<close> hashes, for a signature written the readable way
  (parameters separated by commas with any of the three forms): the name and the list of
  types, except that the name of a parameter that is not indexed stays glued to its type,
  because the spaces are removed before the parameters are taken apart.
\<close>

theorem canonical_of_rendered:
  assumes "CHR '' '' \<notin> set name" "CHR ''('' \<notin> set name" "\<forall>p \<in> set ps. param_ok p"
  shows "canonical_sig (render_sig name ps) = Inr (name @ ''('' @ join (map hashed_type ps) '','' @ '')'')"
proof -
  let ?body = "join (map (\<lambda>p. no_spaces (render_param p)) ps) '',''"
  have r: "no_spaces (render_sig name ps) = name @ CHR ''('' # ?body @ '')''"
    using assms(1) by (simp add: render_sig_def no_spaces_join no_spaces_id o_def)
  have tw: "takeWhile (\<lambda>x. x \<noteq> CHR ''('') (name @ CHR ''('' # ?body @ '')'') = name"
    using assms(2) by (simp add: takeWhile_tail absent_takeWhile)
  have "map canonical_param (split ?body '','') = (if ps = [] then [[]] else map hashed_type ps)"
  proof (cases "ps = []")
    case True
    then show ?thesis by (simp add: no_space_param)
  next
    case False
    then have "split ?body '','' = map (\<lambda>p. no_spaces (render_param p)) ps"
      using assms(3) rendered_param_comma by (intro split_join) auto
    then show ?thesis using False assms(3) by (simp add: canonical_rendered_param)
  qed
  then show ?thesis
    by (simp add: canonical_sig_eq r tw Let_def trim_suffix_append)
qed

definition transfer_params :: "sig_param list" where
  "transfer_params =
     [Indexed ''address'' ''from'', Indexed ''address'' ''to'', Named ''uint256'' ''value'']"

lemma transfer_params_ok: "\<forall>p \<in> set transfer_params. param_ok p"
  by code_simp

theorem canonical_of_rendered_witness:
  "canonical_sig ''Transfer(address indexed from, address indexed to, uint256 value)'' =
   Inr ''Transfer(address,address,uint256value)''"
  using canonical_of_rendered [OF _ _ transfer_params_ok, of "''Transfer''"]
  by (simp add: render_sig_def transfer_params_def)

definition abi_sig :: "string \<Rightarrow> sig_param list \<Rightarrow> string" where
  "abi_sig name ps = name @ ''('' @ join (map param_type ps) '','' @ '')''"

lemma length_join_le:
  "list_all2 (\<lambda>x y. length x \<le> length y) xs ys \<Longrightarrow> length (join xs sep) \<le> length (join ys sep)"
proof (induction xs ys rule: list_all2_induct)
  case (Cons x xs y ys)
  then have "xs = [] \<longleftrightarrow> ys = []" by auto
  with Cons show ?case by (cases "xs = []") (auto simp: join_Cons)
qed simp

lemma join_types_less:
  "Named t n \<in> set ps \<Longrightarrow> n \<noteq> [] \<Longrightarrow>
   length (join (map param_type ps) sep) < length (join (map hashed_type ps) sep)"
proof (induction ps)
  case (Cons p ps)
  have le: "length (param_type q) \<le> length (hashed_type q)" for q by (cases q) auto
  have "length (join (map param_type ps) sep) \<le> length (join (map hashed_type ps) sep)"
    by (rule length_join_le) (simp add: list.rel_map list_all2_same le)
  then show ?case
    using Cons le [of p] by (cases "ps = []") (auto simp: join_Cons intro: add_le_less_mono add_less_le_mono)
qed simp

lemma hashed_types_eq:
  "(join (map hashed_type ps) sep = join (map param_type ps) sep) \<longleftrightarrow> (\<forall>t n. Named t n \<in> set ps \<longrightarrow> n = [])"
proof
  assume "\<forall>t n. Named t n \<in> set ps \<longrightarrow> n = []"
  then have "map hashed_type ps = map param_type ps"
    by (intro map_cong refl) (metis hashed_type.simps param_type.simps append_Nil2 sig_param.exhaust)
  then show "join (map hashed_type ps) sep = join (map param_type ps) sep" by (rule arg_cong)
qed (metis join_types_less less_irrefl)

text \<open>
  The consequence: the hash is that of the signature the ABI hashes, that is of the name and
  the list of types, exactly for the signatures in which every parameter with a name is indexed.
\<close>

theorem canonical_is_abi_iff:
  assumes "CHR '' '' \<notin> set name" "CHR ''('' \<notin> set name" "\<forall>p \<in> set ps. param_ok p"
  shows "canonical_sig (render_sig name ps) = Inr (abi_sig name ps)
    \<longleftrightarrow> (\<forall>t n. Named t n \<in> set ps \<longrightarrow> n = [])"
  by (simp add: canonical_of_rendered [OF assms] abi_sig_def hashed_types_eq)

theorem canonical_is_abi_iff_witness:
  "canonical_sig ''Transfer(address indexed from, address indexed to, uint256 value)'' \<noteq>
   Inr ''Transfer(address,address,uint256)''"
proof -
  have "canonical_sig (render_sig ''Transfer'' transfer_params) \<noteq> Inr (abi_sig ''Transfer'' transfer_params)"
    using canonical_is_abi_iff [OF _ _ transfer_params_ok, of "''Transfer''"]
    by (auto simp: transfer_params_def)
  then show ?thesis by (simp add: render_sig_def abi_sig_def transfer_params_def)
qed

section \<open>Keys and concrete functions\<close>

text \<open>Under the promises, text and value correspond up to case, with or without the prefix.\<close>

lemma geth_okD:
  assumes "geth_ok G"
  shows "g_HashHex G h = ''0x'' @ hex_encode h" "g_HashString G h = g_HashHex G h"
    and "g_HashBig G h = int (be_val h)" "to_lower (g_AddressHex G a) = ''0x'' @ hex_encode a"
    and "g_Bytes2Hex G b = hex_encode b" "length (g_Keccak256Hash G b) = 32"
  using assms by (simp_all add: geth_ok_def)

definition sample_geth :: geth where
  "sample_geth = \<lparr>
     g_HexToAddress = (\<lambda>s. BytesToAddress (stringToBytes (to_lower s))),
     g_HexToHash = (\<lambda>s. BytesToHash (stringToBytes (to_lower s))),
     g_IsHexAddress = (\<lambda>s. length (stringToBytes (to_lower s)) = 20),
     g_AddressHex = hex_EncodeToHex,
     g_HashHex = hex_EncodeToHex,
     g_HashString = hex_EncodeToHex,
     g_HashBig = (\<lambda>h. int (be_val h)),
     g_BytesToAddress = BytesToAddress,
     g_Bytes2Hex = hex_encode,
     g_Keccak256Hash = BytesToHash\<rparr>"

lemma lower_hex_encode: "to_lower (hex_encode b) = hex_encode b"
proof (induction b)
  case (Cons w b)
  have "unat w div 16 < 36" using unat_byte [of w] by linarith
  moreover have "unat w mod 16 < 36" by (rule mod_base) auto
  ultimately show ?case using Cons by simp
qed simp

lemma lower_hex_EncodeToHex: "to_lower (hex_EncodeToHex b) = hex_EncodeToHex b"
  by (simp add: hex_EncodeToHex_def lower_hex_encode) (simp add: lower_char_def)

lemma sample_geth_ok: "geth_ok sample_geth"
proof -
  have s: "stringToBytes (CHR ''0'' # CHR ''x'' # hex_encode a) = a" for a
    using stringToBytes_hex [of a] by (simp add: hex_EncodeToHex_def)
  show ?thesis
    using lower_hex_EncodeToHex
    by (auto simp: geth_ok_def sample_geth_def hex_EncodeToHex_def s BytesToAddress_eq BytesToHash_eq)
qed

end
