(* ===== verification/Eth_Decoder.thy ===== *)
theory Eth_Decoder
  imports Eth_Utils
begin

text \<open>
  \<open>pkg/ethereum/event_decoder.go\<close>: the registry of event ABIs and the decoding of a log's data
  and topics, to JSON text for the database and to a map for the event runners. go-ethereum's
  ABI parser and unpacker and the JSON marshaller (whose input holds values of the ABI library's
  own types) are the fields of a record.
\<close>

section \<open>Events and values\<close>

text \<open>
  The types of parameters: integers with their width, and \<open>OtherTy\<close> for byte strings, hashes,
  functions and fixed-point numbers.
\<close>

datatype abi_ty =
  AddressTy | BoolTy | IntTy nat | UintTy nat | StringTy
| SliceTy abi_ty | ArrayTy nat abi_ty | TupleTy "abi_ty list" | OtherTy

record abi_arg =
  arg_Name :: string
  arg_T :: abi_ty
  arg_Indexed :: bool

record abi_event =
  ev_Name :: string
  ev_ID :: "byte list"
  ev_Inputs :: "abi_arg list"

text \<open>
  Values by their dynamic type: \<open>VNative\<close> is a Go integer of 8 to 64 bits, \<open>VSeq\<close> a slice or array,
  \<open>VStruct\<close> the struct of a tuple, \<open>VOther\<close> any other value the unpacker makes.
\<close>

datatype 'x dval =
  VBigInt int | VAddress "byte list" | VString string | VBool bool | VNative int
| VSeq "'x dval list" | VStruct "'x dval list" | VOther 'x

type_synonym 'x dmap = "string \<rightharpoonup> 'x dval"

text \<open>
  \<open>ab_JSON\<close> parses an ABI to its events, in the order a \<open>range\<close> over them yields; \<open>ab_Unpack\<close>
  is \<open>UnpackIntoMap\<close> of the inputs on data; \<open>ab_Marshal\<close> is \<open>json.MarshalIndent\<close>.
\<close>

record 'x abi_lib =
  ab_geth :: geth
  ab_JSON :: "string \<Rightarrow> string + abi_event list"
  ab_Unpack :: "abi_arg list \<Rightarrow> byte list \<Rightarrow> string + 'x dmap"
  ab_Marshal :: "'x dmap \<Rightarrow> string + string"

record event_decoder =
  eventABIs :: "string \<rightharpoonup> abi_event"

definition NewEventDecoder :: event_decoder where
  "NewEventDecoder = \<lparr>eventABIs = Map.empty\<rparr>"

section \<open>Registration\<close>

text \<open>
  The loop over the parsed events stops at the first whose identifier is the signature; without
  one the zero event remains, whose name is empty.
\<close>

definition zero_event :: abi_event where
  "zero_event = \<lparr>ev_Name = [], ev_ID = replicate 32 0, ev_Inputs = []\<rparr>"

fun find_event :: "geth \<Rightarrow> string \<Rightarrow> abi_event list \<Rightarrow> abi_event" where
  "find_event G sig [] = zero_event"
| "find_event G sig (e # es) = (if sig = g_HashString G (ev_ID e) then e else find_event G sig es)"

definition RegisterEvent ::
  "'x abi_lib \<Rightarrow> string \<Rightarrow> string \<Rightarrow> event_decoder \<Rightarrow> string option \<times> event_decoder" where
  "RegisterEvent L eventSignature eventABI d =
     (case ab_JSON L eventABI of
        Inl err \<Rightarrow> (Some (''failed to parse event ABI: '' @ err), d)
      | Inr events \<Rightarrow>
          if length events = 0 then (Some ''no events found in ABI'', d)
          else let event = find_event (ab_geth L) eventSignature events in
            if ev_Name event = [] then (Some ''event not found in ABI'', d)
            else (None, d\<lparr>eventABIs := (eventABIs d)(eventSignature \<mapsto> event)\<rparr>))"

section \<open>Decoding\<close>

definition quote_char :: char where
  "quote_char = CHR 0x22"

definition quoted :: "string \<Rightarrow> string" where
  "quoted s = quote_char # s @ [quote_char]"

text \<open>The texts for data that cannot be decoded, without and with the error.\<close>

definition raw_json :: "string \<Rightarrow> string" where
  "raw_json hex = ''{'' @ quoted ''raw'' @ '': '' @ quoted hex @ ''}''"

definition raw_error_json :: "string \<Rightarrow> string \<Rightarrow> string" where
  "raw_error_json hex err =
     ''{'' @ quoted ''raw'' @ '': '' @ quoted hex @ '', '' @ quoted ''error'' @ '': '' @ quoted err @ ''}''"

definition show_value :: "geth \<Rightarrow> 'x dval \<Rightarrow> 'x dval" where
  "show_value G value =
     (case value of VBigInt i \<Rightarrow> VString (fmt_d i) | VAddress a \<Rightarrow> VString (g_AddressHex G a) | v \<Rightarrow> v)"

definition decode_topic :: "geth \<Rightarrow> abi_ty \<Rightarrow> byte list \<Rightarrow> 'x dval" where
  "decode_topic G ty topic =
     (case ty of
        AddressTy \<Rightarrow> VAddress (g_BytesToAddress G topic)
      | BoolTy \<Rightarrow> VBool (g_HashBig G topic \<noteq> 0)
      | IntTy n \<Rightarrow> VString (fmt_d (g_HashBig G topic))
      | UintTy n \<Rightarrow> VString (fmt_d (g_HashBig G topic))
      | _ \<Rightarrow> VString (g_HashHex G topic))"

definition indexed_params :: "abi_event \<Rightarrow> abi_arg list" where
  "indexed_params event = filter arg_Indexed (ev_Inputs event)"

text \<open>The loop over the indexed parameters, at index \<open>i\<close>; it breaks when the topics run out.\<close>

fun topic_loop :: "geth \<Rightarrow> nat \<Rightarrow> abi_arg list \<Rightarrow> byte list list \<Rightarrow> 'x dmap \<Rightarrow> 'x dmap" where
  "topic_loop G i [] topics m = m"
| "topic_loop G i (param # ps) topics m =
     (if length topics \<le> i + 1 then m
      else topic_loop G (i + 1) ps topics
             (m(arg_Name param \<mapsto> decode_topic G (arg_T param) (topics ! (i + 1)))))"

text \<open>The two halves of the decoding: the data, then the topics.\<close>

definition decode_data :: "'x abi_lib \<Rightarrow> abi_event \<Rightarrow> byte list \<Rightarrow> string + 'x dmap" where
  "decode_data L event data =
     (if length data > 0
      then map_res (\<lambda>unpacked name. map_option (show_value (ab_geth L)) (unpacked name))
             (ab_Unpack L (ev_Inputs event) data)
      else Inr Map.empty)"

definition decode_topics :: "'x abi_lib \<Rightarrow> abi_event \<Rightarrow> byte list list \<Rightarrow> 'x dmap \<Rightarrow> 'x dmap" where
  "decode_topics L event topics m =
     (if length topics > 1 then topic_loop (ab_geth L) 0 (indexed_params event) topics m else m)"

definition DecodeEvent ::
  "'x abi_lib \<Rightarrow> event_decoder \<Rightarrow> string \<Rightarrow> byte list \<Rightarrow> byte list list \<Rightarrow> string res" where
  "DecodeEvent L d eventSignature data topics =
     (let hex = g_Bytes2Hex (ab_geth L) data in
      case eventABIs d eventSignature of
        None \<Rightarrow> Inr (raw_json hex)
      | Some event \<Rightarrow>
          (case decode_data L event data of
             Inl err \<Rightarrow> Inr (raw_error_json hex err)
           | Inr m \<Rightarrow>
               (case ab_Marshal L (decode_topics L event topics m) of
                  Inl err \<Rightarrow> Inr (raw_error_json hex err)
                | Inr json \<Rightarrow> Inr json)))"

definition DecodeEventToMap ::
  "'x abi_lib \<Rightarrow> event_decoder \<Rightarrow> string \<Rightarrow> byte list \<Rightarrow> byte list list \<Rightarrow> 'x dmap res" where
  "DecodeEventToMap L d eventSignature data topics =
     (let hex = g_Bytes2Hex (ab_geth L) data in
      case eventABIs d eventSignature of
        None \<Rightarrow> Inr [''raw'' \<mapsto> VString hex]
      | Some event \<Rightarrow>
          (case decode_data L event data of
             Inl err \<Rightarrow> Inr [''raw'' \<mapsto> VString hex, ''error'' \<mapsto> VString err]
           | Inr m \<Rightarrow> Inr (decode_topics L event topics m)))"

section \<open>The registry\<close>

text \<open>Every registered event has a name, and the key it is registered under is its identifier.\<close>

definition decoder_inv :: "geth \<Rightarrow> event_decoder \<Rightarrow> bool" where
  "decoder_inv G d = (\<forall>sig e. eventABIs d sig = Some e \<longrightarrow> g_HashString G (ev_ID e) = sig \<and> ev_Name e \<noteq> [])"

fun register_all :: "'x abi_lib \<Rightarrow> (string \<times> string) list \<Rightarrow> event_decoder \<Rightarrow> event_decoder" where
  "register_all L [] d = d"
| "register_all L ((sig, abi) # rs) d = register_all L rs (snd (RegisterEvent L sig abi d))"

lemma find_event_ID: "ev_Name (find_event G sig es) \<noteq> [] \<Longrightarrow>
    find_event G sig es \<in> set es \<and> g_HashString G (ev_ID (find_event G sig es)) = sig"
  by (induction es) (auto simp: zero_event_def split: if_splits)

lemma RegisterEvent_inv: "decoder_inv (ab_geth L) d \<Longrightarrow> decoder_inv (ab_geth L) (snd (RegisterEvent L sig abi d))"
  by (auto simp: RegisterEvent_def decoder_inv_def Let_def find_event_ID split: sum.splits if_splits)

lemma register_all_inv: "decoder_inv (ab_geth L) d \<Longrightarrow> decoder_inv (ab_geth L) (register_all L rs d)"
  by (induction rs arbitrary: d) (auto simp: RegisterEvent_inv)

text \<open>
  Whatever pairs of signatures and ABIs are registered, in any order, a signature is only
  ever associated with an event of that identifier and a non-empty name; a registration either
  fails and changes nothing or binds its own signature and no other.
\<close>

theorem register_event_correct:
  "decoder_inv (ab_geth L) (register_all L rs NewEventDecoder)
   \<and> (case RegisterEvent L sig abi d of
        (Some err, d') \<Rightarrow> d' = d
      | (None, d') \<Rightarrow> \<exists>es e. ab_JSON L abi = Inr es \<and> e \<in> set es \<and> g_HashString (ab_geth L) (ev_ID e) = sig
          \<and> eventABIs d' = (eventABIs d)(sig \<mapsto> e))"
proof -
  have "decoder_inv (ab_geth L) (register_all L rs NewEventDecoder)"
    by (rule register_all_inv) (simp add: decoder_inv_def NewEventDecoder_def)
  then show ?thesis
    using find_event_ID [of "ab_geth L" sig] by (auto simp: RegisterEvent_def Let_def split: sum.splits)
qed

section \<open>What decoding yields\<close>

text \<open>The place of a name in a list of parameters.\<close>

fun arg_position :: "string \<Rightarrow> abi_arg list \<Rightarrow> nat option" where
  "arg_position name [] = None"
| "arg_position name (p # ps) = (if arg_Name p = name then Some 0 else map_option Suc (arg_position name ps))"

lemma arg_position_absent: "name \<notin> arg_Name ` set ps \<Longrightarrow> arg_position name ps = None"
  by (induction ps) auto

lemma topic_loop_lookup:
  "distinct (map arg_Name ps) \<Longrightarrow>
   topic_loop G i ps topics m name =
     (case arg_position name ps of
        Some k \<Rightarrow> if i + k + 1 < length topics
                  then Some (decode_topic G (arg_T (ps ! k)) (topics ! (i + k + 1))) else m name
      | None \<Rightarrow> m name)"
proof (induction ps arbitrary: i m)
  case (Cons p ps)
  show ?case
  proof (cases "arg_Name p = name")
    case True
    then have "arg_position name ps = None" using Cons.prems by (intro arg_position_absent) auto
    then show ?thesis using True Cons by auto
  next
    case False
    then show ?thesis using Cons by (cases "arg_position name ps") auto
  qed
qed simp

lemma decoders_total: "\<exists>m. DecodeEventToMap L d sig data topics = Inr m"
  by (auto simp: DecodeEventToMap_def Let_def split: option.splits sum.splits)

text \<open>
  Neither decoder ever returns an error, so the callers' fall-backs never run; and the two
  agree: without an ABI both give the raw data, when the data does not unpack both give the raw
  data and the error, and otherwise the text is the JSON of the map (or raw data and error when
  it cannot be marshalled).
\<close>

theorem decoders_agree:
  "\<exists>m. DecodeEventToMap L d sig data topics = Inr m \<and>
     DecodeEvent L d sig data topics = Inr
       (let hex = g_Bytes2Hex (ab_geth L) data in
        case eventABIs d sig of
          None \<Rightarrow> raw_json hex
        | Some e \<Rightarrow> if data \<noteq> [] \<and> \<not> is_ok (ab_Unpack L (ev_Inputs e) data)
            then raw_error_json hex (projl (ab_Unpack L (ev_Inputs e) data))
            else case ab_Marshal L m of Inr json \<Rightarrow> json | Inl err \<Rightarrow> raw_error_json hex err)"
  by (cases "eventABIs d sig"; cases "ab_Unpack L (ev_Inputs (the (eventABIs d sig))) data")
    (auto simp: DecodeEvent_def DecodeEventToMap_def decode_data_def Let_def split: sum.splits)

text \<open>
  The decoded map of a registered event whose indexed parameters have distinct names: the
  k-th indexed parameter has the value decoded from topic k+1 when the log has that topic, and
  every other name has the value unpacked from the data, numbers and addresses as text.
\<close>

theorem decoded_map_lookup:
  assumes "eventABIs d sig = Some e" and "distinct (map arg_Name (indexed_params e))"
    and "ab_Unpack L (ev_Inputs e) data = Inr u" and "data \<noteq> []"
  shows "\<exists>m. DecodeEventToMap L d sig data topics = Inr m \<and>
    m name = (let ps = indexed_params e; from_data = map_option (show_value (ab_geth L)) (u name) in
      case arg_position name ps of
        Some k \<Rightarrow> if k + 1 < length topics
                  then Some (decode_topic (ab_geth L) (arg_T (ps ! k)) (topics ! (k + 1))) else from_data
      | None \<Rightarrow> from_data)"
proof (cases "length topics > 1")
  case True
  let ?m = "\<lambda>name. map_option (show_value (ab_geth L)) (u name)"
  have "DecodeEventToMap L d sig data topics = Inr (topic_loop (ab_geth L) 0 (indexed_params e) topics ?m)"
    using True assms by (simp add: DecodeEventToMap_def decode_data_def decode_topics_def Let_def)
  then show ?thesis
    using topic_loop_lookup [OF assms(2), of "ab_geth L" 0 topics ?m name]
    by (cases "arg_position name (indexed_params e)") (simp_all add: Let_def)
next
  case False
  then show ?thesis
    using assms by (auto simp: DecodeEventToMap_def decode_data_def decode_topics_def Let_def split: option.splits)
qed

definition transfer_event :: abi_event where
  "transfer_event = \<lparr>ev_Name = ''Transfer'', ev_ID = replicate 32 7,
     ev_Inputs = [\<lparr>arg_Name = ''from'', arg_T = AddressTy, arg_Indexed = True\<rparr>,
                  \<lparr>arg_Name = ''delta'', arg_T = IntTy 256, arg_Indexed = True\<rparr>,
                  \<lparr>arg_Name = ''value'', arg_T = UintTy 256, arg_Indexed = False\<rparr>]\<rparr>"

definition sample_abi :: "unit abi_lib" where
  "sample_abi = \<lparr>ab_geth = sample_geth, ab_JSON = (\<lambda>s. if s = ''abi'' then Inr [transfer_event] else Inl ''bad''),
     ab_Unpack = (\<lambda>args data. Inr [''value'' \<mapsto> VBigInt (int (be_val data))]),
     ab_Marshal = (\<lambda>m. case m ''value'' of Some (VString s) \<Rightarrow> Inr s | _ \<Rightarrow> Inl ''none'')\<rparr>"

definition sample_decoder :: event_decoder where
  "sample_decoder = \<lparr>eventABIs = [''sig'' \<mapsto> transfer_event]\<rparr>"

theorem decoded_map_lookup_witness:
  "\<exists>m. DecodeEventToMap sample_abi sample_decoder ''sig'' [1] [replicate 32 7, replicate 32 5] = Inr m
     \<and> m ''from'' = Some (VAddress (replicate 20 5))"
proof -
  have e: "eventABIs sample_decoder ''sig'' = Some transfer_event" by (simp add: sample_decoder_def)
  have dist: "distinct (map arg_Name (indexed_params transfer_event))"
    by (simp add: indexed_params_def transfer_event_def)
  have u: "ab_Unpack sample_abi (ev_Inputs transfer_event) [1] = Inr [''value'' \<mapsto> VBigInt (int (be_val [1]))]"
    by (simp add: sample_abi_def)
  have f: "arg_position ''from'' (indexed_params transfer_event) = Some 0"
    by (simp add: indexed_params_def transfer_event_def)
  have v: "decode_topic (ab_geth sample_abi) (arg_T (indexed_params transfer_event ! 0)) (replicate 32 5) =
      VAddress (replicate 20 5)"
    by (simp add: indexed_params_def transfer_event_def decode_topic_def sample_abi_def sample_geth_def BytesToAddress_eq)
  show ?thesis
    using decoded_map_lookup [OF e dist u, of "[replicate 32 7, replicate 32 5]" "''from''"]
    by (simp add: f v Let_def)
qed

text \<open>
  An indexed parameter of a signed integer type is shown as an unsigned number: the topic
  that holds the two's complement of a negative value yields the decimal text of that value
  plus 2^256, as it would for an unsigned parameter.
\<close>

theorem signed_topic_shown_unsigned:
  assumes "geth_ok G" and "int (be_val topic) = v + 2 ^ 256" and "v < 0"
  shows "decode_topic G (IntTy n) topic = (VString (fmt_d (v + 2 ^ 256)) :: 'x dval)
    \<and> decode_topic G (IntTy n) topic \<noteq> (VString (fmt_d v) :: 'x dval)"
  using assms geth_okD(3) [OF assms(1), of topic] by (auto simp: decode_topic_def fmt_d_inject)

lemma be_val_ones: "be_val (replicate n (- 1)) = 256 ^ n - 1"
proof (induction n)
  case (Suc n)
  have "unat (- 1 :: byte) = 255" by (simp add: unsigned_minus_1_eq_mask mask_eq_exp_minus_1)
  then show ?case using Suc by (simp add: algebra_simps)
qed simp

theorem signed_topic_shown_unsigned_witness:
  "decode_topic sample_geth (IntTy 256) (replicate 32 (- 1)) = (VString (fmt_d (2 ^ 256 - 1)) :: unit dval)"
proof -
  have "int (be_val (replicate 32 (- 1))) = - 1 + 2 ^ 256" by (simp add: be_val_ones)
  then show ?thesis
    using signed_topic_shown_unsigned [where 'x = unit, OF sample_geth_ok, of "replicate 32 (- 1)" "- 1"] by simp
qed


section \<open>The types of decoded values\<close>

text \<open>
  The Go value that the ABI library makes of a parameter's type: integers of the four native
  widths are Go integers, those of any other width are big ones; slices, arrays and tuples hold
  the values of their elements.
\<close>

definition native_width :: "nat \<Rightarrow> bool" where
  "native_width n = (n \<in> {8, 16, 32, 64})"

fun unpacked_ty :: "abi_ty \<Rightarrow> 'x dval \<Rightarrow> bool" where
  "unpacked_ty AddressTy v = (case v of VAddress a \<Rightarrow> True | _ \<Rightarrow> False)"
| "unpacked_ty BoolTy v = (case v of VBool b \<Rightarrow> True | _ \<Rightarrow> False)"
| "unpacked_ty (UintTy n) v =
     (if native_width n then (case v of VNative i \<Rightarrow> 0 \<le> i \<and> i < 2 ^ n | _ \<Rightarrow> False)
      else (case v of VBigInt i \<Rightarrow> True | _ \<Rightarrow> False))"
| "unpacked_ty (IntTy n) v =
     (if native_width n then (case v of VNative i \<Rightarrow> - (2 ^ (n - 1)) \<le> i \<and> i < 2 ^ (n - 1) | _ \<Rightarrow> False)
      else (case v of VBigInt i \<Rightarrow> True | _ \<Rightarrow> False))"
| "unpacked_ty StringTy v = (case v of VString s \<Rightarrow> True | _ \<Rightarrow> False)"
| "unpacked_ty (SliceTy t) v = (case v of VSeq vs \<Rightarrow> (\<forall>x \<in> set vs. unpacked_ty t x) | _ \<Rightarrow> False)"
| "unpacked_ty (ArrayTy n t) v = (case v of VSeq vs \<Rightarrow> length vs = n \<and> (\<forall>x \<in> set vs. unpacked_ty t x) | _ \<Rightarrow> False)"
| "unpacked_ty (TupleTy ts) v = (case v of VStruct vs \<Rightarrow> list_all2 unpacked_ty ts vs | _ \<Rightarrow> False)"
| "unpacked_ty OtherTy v = (case v of VOther x \<Rightarrow> True | _ \<Rightarrow> False)"

text \<open>
  What decoding leaves. Of the data, big integers and addresses become text, and everything else
  is as it was unpacked; of a topic, integers are decimal text, and what is not an address, an
  integer or a truth value is the text of the hash.
\<close>

definition decoded_ty :: "bool \<Rightarrow> abi_ty \<Rightarrow> 'x dval \<Rightarrow> bool" where
  "decoded_ty indexed ty v =
     (if indexed then
        (case ty of
           AddressTy \<Rightarrow> (case v of VAddress a \<Rightarrow> True | _ \<Rightarrow> False)
         | BoolTy \<Rightarrow> (case v of VBool b \<Rightarrow> True | _ \<Rightarrow> False)
         | IntTy n \<Rightarrow> (\<exists>i. v = VString (fmt_d i))
         | UintTy n \<Rightarrow> (\<exists>i. v = VString (fmt_d i))
         | _ \<Rightarrow> (case v of VString s \<Rightarrow> True | _ \<Rightarrow> False))
      else
        (case ty of
           AddressTy \<Rightarrow> (case v of VString s \<Rightarrow> True | _ \<Rightarrow> False)
         | IntTy n \<Rightarrow> if native_width n then unpacked_ty ty v else (\<exists>i. v = VString (fmt_d i))
         | UintTy n \<Rightarrow> if native_width n then unpacked_ty ty v else (\<exists>i. v = VString (fmt_d i))
         | _ \<Rightarrow> unpacked_ty ty v))"

text \<open>A big integer in a value, and a type whose values may have one.\<close>

fun holds_big :: "'x dval \<Rightarrow> bool" where
  "holds_big (VBigInt i) = True"
| "holds_big (VSeq vs) = (\<exists>v \<in> set vs. holds_big v)"
| "holds_big (VStruct vs) = (\<exists>v \<in> set vs. holds_big v)"
| "holds_big v = False"

fun big_ty :: "abi_ty \<Rightarrow> bool" where
  "big_ty (IntTy n) = (\<not> native_width n)"
| "big_ty (UintTy n) = (\<not> native_width n)"
| "big_ty (SliceTy t) = big_ty t"
| "big_ty (ArrayTy n t) = big_ty t"
| "big_ty (TupleTy ts) = (\<exists>t \<in> set ts. big_ty t)"
| "big_ty ty = False"

fun composite :: "abi_ty \<Rightarrow> bool" where
  "composite (SliceTy t) = True"
| "composite (ArrayTy n t) = True"
| "composite (TupleTy ts) = True"
| "composite ty = False"

lemma holds_big_ty: "unpacked_ty ty v \<Longrightarrow> holds_big v \<Longrightarrow> big_ty ty"
proof (induction ty arbitrary: v)
  case (TupleTy ts)
  then obtain vs x where v: "v = VStruct vs" "x \<in> set vs" "holds_big x" "list_all2 unpacked_ty ts vs"
    by (cases v) auto
  then obtain k where "k < length vs" "x = vs ! k" by (metis in_set_conv_nth)
  then show ?case using v(3,4) TupleTy.IH [of "ts ! k" x] by (auto simp: list_all2_conv_all_nth)
qed (auto split: dval.splits if_splits)

lemma decoded_big:
  assumes "decoded_ty indexed ty v" and "holds_big v"
  shows "\<not> indexed \<and> composite ty \<and> big_ty ty"
proof (cases "\<not> indexed \<and> composite ty")
  case True
  then have "unpacked_ty ty v" using assms(1) by (cases ty) (simp_all add: decoded_ty_def)
  then show ?thesis using True holds_big_ty assms(2) by blast
next
  case False
  then show ?thesis using assms
    by (cases ty) (auto simp: decoded_ty_def split: dval.splits if_splits)
qed

text \<open>\<open>UnpackIntoMap\<close> has an entry of the right type for parameters that are not indexed, and no other.\<close>

definition unpack_ok :: "'x abi_lib \<Rightarrow> bool" where
  "unpack_ok L = (\<forall>args data m. ab_Unpack L args data = Inr m \<longrightarrow>
     (\<forall>name v. m name = Some v \<longrightarrow> (\<exists>p \<in> set args. \<not> arg_Indexed p \<and> arg_Name p = name \<and> unpacked_ty (arg_T p) v)))"

definition map_typed :: "abi_arg list \<Rightarrow> 'x dmap \<Rightarrow> bool" where
  "map_typed args m = (\<forall>name v. m name = Some v \<longrightarrow>
     (\<exists>p \<in> set args. arg_Name p = name \<and> decoded_ty (arg_Indexed p) (arg_T p) v))"

lemma show_value_typed: "unpacked_ty ty v \<Longrightarrow> decoded_ty False ty (show_value G v)"
  by (cases ty; cases v) (auto simp: show_value_def decoded_ty_def split: if_splits)

lemma decode_topic_typed: "decoded_ty True ty (decode_topic G ty topic)"
  by (cases ty) (auto simp: decode_topic_def decoded_ty_def)

lemma map_typed_empty [simp]: "map_typed args Map.empty"
  by (simp add: map_typed_def)

lemma decode_data_typed:
  assumes "unpack_ok L" and "decode_data L e data = Inr m"
  shows "map_typed (ev_Inputs e) m"
proof (cases "length data > 0")
  case True
  then obtain u where u: "ab_Unpack L (ev_Inputs e) data = Inr u"
    and m: "m = (\<lambda>name. map_option (show_value (ab_geth L)) (u name))"
    using assms(2) by (auto simp: decode_data_def map_res_Inr)
  have "\<exists>p \<in> set (ev_Inputs e). arg_Name p = name \<and> decoded_ty (arg_Indexed p) (arg_T p) v" if some: "m name = Some v" for name v
  proof -
    obtain v0 where v: "u name = Some v0" "v = show_value (ab_geth L) v0" using some by (auto simp: m)
    obtain p where "p \<in> set (ev_Inputs e)" "\<not> arg_Indexed p" "arg_Name p = name" "unpacked_ty (arg_T p) v0"
      using assms(1) u v(1) unfolding unpack_ok_def by blast
    then show ?thesis using show_value_typed v(2) by (intro bexI [of _ p]) auto
  qed
  then show ?thesis by (auto simp: map_typed_def)
qed (use assms(2) in \<open>auto simp: decode_data_def\<close>)

lemma topic_loop_typed:
  "map_typed args m \<Longrightarrow> set ps \<subseteq> {p \<in> set args. arg_Indexed p} \<Longrightarrow> map_typed args (topic_loop G i ps topics m)"
proof (induction ps arbitrary: i m)
  case (Cons p ps)
  have "map_typed args (m(arg_Name p \<mapsto> decode_topic G (arg_T p) (topics ! Suc i)))"
    using Cons.prems decode_topic_typed [of "arg_T p" G "topics ! Suc i"] by (auto simp: map_typed_def)
  note IH = Cons.IH [OF this, of "Suc i"]
  show ?case using Cons.prems by (auto intro!: IH)
qed simp

text \<open>
  C20. Type soundness of the decoded map, for an unpacker that respects the types of the ABI:
  unless the data did not unpack (then the entries are two texts), every entry of the map of a
  registered event belongs to a parameter, with the Go type that its type and its being indexed
  fix. Of the data, addresses and integers wider than 64 bits (or of an odd width) become text
  and everything else stays as it was unpacked; of a topic, an address stays an address and
  anything but a truth value is text. So the map never has a big integer as an entry, but
  slices, arrays and tuples of them are not searched: a big integer remains in an entry only
  when its parameter is of such a type and not indexed.
\<close>

theorem decoded_map_types:
  assumes "unpack_ok L" and "eventABIs d sig = Some e"
    and "DecodeEventToMap L d sig data topics = Inr m" and "m name = Some v"
  shows "if is_ok (decode_data L e data)
    then (\<exists>p \<in> set (ev_Inputs e). arg_Name p = name \<and> decoded_ty (arg_Indexed p) (arg_T p) v \<and>
        (holds_big v \<longrightarrow> \<not> arg_Indexed p \<and> composite (arg_T p) \<and> big_ty (arg_T p))) \<and> (\<forall>i. v \<noteq> VBigInt i)
    else name \<in> {''raw'', ''error''} \<and> (\<exists>s. v = VString s)"
proof (cases "decode_data L e data")
  case (Inl err)
  then show ?thesis using assms(2-4) by (auto simp: DecodeEventToMap_def Let_def split: if_splits)
next
  case (Inr m0)
  have "map_typed (ev_Inputs e) (decode_topics L e topics m0)"
    using topic_loop_typed [OF decode_data_typed [OF assms(1) Inr], of "indexed_params e"] decode_data_typed [OF assms(1) Inr]
    by (auto simp: decode_topics_def indexed_params_def)
  then obtain p where p: "p \<in> set (ev_Inputs e)" "arg_Name p = name" "decoded_ty (arg_Indexed p) (arg_T p) v"
    using assms(2-4) Inr by (auto simp: DecodeEventToMap_def Let_def map_typed_def)
  have "\<not> decoded_ty b ty (VBigInt i)" for b ty i
    using decoded_big [of b ty "VBigInt i"] by (cases ty) (auto simp: decoded_ty_def)
  then show ?thesis using p decoded_big [OF p(3)] Inr by auto
qed

text \<open>A log of two lists of numbers, as of a batch of transfers: the list is left as it is.\<close>

definition batch_event :: abi_event where
  "batch_event = \<lparr>ev_Name = ''Batch'', ev_ID = replicate 32 8,
     ev_Inputs = [\<lparr>arg_Name = ''values'', arg_T = SliceTy (UintTy 256), arg_Indexed = False\<rparr>]\<rparr>"

definition typed_abi :: "unit abi_lib" where
  "typed_abi = sample_abi\<lparr>ab_Unpack := \<lambda>args data. Inr (\<lambda>name.
     if \<exists>p \<in> set args. \<not> arg_Indexed p \<and> arg_Name p = name \<and> arg_T p = SliceTy (UintTy 256)
     then Some (VSeq [VBigInt (int (be_val data))]) else None)\<rparr>"

theorem decoded_map_types_witness:
  "\<exists>m v. DecodeEventToMap typed_abi \<lparr>eventABIs = [''sig'' \<mapsto> batch_event]\<rparr> ''sig'' [1] [] = Inr m \<and>
    m ''values'' = Some v \<and> holds_big v \<and> (\<exists>p \<in> set (ev_Inputs batch_event). composite (arg_T p) \<and> big_ty (arg_T p))"
proof -
  let ?d = "\<lparr>eventABIs = [''sig'' \<mapsto> batch_event]\<rparr>"
  have ok: "unpack_ok typed_abi" by (auto simp: unpack_ok_def typed_abi_def native_width_def split: if_splits)
  have e: "eventABIs ?d ''sig'' = Some batch_event" by simp
  obtain m where m: "DecodeEventToMap typed_abi ?d ''sig'' [1] [] = Inr m" "m ''values'' = Some (VSeq [VBigInt 1])"
    "is_ok (decode_data typed_abi batch_event [1])"
    by (simp add: DecodeEventToMap_def decode_data_def decode_topics_def typed_abi_def batch_event_def show_value_def)
  then show ?thesis using decoded_map_types [OF ok e m(1,2)] by auto
qed

end
