(* ===== verification/Go_Channel.thy ===== *)
theory Go_Channel
  imports Go_Prelude
begin

text \<open>
  Go's buffered channels. An operation goes on with a result, blocks, or panics; a send in a
  \<open>select\<close> with a default drops the value when the buffer is full. \<open>transfers\<close> states what a
  channel does to values over any sequence of operations.
\<close>

datatype 'a go_step = Goes 'a | Blocks | Panics

fun bind_step :: "'a go_step \<Rightarrow> ('a \<Rightarrow> 'b go_step) \<Rightarrow> 'b go_step" where
  "bind_step (Goes a) f = f a"
| "bind_step Blocks f = Blocks"
| "bind_step Panics f = Panics"

lemma bind_step_Goes [result_simps]: "(bind_step r f = Goes b) = (\<exists>a. r = Goes a \<and> f a = Goes b)"
  by (cases r) auto

lemma bind_step_cong [fundef_cong]:
  "r = r' \<Longrightarrow> (\<And>a. r' = Goes a \<Longrightarrow> f a = f' a) \<Longrightarrow> bind_step r f = bind_step r' f'"
  by (cases r') auto

record 'a chan =
  ch_buf :: "'a list"
  ch_cap :: nat
  ch_closed :: bool

definition make_chan :: "nat \<Rightarrow> 'a chan" where
  "make_chan n = \<lparr>ch_buf = [], ch_cap = n, ch_closed = False\<rparr>"

definition chan_send :: "'a \<Rightarrow> 'a chan \<Rightarrow> 'a chan go_step" where
  "chan_send x c =
     (if ch_closed c then Panics
      else if length (ch_buf c) < ch_cap c then Goes (c\<lparr>ch_buf := ch_buf c @ [x]\<rparr>) else Blocks)"

definition chan_try_send :: "'a \<Rightarrow> 'a chan \<Rightarrow> 'a chan go_step" where
  "chan_try_send x c = (case chan_send x c of Blocks \<Rightarrow> Goes c | r \<Rightarrow> r)"

text \<open>Receiving answers \<open>None\<close> when the channel is closed and drained.\<close>

definition chan_recv :: "'a chan \<Rightarrow> ('a option \<times> 'a chan) go_step" where
  "chan_recv c =
     (case ch_buf c of
        x # xs \<Rightarrow> Goes (Some x, c\<lparr>ch_buf := xs\<rparr>)
      | [] \<Rightarrow> if ch_closed c then Goes (None, c) else Blocks)"

definition chan_close :: "'a chan \<Rightarrow> 'a chan go_step" where
  "chan_close c = (if ch_closed c then Panics else Goes (c\<lparr>ch_closed := True\<rparr>))"

text \<open>A channel's history: the values that went in, those that came out, and the channel.\<close>

definition transfers :: "'a list \<Rightarrow> 'a list \<Rightarrow> 'a chan \<Rightarrow> bool" where
  "transfers ins outs c = (ins = outs @ ch_buf c \<and> length (ch_buf c) \<le> ch_cap c)"

named_theorems chan_facts \<open>channels and their histories\<close>

lemma transfers_make [chan_facts]: "transfers [] [] (make_chan n)"
  by (simp add: transfers_def make_chan_def)

lemma transfers_send [chan_facts]:
  "transfers ins outs c \<Longrightarrow> chan_send x c = Goes c' \<Longrightarrow> transfers (ins @ [x]) outs c'"
  by (auto simp: transfers_def chan_send_def split: if_splits)

lemma transfers_recv [chan_facts]:
  "transfers ins outs c \<Longrightarrow> chan_recv c = Goes (Some x, c') \<Longrightarrow> transfers ins (outs @ [x]) c'"
  by (auto simp: transfers_def chan_recv_def split: list.splits if_splits)

lemma transfers_recv_None [chan_facts]:
  "chan_recv c = Goes (None, c') \<Longrightarrow> c' = c \<and> ch_closed c \<and> ch_buf c = []"
  by (auto simp: chan_recv_def split: list.splits if_splits)

lemma transfers_close [chan_facts]:
  "transfers ins outs c \<Longrightarrow> chan_close c = Goes c' \<Longrightarrow> transfers ins outs c'"
  by (auto simp: transfers_def chan_close_def split: if_splits)

lemma chan_send_cap: "chan_send x c = Goes c' \<Longrightarrow> ch_cap c' = ch_cap c \<and> \<not> ch_closed c \<and> \<not> ch_closed c'"
  by (auto simp: chan_send_def split: if_splits)

lemma chan_recv_cap: "chan_recv c = Goes (y, c') \<Longrightarrow> ch_cap c' = ch_cap c \<and> ch_closed c' = ch_closed c"
  by (auto simp: chan_recv_def split: if_splits list.splits)

lemma chan_close_cap: "chan_close c = Goes c' \<Longrightarrow> ch_cap c' = ch_cap c \<and> \<not> ch_closed c \<and> ch_closed c'"
  by (auto simp: chan_close_def split: if_splits)

end
