(* ===== verification/Event_Producer.thy ===== *)
theory Event_Producer
  imports Eth_Decoder Go_Channel
begin

text \<open>
  \<open>pkg/eventproducer/eventproducer.go\<close> and the payload of \<open>types/types.go\<close>: events for the
  runners go through a channel of 100 to one goroutine, which hands them to Redis. Redis and
  \<open>json.Marshal\<close> on payloads (whose parameters hold values of the ABI library) are arguments:
  each step of the goroutine carries whether Redis took the message. Redis keeps nothing of what
  is published to a channel; \<open>pr_redis\<close> is what it has been given to pass on, with the channel.
\<close>

record 'x payload =
  pl_Params :: "'x dmap"
  pl_TransactionHash :: string
  pl_Timestamp :: u64
  pl_BlockNumber :: u64
  pl_BlockHash :: string
  pl_ContractAddress :: string
  pl_EventName :: string
  pl_EventSignature :: string
  pl_EventData :: "byte list"
  pl_EventLogIndex :: u64
  pl_ChainID :: int

record 'x producer =
  pr_ch :: "'x payload chan"
  pr_redis :: "(string \<times> string) list"

definition NewRunnerEventProducer :: "'x producer" where
  "NewRunnerEventProducer = \<lparr>pr_ch = make_chan 100, pr_redis = []\<rparr>"

definition channel_key :: "'x payload \<Rightarrow> string" where
  "channel_key evt = to_lower (''event_log_'' @ fmt_d (pl_ChainID evt) @ ''_'' @
     pl_ContractAddress evt @ ''_'' @ pl_EventName evt)"

definition producer_handle ::
  "('x payload \<Rightarrow> string res) \<Rightarrow> bool \<Rightarrow> 'x payload \<Rightarrow> (string \<times> string) list \<Rightarrow> (string \<times> string) list" where
  "producer_handle marshal accepted evt redis =
     (case marshal evt of
        Inl err \<Rightarrow> redis
      | Inr data \<Rightarrow> if accepted then redis @ [(channel_key evt, data)] else redis)"

definition producer_Publish :: "'x payload \<Rightarrow> 'x producer \<Rightarrow> 'x producer go_step" where
  "producer_Publish evt p = bind_step (chan_send evt (pr_ch p)) (\<lambda>c. Goes (p\<lparr>pr_ch := c\<rparr>))"

definition producer_Stop :: "'x producer \<Rightarrow> 'x producer go_step" where
  "producer_Stop p = bind_step (chan_close (pr_ch p)) (\<lambda>c. Goes (p\<lparr>pr_ch := c\<rparr>))"

text \<open>One turn of the goroutine; \<open>None\<close>: its loop has ended.\<close>

definition producer_turn ::
  "('x payload \<Rightarrow> string res) \<Rightarrow> bool \<Rightarrow> 'x producer \<Rightarrow> ('x payload option \<times> 'x producer) go_step" where
  "producer_turn marshal accepted p =
     bind_step (chan_recv (pr_ch p))
       (\<lambda>(evt, c). case evt of
          None \<Rightarrow> Goes (None, p)
        | Some e \<Rightarrow> Goes (Some e, p\<lparr>pr_ch := c, pr_redis := producer_handle marshal accepted e (pr_redis p)\<rparr>))"

section \<open>Executions\<close>

datatype 'x prod_op = Pub "'x payload" | Turn bool | StopProd

text \<open>The trace holds what the goroutine handled, with Redis's answer.\<close>

fun producer_exec ::
  "('x payload \<Rightarrow> string res) \<Rightarrow> 'x prod_op list \<Rightarrow> 'x producer \<Rightarrow>
   (('x payload \<times> bool) list \<times> 'x producer) go_step" where
  "producer_exec marshal [] p = Goes ([], p)"
| "producer_exec marshal (Pub e # ops) p = bind_step (producer_Publish e p) (producer_exec marshal ops)"
| "producer_exec marshal (StopProd # ops) p = bind_step (producer_Stop p) (producer_exec marshal ops)"
| "producer_exec marshal (Turn ok # ops) p =
     bind_step (producer_turn marshal ok p)
       (\<lambda>(evt, p'). bind_step (producer_exec marshal ops p')
          (\<lambda>(hs, p''). Goes ((case evt of None \<Rightarrow> hs | Some e \<Rightarrow> (e, ok) # hs), p'')))"

fun published :: "'x prod_op list \<Rightarrow> 'x payload list" where
  "published [] = []"
| "published (Pub e # ops) = e # published ops"
| "published (_ # ops) = published ops"

lemma producer_exec_history:
  "producer_exec marshal ops p = Goes (hs, p') \<Longrightarrow> transfers ins outs (pr_ch p) \<Longrightarrow>
   transfers (ins @ published ops) (outs @ map fst hs) (pr_ch p') \<and>
   pr_redis p' = foldl (\<lambda>r (e, ok). producer_handle marshal ok e r) (pr_redis p) hs \<and>
   ch_cap (pr_ch p') = ch_cap (pr_ch p)"
proof (induction ops arbitrary: p hs ins outs)
  case (Cons op ops)
  show ?case
  proof (cases op)
    case (Pub e)
    then obtain c where c: "chan_send e (pr_ch p) = Goes c" "producer_exec marshal ops (p\<lparr>pr_ch := c\<rparr>) = Goes (hs, p')"
      using Cons.prems(1) by (auto simp: producer_Publish_def result_simps)
    show ?thesis
      using Cons.IH [OF c(2), of "ins @ [e]" outs] transfers_send [OF Cons.prems(2) c(1)] Pub chan_send_cap [OF c(1)] by simp
  next
    case StopProd
    then obtain c where c: "chan_close (pr_ch p) = Goes c" "producer_exec marshal ops (p\<lparr>pr_ch := c\<rparr>) = Goes (hs, p')"
      using Cons.prems(1) by (auto simp: producer_Stop_def result_simps)
    show ?thesis
      using Cons.IH [OF c(2), of ins outs] transfers_close [OF Cons.prems(2) c(1)] StopProd chan_close_cap [OF c(1)] by simp
  next
    case (Turn ok)
    then obtain evt p1 hs1 where t: "producer_turn marshal ok p = Goes (evt, p1)"
        "producer_exec marshal ops p1 = Goes (hs1, p')" "hs = (case evt of None \<Rightarrow> hs1 | Some e \<Rightarrow> (e, ok) # hs1)"
      using Cons.prems(1) by (auto simp: result_simps)
    show ?thesis
    proof (cases evt)
      case None
      then have "p1 = p" using t(1) by (auto simp: producer_turn_def result_simps split: option.splits)
      then show ?thesis using Cons.IH [OF t(2)] Cons.prems(2) Turn None t(3) by simp
    next
      case (Some e)
      then obtain c where c: "chan_recv (pr_ch p) = Goes (Some e, c)"
          "p1 = p\<lparr>pr_ch := c, pr_redis := producer_handle marshal ok e (pr_redis p)\<rparr>"
        using t(1) by (auto simp: producer_turn_def result_simps split: option.splits)
      show ?thesis
        using Cons.IH [OF t(2), of ins "outs @ [e]"] transfers_recv [OF Cons.prems(2) c(1)] Turn Some t(3) c(2) chan_recv_cap [OF c(1)] by simp
    qed
  qed
qed simp

text \<open>What the handling of some events passes on, without the code's own steps.\<close>

definition event_message :: "('x payload \<Rightarrow> string res) \<Rightarrow> 'x payload \<times> bool \<Rightarrow> (string \<times> string) list" where
  "event_message marshal h = (case h of (e, accepted) \<Rightarrow>
     if accepted \<and> is_ok (marshal e)
     then [(''event_log_'' @ fmt_d (pl_ChainID e) @ ''_'' @ to_lower (pl_ContractAddress e) @ ''_'' @ to_lower (pl_EventName e),
       projr (marshal e))]
     else [])"

lemma lower_underscore: "lower_char (CHR ''_'') = CHR ''_''"
  by code_simp

lemma channel_key_text:
  "channel_key e = ''event_log_'' @ fmt_d (pl_ChainID e) @ ''_'' @ to_lower (pl_ContractAddress e) @ ''_'' @ to_lower (pl_EventName e)"
proof -
  have "to_lower ''event_log_'' = ''event_log_''" by code_simp
  then show ?thesis by (simp only: channel_key_def to_lower_append lower_fmt_d) (simp add: lower_underscore)
qed

lemma handled_messages:
  "foldl (\<lambda>r (e, ok). producer_handle marshal ok e r) redis hs = redis @ concat (map (event_message marshal) hs)"
  by (induction hs arbitrary: redis)
    (auto simp: producer_handle_def event_message_def channel_key_text split: sum.split)

text \<open>As many turns as events wait take them all.\<close>

lemma drain_turns:
  "producer_exec marshal (replicate (length (ch_buf (pr_ch p))) (Turn True)) p =
     Goes (map (\<lambda>e. (e, True)) (ch_buf (pr_ch p)),
       p\<lparr>pr_ch := (pr_ch p)\<lparr>ch_buf := []\<rparr>, pr_redis := pr_redis p @ concat (map (\<lambda>e. event_message marshal (e, True)) (ch_buf (pr_ch p)))\<rparr>)"
proof (induction "ch_buf (pr_ch p)" arbitrary: p)
  case Nil
  from Nil [symmetric] show ?case by (cases p; cases "pr_ch p") simp
next
  case (Cons e es)
  let ?p = "p\<lparr>pr_ch := (pr_ch p)\<lparr>ch_buf := es\<rparr>, pr_redis := producer_handle marshal True e (pr_redis p)\<rparr>"
  have t: "producer_turn marshal True p = Goes (Some e, ?p)"
    by (simp add: producer_turn_def chan_recv_def Cons.hyps(2) [symmetric])
  have "producer_handle marshal True e (pr_redis p) = pr_redis p @ event_message marshal (e, True)"
    using handled_messages [of marshal "pr_redis p" "[(e, True)]"] by simp
  then show ?case using Cons.hyps(1) [of ?p] by (simp add: Cons.hyps(2) [symmetric] t)
qed

text \<open>
  C34. In every execution, at most 100 events wait; the events handled, followed by those that
  wait, are exactly the events published, in order, so none is lost or duplicated on the way
  to the goroutine, even when the producer is stopped with events waiting: as many turns as
  events wait take them all. What Redis is given is, in order, the JSON text of each event
  handled on the channel event_log_, chain, contract and event (the texts in lower case), but
  for the events that do not marshal and those that Redis refuses, which are dropped.
\<close>

theorem producer_delivers_in_order:
  assumes "producer_exec marshal ops NewRunnerEventProducer = Goes (hs, p)"
  shows "published ops = map fst hs @ ch_buf (pr_ch p) \<and> length (ch_buf (pr_ch p)) \<le> 100
    \<and> pr_redis p = concat (map (event_message marshal) hs)
    \<and> (\<exists>hs' p'. producer_exec marshal (replicate (length (ch_buf (pr_ch p))) (Turn True)) p = Goes (hs', p') \<and>
        map fst (hs @ hs') = published ops \<and> ch_buf (pr_ch p') = [] \<and>
        pr_redis p' = concat (map (event_message marshal) (hs @ hs')))"
proof -
  have P: "published ops = map fst hs @ ch_buf (pr_ch p)" "length (ch_buf (pr_ch p)) \<le> 100"
    "pr_redis p = concat (map (event_message marshal) hs)"
    using producer_exec_history [OF assms, of "[]" "[]"] handled_messages [of marshal "[]" hs]
    by (simp_all add: NewRunnerEventProducer_def transfers_make) (simp_all add: transfers_def make_chan_def)
  then show ?thesis using drain_turns [of marshal p] by (auto simp: comp_def)
qed

definition blank_payload :: "string \<Rightarrow> unit payload" where
  "blank_payload name = \<lparr>pl_Params = Map.empty, pl_TransactionHash = [], pl_Timestamp = 0,
     pl_BlockNumber = 0, pl_BlockHash = [], pl_ContractAddress = ''0xAB'', pl_EventName = name,
     pl_EventSignature = [], pl_EventData = [], pl_EventLogIndex = 0, pl_ChainID = 39\<rparr>"

definition sample_prod_ops :: "unit prod_op list" where
  "sample_prod_ops = [Pub (blank_payload ''A''), Pub (blank_payload ''B''), StopProd, Turn True]"

lemma sample_prod_run:
  "producer_exec (\<lambda>e. Inr (pl_EventName e)) sample_prod_ops NewRunnerEventProducer =
   Goes ([(blank_payload ''A'', True)],
     \<lparr>pr_ch = \<lparr>ch_buf = [blank_payload ''B''], ch_cap = 100, ch_closed = True\<rparr>,
      pr_redis = [(channel_key (blank_payload ''A''), ''A'')]\<rparr>)"
  by (simp add: sample_prod_ops_def NewRunnerEventProducer_def make_chan_def producer_Publish_def
      chan_send_def producer_Stop_def chan_close_def producer_turn_def chan_recv_def producer_handle_def
      blank_payload_def)

theorem producer_delivers_in_order_witness:
  "\<exists>hs p. producer_exec (\<lambda>e. Inr (pl_EventName e)) sample_prod_ops NewRunnerEventProducer = Goes (hs, p) \<and>
     published sample_prod_ops = map fst hs @ [blank_payload ''B''] \<and>
     pr_redis p = [(''event_log_39_0xab_a'', ''A'')]"
proof -
  have "digits 10 39 = ''39''" by code_simp
  moreover have "to_lower ''0xAB'' = ''0xab''" "to_lower ''A'' = ''a''" by code_simp+
  ultimately have m: "event_message (\<lambda>e. Inr (pl_EventName e)) (blank_payload ''A'', True) = [(''event_log_39_0xab_a'', ''A'')]"
    by (simp add: event_message_def blank_payload_def fmt_d_def del: to_lower_Cons)
  show ?thesis using producer_delivers_in_order [OF sample_prod_run] sample_prod_run m by simp
qed

lemma producer_turn_closed:
  assumes "producer_turn marshal ok p = Goes (evt, p1)"
  shows "ch_closed (pr_ch p1) = ch_closed (pr_ch p)"
proof -
  obtain e c where c: "chan_recv (pr_ch p) = Goes (e, c)"
    and p1: "(case e of None \<Rightarrow> Goes (None, p) | Some x \<Rightarrow>
      Goes (Some x, p\<lparr>pr_ch := c, pr_redis := producer_handle marshal ok x (pr_redis p)\<rparr>)) = Goes (evt, p1)"
    using assms by (auto simp: producer_turn_def bind_step_Goes)
  then show ?thesis using chan_recv_cap [OF c] by (cases e) auto
qed

lemma closed_exec:
  "producer_exec marshal ops p = Goes (hs, p') \<Longrightarrow> ch_closed (pr_ch p) \<or> StopProd \<in> set ops \<Longrightarrow>
   ch_closed (pr_ch p')"
proof (induction ops arbitrary: p hs)
  case (Cons op ops)
  show ?case
  proof (cases op)
    case (Pub e)
    then obtain c where "chan_send e (pr_ch p) = Goes c" "producer_exec marshal ops (p\<lparr>pr_ch := c\<rparr>) = Goes (hs, p')"
      using Cons.prems(1) by (auto simp: producer_Publish_def result_simps)
    then show ?thesis using Cons.IH [of "p\<lparr>pr_ch := c\<rparr>" hs] Cons.prems(2) Pub chan_send_cap [of e "pr_ch p" c] by simp
  next
    case StopProd
    then obtain c where "chan_close (pr_ch p) = Goes c" "producer_exec marshal ops (p\<lparr>pr_ch := c\<rparr>) = Goes (hs, p')"
      using Cons.prems(1) by (auto simp: producer_Stop_def result_simps)
    then show ?thesis using Cons.IH [of "p\<lparr>pr_ch := c\<rparr>" hs] chan_close_cap [of "pr_ch p" c] by simp
  next
    case (Turn ok)
    then obtain evt p1 hs1 where t: "producer_turn marshal ok p = Goes (evt, p1)"
        "producer_exec marshal ops p1 = Goes (hs1, p')"
      using Cons.prems(1) by (auto simp: result_simps)
    have "ch_closed (pr_ch p1) = ch_closed (pr_ch p)" by (rule producer_turn_closed [OF t(1)])
    then show ?thesis using Cons.IH [OF t(2)] Cons.prems(2) Turn by auto
  qed
qed simp

text \<open>
  Once the producer has been stopped, publishing panics and so does stopping it again, in
  every later state. The shutdown of the service stops the producer before it stops the
  monitor, whose poll publishes the events it finds.
\<close>

theorem publish_after_stop_panics:
  assumes "producer_exec marshal ops NewRunnerEventProducer = Goes (hs, p)" and "StopProd \<in> set ops"
  shows "producer_Publish evt p = Panics \<and> producer_Stop p = Panics"
  using closed_exec [OF assms(1)] assms(2)
  by (simp add: producer_Publish_def producer_Stop_def chan_send_def chan_close_def)

theorem publish_after_stop_panics_witness:
  "\<exists>hs p. producer_exec (\<lambda>e. Inr (pl_EventName e)) sample_prod_ops NewRunnerEventProducer = Goes (hs, p) \<and>
     producer_Publish (blank_payload ''C'') p = Panics"
  using publish_after_stop_panics [OF sample_prod_run, of "blank_payload ''C''"] sample_prod_run
  by (simp add: sample_prod_ops_def)

end
