(* ===== verification/Store.thy ===== *)
theory Store
  imports Go_Strings "HOL-Library.Word"
begin

text \<open>
  The database as the service uses it. The client code is generated by Prisma and not part of
  the repository, so the queries are the fields of a record over an abstract database state;
  \<open>log_store_ok\<close> states what the queries on the event log promise each other. Errors carry a
  text; a query for one row answers the row, or the error \<open>ErrNotFound\<close>. Where the code wraps a
  database error into a message, the models of the internal components keep the message only.
\<close>

datatype db_error = ErrNotFound | DbError string

record contract =
  ct_ID :: string
  ct_ChainID :: int
  ct_Address :: string
  ct_EventName :: string
  ct_EventSignature :: string
  ct_EventABI :: string
  ct_StartBlock :: int

record event_row =
  er_ID :: string
  er_ContractID :: string
  er_BlockNumber :: int
  er_TxHash :: string
  er_LogIndex :: int
  er_Data :: string

text \<open>The key a log is looked up and stored under: contract, block, transaction, index.\<close>

type_synonym log_key = "string \<times> int \<times> string \<times> int"

record 'db store =
  st_FindContract :: "int \<Rightarrow> string \<Rightarrow> string \<Rightarrow> 'db \<Rightarrow> db_error + contract"
  st_FindLog :: "log_key \<Rightarrow> 'db \<Rightarrow> db_error + event_row"
  st_CreateLog :: "log_key \<Rightarrow> string \<Rightarrow> 'db \<Rightarrow> db_error option \<times> 'db"

definition log_store_ok :: "'db store \<Rightarrow> bool" where
  "log_store_ok S =
     ((\<forall>k d db db'. st_CreateLog S k d db = (None, db') \<longrightarrow>
         is_ok (st_FindLog S k db') \<and>
         (\<forall>k'. k' \<noteq> k \<longrightarrow> st_FindLog S k' db' = st_FindLog S k' db)) \<and>
      (\<forall>k d db e db'. st_CreateLog S k d db = (Some e, db') \<longrightarrow> db' = db) \<and>
      (\<forall>k d db c a s. st_FindContract S c a s (snd (st_CreateLog S k d db)) = st_FindContract S c a s db))"

lemma log_store_okD:
  assumes "log_store_ok S"
  shows "st_CreateLog S k d db = (None, db') \<Longrightarrow> is_ok (st_FindLog S k db')"
    and "st_CreateLog S k d db = (None, db') \<Longrightarrow> k' \<noteq> k \<Longrightarrow> st_FindLog S k' db' = st_FindLog S k' db"
    and "st_CreateLog S k d db = (Some e, db') \<Longrightarrow> db' = db"
    and "st_CreateLog S k d db = (r, db') \<Longrightarrow> st_FindContract S c a s db' = st_FindContract S c a s db"
proof -
  show "st_CreateLog S k d db = (None, db') \<Longrightarrow> is_ok (st_FindLog S k db')"
    "st_CreateLog S k d db = (None, db') \<Longrightarrow> k' \<noteq> k \<Longrightarrow> st_FindLog S k' db' = st_FindLog S k' db"
    "st_CreateLog S k d db = (Some e, db') \<Longrightarrow> db' = db"
    using assms unfolding log_store_ok_def by blast+
  show "st_CreateLog S k d db = (r, db') \<Longrightarrow> st_FindContract S c a s db' = st_FindContract S c a s db"
    using assms unfolding log_store_ok_def by (metis snd_conv)
qed

text \<open>Tables as lists: functions that keep the promises.\<close>

type_synonym tables = "contract list \<times> event_row list"

definition row_key :: "event_row \<Rightarrow> log_key" where
  "row_key r = (er_ContractID r, er_BlockNumber r, er_TxHash r, er_LogIndex r)"

definition first_row :: "('a \<Rightarrow> bool) \<Rightarrow> 'a list \<Rightarrow> db_error + 'a" where
  "first_row P rows = (case find P rows of Some r \<Rightarrow> Inr r | None \<Rightarrow> Inl ErrNotFound)"

fun make_row :: "log_key \<Rightarrow> string \<Rightarrow> event_row" where
  "make_row (c, b, t, i) d = \<lparr>er_ID = [], er_ContractID = c, er_BlockNumber = b, er_TxHash = t,
     er_LogIndex = i, er_Data = d\<rparr>"

definition table_store :: "tables store" where
  "table_store = \<lparr>
     st_FindContract = (\<lambda>c a s (cs, rows).
       first_row (\<lambda>x. ct_ChainID x = c \<and> ct_Address x = a \<and> ct_EventSignature x = s) cs),
     st_FindLog = (\<lambda>k (cs, rows). first_row (\<lambda>r. row_key r = k) rows),
     st_CreateLog = (\<lambda>k d (cs, rows). (None, (cs, rows @ [make_row k d])))\<rparr>"

lemma row_key_make [simp]: "row_key (make_row k d) = k"
  by (cases k) (simp add: row_key_def)

declare make_row.simps [simp del]

lemma find_append_one: "find P (xs @ [x]) = (case find P xs of Some y \<Rightarrow> Some y | None \<Rightarrow> if P x then Some x else None)"
  by (induction xs) auto

lemma table_store_sel:
  "st_FindContract table_store c a s (cs, rows) =
     first_row (\<lambda>x. ct_ChainID x = c \<and> ct_Address x = a \<and> ct_EventSignature x = s) cs"
  "st_FindLog table_store k (cs, rows) = first_row (\<lambda>r. row_key r = k) rows"
  "st_CreateLog table_store k d (cs, rows) = (None, (cs, rows @ [make_row k d]))"
  by (simp_all add: table_store_def)

lemma table_store_ok: "log_store_ok table_store"
  by (auto simp: log_store_ok_def table_store_def first_row_def find_append_one split: option.splits)

end
