(* ===== verification/Eth_Client.thy ===== *)
theory Eth_Client
  imports Event_Producer Store
begin

text \<open>
  \<open>pkg/ethereum/client.go\<close>: fetching the logs of a contract's event, storing each once and
  publishing it. The node is an argument: its answer to a filter query, and the time of a block.
  The state is the database and the sequence of payloads given to the producer.
\<close>

record eth_log =
  lg_Topics :: "byte list list"
  lg_Data :: "byte list"
  lg_BlockNumber :: u64
  lg_TxHash :: "byte list"
  lg_BlockHash :: "byte list"
  lg_Index :: u64

record filter_query =
  fq_FromBlock :: int
  fq_ToBlock :: int
  fq_Addresses :: "byte list list"
  fq_Topics :: "byte list list list"

record ('x, 'db) client =
  cl_abi :: "'x abi_lib"
  cl_store :: "'db store"
  cl_block_time :: "int \<Rightarrow> string + u64"
  cl_decoder :: event_decoder

record ('x, 'db) client_st =
  cs_db :: 'db
  cs_pub :: "'x payload list"

type_synonym time_cache = "u64 \<rightharpoonup> u64"

datatype log_outcome = Skipped | Stored | LogError string

abbreviation cl_geth :: "('x, 'db) client \<Rightarrow> geth" where
  "cl_geth c \<equiv> ab_geth (cl_abi c)"

text \<open>\<open>header.Number.Uint64()\<close> keeps the low 64 bits.\<close>

definition GetLatestBlock :: "string + int \<Rightarrow> u64 res" where
  "GetLatestBlock header =
     (case header of Inl err \<Rightarrow> Inl (''failed to get latest block: '' @ err) | Inr n \<Rightarrow> Inr (u64_of_int n))"

section \<open>One log\<close>

definition contract_key :: "('x, 'db) client \<Rightarrow> byte list \<Rightarrow> byte list \<Rightarrow> string \<times> string" where
  "contract_key c contractAddress eventSignature =
     (to_lower (g_AddressHex (cl_geth c) contractAddress), g_HashHex (cl_geth c) eventSignature)"

definition log_key_of :: "('x, 'db) client \<Rightarrow> contract \<Rightarrow> eth_log \<Rightarrow> log_key" where
  "log_key_of c ct l =
     (ct_ID ct, int64_of (lg_BlockNumber l), to_lower (g_HashHex (cl_geth c) (lg_TxHash l)), int64_of (lg_Index l))"

text \<open>The payload; \<open>Topics[0]\<close> panics on a log without topics, checked where it is built.\<close>

definition log_payload ::
  "('x, 'db) client \<Rightarrow> byte list \<Rightarrow> byte list \<Rightarrow> int \<Rightarrow> eth_log \<Rightarrow> 'x dmap \<Rightarrow> u64 \<Rightarrow> 'x payload" where
  "log_payload c contractAddress eventSignature chainID l params ts =
     \<lparr>pl_Params = params,
      pl_TransactionHash = g_HashHex (cl_geth c) (lg_TxHash l),
      pl_Timestamp = ts,
      pl_BlockNumber = lg_BlockNumber l,
      pl_BlockHash = g_HashHex (cl_geth c) (lg_BlockHash l),
      pl_ContractAddress = g_AddressHex (cl_geth c) contractAddress,
      pl_EventName = (case eventABIs (cl_decoder c) (g_HashString (cl_geth c) eventSignature) of
                        Some e \<Rightarrow> ev_Name e | None \<Rightarrow> []),
      pl_EventSignature = g_HashHex (cl_geth c) (hd (lg_Topics l)),
      pl_EventData = lg_Data l,
      pl_EventLogIndex = lg_Index l,
      pl_ChainID = chainID\<rparr>"

text \<open>\<open>timestampCache\<close>, or the node on a miss; a failed fetch is not cached.\<close>

definition block_timestamp ::
  "('x, 'db) client \<Rightarrow> u64 \<Rightarrow> time_cache \<Rightarrow> string + u64 \<times> time_cache" where
  "block_timestamp c bn cache =
     (case cache bn of
        Some ts \<Rightarrow> Inr (ts, cache)
      | None \<Rightarrow>
          (case cl_block_time c (int64_of bn) of
             Inl err \<Rightarrow> Inl (''failed to get block: '' @ err)
           | Inr ts \<Rightarrow> Inr (ts, cache(bn \<mapsto> ts))))"

text \<open>
  Decoding for the runners and publishing; the failed decoding publishes nothing. The producer is
  taken to accept the payload: \<open>Publish\<close> itself (\<open>producer_Publish\<close>) waits while its channel is full,
  and panics once the producer was stopped.
\<close>

definition publish_log ::
  "('x, 'db) client \<Rightarrow> byte list \<Rightarrow> byte list \<Rightarrow> int \<Rightarrow> eth_log \<Rightarrow> ('x, 'db) client_st \<Rightarrow> time_cache \<Rightarrow>
   (string + ('x, 'db) client_st \<times> time_cache) go_step" where
  "publish_log c contractAddress eventSignature chainID l st cache =
     (case DecodeEventToMap (cl_abi c) (cl_decoder c) (g_HashHex (cl_geth c) eventSignature)
             (lg_Data l) (lg_Topics l) of
        Inl err \<Rightarrow> Goes (Inr (st, cache))
      | Inr params \<Rightarrow>
          (case block_timestamp c (lg_BlockNumber l) cache of
             Inl err \<Rightarrow> Goes (Inl err)
           | Inr (ts, cache') \<Rightarrow>
               if lg_Topics l = [] then Panics
               else Goes (Inr (st\<lparr>cs_pub := cs_pub st @
                      [log_payload c contractAddress eventSignature chainID l params ts]\<rparr>, cache'))))"

definition processEventLog ::
  "('x, 'db) client \<Rightarrow> byte list \<Rightarrow> byte list \<Rightarrow> int \<Rightarrow> eth_log \<Rightarrow> ('x, 'db) client_st \<Rightarrow> time_cache \<Rightarrow>
   (log_outcome \<times> ('x, 'db) client_st \<times> time_cache) go_step" where
  "processEventLog c contractAddress eventSignature chainID l st cache =
     (let (addr, sig) = contract_key c contractAddress eventSignature in
      case st_FindContract (cl_store c) chainID addr sig (cs_db st) of
        Inl err \<Rightarrow> Goes (LogError ''error finding contract'', st, cache)
      | Inr ct \<Rightarrow>
          let key = log_key_of c ct l in
          if is_ok (st_FindLog (cl_store c) key (cs_db st)) then Goes (Skipped, st, cache)
          else
            let decodedData =
                  (case DecodeEvent (cl_abi c) (cl_decoder c) sig (lg_Data l) (lg_Topics l) of
                     Inl err \<Rightarrow> raw_json (g_Bytes2Hex (cl_geth c) (lg_Data l))
                   | Inr s \<Rightarrow> s)
            in bind_step (publish_log c contractAddress eventSignature chainID l st cache)
                 (\<lambda>r. case r of
                    Inl err \<Rightarrow> Goes (LogError err, st, cache)
                  | Inr (st1, cache1) \<Rightarrow>
                      (case st_CreateLog (cl_store c) key decodedData (cs_db st1) of
                         (Some err, db) \<Rightarrow> Goes (LogError ''error creating event log'', st1\<lparr>cs_db := db\<rparr>, cache1)
                       | (None, db) \<Rightarrow> Goes (Stored, st1\<lparr>cs_db := db\<rparr>, cache1))))"

section \<open>All logs of a query\<close>

fun process_logs ::
  "('x, 'db) client \<Rightarrow> byte list \<Rightarrow> byte list \<Rightarrow> int \<Rightarrow> eth_log list \<Rightarrow> ('x, 'db) client_st \<Rightarrow> time_cache \<Rightarrow>
   (log_outcome list \<times> ('x, 'db) client_st) go_step" where
  "process_logs c addr sig chainID [] st cache = Goes ([], st)"
| "process_logs c addr sig chainID (l # ls) st cache =
     bind_step (processEventLog c addr sig chainID l st cache)
       (\<lambda>(out, st1, cache1). bind_step (process_logs c addr sig chainID ls st1 cache1)
          (\<lambda>(outs, st2). Goes (out # outs, st2)))"

definition FilterLogs ::
  "('x, 'db) client \<Rightarrow> (filter_query \<Rightarrow> string + eth_log list) \<Rightarrow> byte list \<Rightarrow> byte list \<Rightarrow> int \<Rightarrow> int \<Rightarrow> int \<Rightarrow>
   ('x, 'db) client_st \<Rightarrow> (eth_log list res \<times> ('x, 'db) client_st) go_step" where
  "FilterLogs c node contractAddress eventSignature fromBlock toBlock chainID st =
     (case node \<lparr>fq_FromBlock = fromBlock, fq_ToBlock = toBlock,
                 fq_Addresses = [contractAddress], fq_Topics = [[eventSignature]]\<rparr> of
        Inl err \<Rightarrow> Goes (Inl (''failed to filter logs: '' @ err), st)
      | Inr logs \<Rightarrow>
          bind_step (process_logs c contractAddress eventSignature chainID logs st Map.empty)
            (\<lambda>(outs, st'). Goes (Inr logs, st')))"

text \<open>\<open>RegisterEventABI\<close>, \<open>GetDecoder\<close>.\<close>

definition RegisterEventABI ::
  "string \<Rightarrow> string \<Rightarrow> ('x, 'db) client \<Rightarrow> string option \<times> ('x, 'db) client" where
  "RegisterEventABI eventSignature eventABI c =
     (let (err, d) = RegisterEvent (cl_abi c) eventSignature eventABI (cl_decoder c)
      in (err, c\<lparr>cl_decoder := d\<rparr>))"

definition GetDecoder :: "('x, 'db) client \<Rightarrow> event_decoder" where
  "GetDecoder c = cl_decoder c"

section \<open>What happens to one log\<close>

definition log_params :: "('x, 'db) client \<Rightarrow> byte list \<Rightarrow> eth_log \<Rightarrow> 'x dmap" where
  "log_params c sig l =
     projr (DecodeEventToMap (cl_abi c) (cl_decoder c) (g_HashHex (cl_geth c) sig) (lg_Data l) (lg_Topics l))"

lemma decode_map_total:
  "DecodeEventToMap (cl_abi c) (cl_decoder c) (g_HashHex (cl_geth c) sig) (lg_Data l) (lg_Topics l) =
   Inr (log_params c sig l)"
  using decoders_total [of "cl_abi c" "cl_decoder c" "g_HashHex (cl_geth c) sig" "lg_Data l" "lg_Topics l"]
  by (auto simp: log_params_def)

definition log_text :: "('x, 'db) client \<Rightarrow> byte list \<Rightarrow> eth_log \<Rightarrow> string" where
  "log_text c sig l =
     (case DecodeEvent (cl_abi c) (cl_decoder c) (g_HashHex (cl_geth c) sig) (lg_Data l) (lg_Topics l) of
        Inl err \<Rightarrow> raw_json (g_Bytes2Hex (cl_geth c) (lg_Data l)) | Inr s \<Rightarrow> s)"

definition contract_found ::
  "('x, 'db) client \<Rightarrow> byte list \<Rightarrow> byte list \<Rightarrow> int \<Rightarrow> contract \<Rightarrow> 'db \<Rightarrow> bool" where
  "contract_found c addr sig chain ct db =
     (st_FindContract (cl_store c) chain (fst (contract_key c addr sig)) (snd (contract_key c addr sig)) db = Inr ct)"

text \<open>What a step does when its contract is found, and the cases of a step that ends.\<close>

lemma processEventLog_eq:
  assumes ct: "contract_found c addr sig chain ct (cs_db st)"
  shows "processEventLog c addr sig chain l st cache =
      (if is_ok (st_FindLog (cl_store c) (log_key_of c ct l) (cs_db st)) then Goes (Skipped, st, cache)
       else case block_timestamp c (lg_BlockNumber l) cache of
         Inl err \<Rightarrow> Goes (LogError err, st, cache)
       | Inr (ts, cache1) \<Rightarrow>
           if lg_Topics l = [] then Panics
           else case st_CreateLog (cl_store c) (log_key_of c ct l) (log_text c sig l) (cs_db st) of (r, db) \<Rightarrow>
             Goes (if r = None then Stored else LogError ''error creating event log'',
               st\<lparr>cs_pub := cs_pub st @ [log_payload c addr sig chain l (log_params c sig l) ts], cs_db := db\<rparr>, cache1))"
  using ct
  by (auto simp: processEventLog_def publish_log_def decode_map_total case_prod_beta log_text_def Let_def
      contract_key_def contract_found_def split: sum.splits option.splits)

lemma processEventLog_cases:
  assumes "processEventLog c addr sig chain l st cache = Goes (out, st', cache')"
    and ct: "contract_found c addr sig chain ct (cs_db st)"
  obtains (skip) "is_ok (st_FindLog (cl_store c) (log_key_of c ct l) (cs_db st))"
      "out = Skipped" "st' = st" "cache' = cache"
  | (time) "\<not> is_ok (st_FindLog (cl_store c) (log_key_of c ct l) (cs_db st))"
      "\<not> is_ok (block_timestamp c (lg_BlockNumber l) cache)" "out \<noteq> Skipped" "out \<noteq> Stored" "st' = st" "cache' = cache"
  | (publish) ts db r where "\<not> is_ok (st_FindLog (cl_store c) (log_key_of c ct l) (cs_db st))"
      "block_timestamp c (lg_BlockNumber l) cache = Inr (ts, cache')"
      "st' = st\<lparr>cs_pub := cs_pub st @ [log_payload c addr sig chain l (log_params c sig l) ts], cs_db := db\<rparr>"
      "st_CreateLog (cl_store c) (log_key_of c ct l) (log_text c sig l) (cs_db st) = (r, db)"
      "out \<noteq> Skipped" "(out = Stored) = (r = None)"
proof -
  obtain r db where cr: "st_CreateLog (cl_store c) (log_key_of c ct l) (log_text c sig l) (cs_db st) = (r, db)"
    by fastforce
  show thesis
    using assms(1) skip time publish [OF _ _ _ cr]
    by (auto simp: processEventLog_eq [OF ct] cr split: if_splits sum.splits prod.splits)
qed

section \<open>Each log once\<close>

text \<open>The logs of a list whose key is new, each the first time it appears.\<close>

fun fresh_logs :: "('l \<Rightarrow> 'k) \<Rightarrow> 'k set \<Rightarrow> 'l list \<Rightarrow> 'l list" where
  "fresh_logs key seen [] = []"
| "fresh_logs key seen (l # ls) =
     (if key l \<in> seen then fresh_logs key seen ls else l # fresh_logs key (insert (key l) seen) ls)"

definition known_keys :: "'db store \<Rightarrow> 'db \<Rightarrow> log_key set" where
  "known_keys S db = {k. is_ok (st_FindLog S k db)}"

definition cache_ok :: "('x, 'db) client \<Rightarrow> time_cache \<Rightarrow> bool" where
  "cache_ok c cache = (\<forall>bn ts. cache bn = Some ts \<longrightarrow> cl_block_time c (int64_of bn) = Inr ts)"

lemma block_timestamp_ok:
  assumes "cache_ok c cache" "block_timestamp c bn cache = Inr (ts, cache')"
  shows "cl_block_time c (int64_of bn) = Inr ts \<and> cache_ok c cache'"
  using assms by (auto simp: block_timestamp_def cache_ok_def split: option.splits sum.splits if_splits)

definition payload_of ::
  "('x, 'db) client \<Rightarrow> byte list \<Rightarrow> byte list \<Rightarrow> int \<Rightarrow> eth_log \<Rightarrow> 'x payload" where
  "payload_of c addr sig chain l =
     log_payload c addr sig chain l (log_params c sig l) (projr (cl_block_time c (int64_of (lg_BlockNumber l))))"

lemma step_good:
  assumes ok: "log_store_ok (cl_store c)"
    and ct: "contract_found c addr sig chain ct (cs_db st)" and ca: "cache_ok c cache"
    and run: "processEventLog c addr sig chain l st cache = Goes (out, st', cache')"
    and good: "out = Skipped \<or> out = Stored"
  shows "contract_found c addr sig chain ct (cs_db st') \<and> cache_ok c cache' \<and>
    known_keys (cl_store c) (cs_db st') = insert (log_key_of c ct l) (known_keys (cl_store c) (cs_db st)) \<and>
    cs_pub st' = cs_pub st @
      (if log_key_of c ct l \<in> known_keys (cl_store c) (cs_db st) then [] else [payload_of c addr sig chain l])"
  using run ct
proof (cases rule: processEventLog_cases)
  case skip
  then show ?thesis using ct ca by (auto simp: known_keys_def)
next
  case time
  then show ?thesis using good by simp
next
  case (publish ts db r)
  then have r: "r = None" using good by simp
  note D = log_store_okD [OF ok]
  note T = block_timestamp_ok [OF ca publish(2)]
  have "known_keys (cl_store c) db = insert (log_key_of c ct l) (known_keys (cl_store c) (cs_db st))"
  proof (rule set_eqI)
    fix k
    show "(k \<in> known_keys (cl_store c) db) = (k \<in> insert (log_key_of c ct l) (known_keys (cl_store c) (cs_db st)))"
      using D(1,2) [OF publish(4) [unfolded r]] by (cases "k = log_key_of c ct l") (simp_all add: known_keys_def)
  qed
  moreover have "contract_found c addr sig chain ct db"
    using ct D(4) [OF publish(4)] by (simp add: contract_found_def)
  ultimately show ?thesis
    using publish(1,3) T by (simp add: payload_of_def) (simp add: known_keys_def)
qed

lemma process_logs_good:
  assumes ok: "log_store_ok (cl_store c)"
  shows "contract_found c addr sig chain ct (cs_db st) \<Longrightarrow> cache_ok c cache \<Longrightarrow>
    process_logs c addr sig chain logs st cache = Goes (outs, st') \<Longrightarrow>
    set outs \<subseteq> {Skipped, Stored} \<Longrightarrow>
    contract_found c addr sig chain ct (cs_db st') \<and>
    known_keys (cl_store c) (cs_db st') = known_keys (cl_store c) (cs_db st) \<union> log_key_of c ct ` set logs \<and>
    cs_pub st' = cs_pub st @ map (payload_of c addr sig chain)
      (fresh_logs (log_key_of c ct) (known_keys (cl_store c) (cs_db st)) logs)"
proof (induction logs arbitrary: st cache outs)
  case (Cons l ls)
  obtain out st1 cache1 outs1 where step: "processEventLog c addr sig chain l st cache = Goes (out, st1, cache1)"
    and rest: "process_logs c addr sig chain ls st1 cache1 = Goes (outs1, st')" and o: "outs = out # outs1"
    using Cons.prems(3) by (auto simp: result_simps)
  have good: "out = Skipped \<or> out = Stored" "set outs1 \<subseteq> {Skipped, Stored}" using Cons.prems(4) o by auto
  note S = step_good [OF ok Cons.prems(1,2) step good(1)]
  then show ?case using Cons.IH [OF _ _ rest good(2)] by auto (auto simp: insert_absorb)
qed simp

lemma process_logs_skip:
  assumes "contract_found c addr sig chain ct (cs_db st)"
    and "log_key_of c ct ` set logs \<subseteq> known_keys (cl_store c) (cs_db st)"
  shows "process_logs c addr sig chain logs st cache = Goes (replicate (length logs) Skipped, st)"
  using assms(2)
proof (induction logs)
  case (Cons l ls)
  then have "processEventLog c addr sig chain l st cache = Goes (Skipped, st, cache)"
    by (auto simp: processEventLog_eq [OF assms(1)] known_keys_def)
  with Cons show ?case by simp
qed simp

text \<open>
  C5. When no log of a query fails, each log whose key (contract, block, transaction, index) is
  not in the database is stored and published once, at its first occurrence and in order, with
  the node's time of its block; the database then knows exactly the keys it knew and those of
  the logs; and fetching any of these logs again, in any number and order, skips them all and
  changes nothing.
\<close>

theorem logs_stored_and_published_once:
  assumes "log_store_ok (cl_store c)" and "contract_found c addr sig chain ct (cs_db st)"
    and "process_logs c addr sig chain logs st Map.empty = Goes (outs, st')"
    and "set outs \<subseteq> {Skipped, Stored}" and "set again \<subseteq> set logs"
  shows "cs_pub st' = cs_pub st @ map (payload_of c addr sig chain)
      (fresh_logs (log_key_of c ct) (known_keys (cl_store c) (cs_db st)) logs)
   \<and> known_keys (cl_store c) (cs_db st') = known_keys (cl_store c) (cs_db st) \<union> log_key_of c ct ` set logs
   \<and> process_logs c addr sig chain again st' Map.empty = Goes (replicate (length again) Skipped, st')"
proof -
  have P: "contract_found c addr sig chain ct (cs_db st') \<and>
    known_keys (cl_store c) (cs_db st') = known_keys (cl_store c) (cs_db st) \<union> log_key_of c ct ` set logs \<and>
    cs_pub st' = cs_pub st @ map (payload_of c addr sig chain)
      (fresh_logs (log_key_of c ct) (known_keys (cl_store c) (cs_db st)) logs)"
    by (rule process_logs_good [OF assms(1,2) _ assms(3,4)]) (simp add: cache_ok_def)
  then show ?thesis using assms(5) by (intro conjI process_logs_skip) auto
qed

definition sample_contract :: contract where
  "sample_contract = \<lparr>ct_ID = ''c1'', ct_ChainID = 39, ct_Address = to_lower (hex_EncodeToHex (replicate 20 1)),
     ct_EventName = ''Transfer'', ct_EventSignature = hex_EncodeToHex (replicate 32 7), ct_EventABI = [],
     ct_StartBlock = 0\<rparr>"

definition sample_client :: "(unit, tables) client" where
  "sample_client = \<lparr>cl_abi = sample_abi, cl_store = table_store, cl_block_time = (\<lambda>n. Inr (u64_of_int (n * 10))),
     cl_decoder = NewEventDecoder\<rparr>"

definition sample_log :: "u64 \<Rightarrow> eth_log" where
  "sample_log i = \<lparr>lg_Topics = [replicate 32 7], lg_Data = [1], lg_BlockNumber = 5,
     lg_TxHash = replicate 32 9, lg_BlockHash = replicate 32 8, lg_Index = i\<rparr>"

definition sample_st :: "(unit, tables) client_st" where
  "sample_st = \<lparr>cs_db = ([sample_contract], []), cs_pub = []\<rparr>"

lemma sample_client_sel [simp]:
  "cl_store sample_client = table_store" "cl_block_time sample_client n = Inr (u64_of_int (n * 10))"
  by (simp_all add: sample_client_def)

lemma sample_keys:
  "contract_key sample_client a s = (to_lower (hex_EncodeToHex a), hex_EncodeToHex s)"
  "log_key_of sample_client sample_contract (sample_log i) =
     (''c1'', int64_of 5, to_lower (hex_EncodeToHex (replicate 32 9)), int64_of i)"
  "lg_BlockNumber (sample_log i) = 5" "lg_Topics (sample_log i) = [replicate 32 7]"
  by (simp_all add: log_key_of_def contract_key_def sample_client_def sample_abi_def sample_geth_def
      sample_contract_def sample_log_def)

lemma sample_contract_row:
  "st_FindContract table_store 39 (to_lower (hex_EncodeToHex (replicate 20 1))) (hex_EncodeToHex (replicate 32 7))
     ([sample_contract], rows) = Inr sample_contract"
  by (simp add: table_store_sel first_row_def sample_contract_def)

lemma sample_found_rows:
  "cs_db st = ([sample_contract], rows) \<Longrightarrow>
   contract_found sample_client (replicate 20 1) (replicate 32 7) 39 sample_contract (cs_db st)"
  by (simp add: contract_found_def sample_keys sample_contract_row)

lemma sample_found:
  "contract_found sample_client (replicate 20 1) (replicate 32 7) 39 sample_contract (cs_db sample_st)"
  by (rule sample_found_rows) (simp add: sample_st_def)

lemma sample_run:
  "\<exists>st' rows. process_logs sample_client (replicate 20 1) (replicate 32 7) 39
     [sample_log 0, sample_log 1, sample_log 0] sample_st Map.empty = Goes ([Stored, Stored, Skipped], st') \<and>
     cs_db st' = ([sample_contract], rows)"
proof -
  have i: "int64_of 0 = 0" "int64_of 1 = 1" by (simp_all add: int64_of_def)
  have st: "cs_db sample_st = ([sample_contract], [])" by (simp add: sample_st_def)
  show ?thesis
    by (simp add: processEventLog_eq [OF sample_found_rows] st sample_keys table_store_sel(2,3) first_row_def
        block_timestamp_def i)
qed

theorem logs_stored_and_published_once_witness:
  "\<exists>st'. process_logs sample_client (replicate 20 1) (replicate 32 7) 39
     [sample_log 0, sample_log 1, sample_log 0] sample_st Map.empty = Goes ([Stored, Stored, Skipped], st') \<and>
   process_logs sample_client (replicate 20 1) (replicate 32 7) 39 [sample_log 1] st' Map.empty = Goes ([Skipped], st')"
proof -
  obtain st' where r: "process_logs sample_client (replicate 20 1) (replicate 32 7) 39
     [sample_log 0, sample_log 1, sample_log 0] sample_st Map.empty = Goes ([Stored, Stored, Skipped], st')"
    using sample_run by blast
  have s: "log_store_ok (cl_store sample_client)" by (simp add: sample_client_def table_store_ok)
  show ?thesis
    using logs_stored_and_published_once [OF s sample_found r, of "[sample_log 1]"] r by simp
qed

section \<open>When storing fails\<close>

text \<open>
  A log is published before it is stored, and an error of one log is not an error of the
  query. So when the database refuses the row, \<open>FilterLogs\<close> still answers with the log as if
  all went well, and leaves it published and not stored; and each further fetch of the same
  range publishes it again.
\<close>

theorem failed_store_is_silent:
  assumes "contract_found c addr sig chain ct (cs_db st)"
    and "log_key_of c ct l \<notin> known_keys (cl_store c) (cs_db st)"
    and "cl_block_time c (int64_of (lg_BlockNumber l)) = Inr ts" and "lg_Topics l \<noteq> []"
    and "st_CreateLog (cl_store c) (log_key_of c ct l) (log_text c sig l) (cs_db st) = (Some e, cs_db st)"
    and "node \<lparr>fq_FromBlock = from, fq_ToBlock = to, fq_Addresses = [addr], fq_Topics = [[sig]]\<rparr> = Inr [l]"
  shows "FilterLogs c node addr sig from to chain st =
      Goes (Inr [l], st\<lparr>cs_pub := cs_pub st @ [payload_of c addr sig chain l]\<rparr>)
    \<and> bind_step (FilterLogs c node addr sig from to chain st)
        (\<lambda>(r, st1). FilterLogs c node addr sig from to chain st1) =
      Goes (Inr [l], st\<lparr>cs_pub := cs_pub st @ [payload_of c addr sig chain l, payload_of c addr sig chain l]\<rparr>)"
proof -
  have F: "FilterLogs c node addr sig from to chain s =
      Goes (Inr [l], s\<lparr>cs_pub := cs_pub s @ [payload_of c addr sig chain l]\<rparr>)" if "cs_db s = cs_db st" for s
  proof -
    have "contract_found c addr sig chain ct (cs_db s)" using assms(1) that by simp
    then have "processEventLog c addr sig chain l s Map.empty =
        Goes (LogError ''error creating event log'', s\<lparr>cs_pub := cs_pub s @ [payload_of c addr sig chain l]\<rparr>,
          [lg_BlockNumber l \<mapsto> ts])"
      using assms(2-5) that
      by (simp add: processEventLog_eq known_keys_def block_timestamp_def payload_of_def)
    then show ?thesis using assms(6) by (simp add: FilterLogs_def)
  qed
  show ?thesis by (simp add: F)
qed

definition refusing_store :: "tables store" where
  "refusing_store = table_store\<lparr>st_CreateLog := \<lambda>k d db. (Some (DbError ''disk full''), db)\<rparr>"

theorem failed_store_is_silent_witness:
  "\<exists>p. FilterLogs (sample_client\<lparr>cl_store := refusing_store\<rparr>) (\<lambda>q. Inr [sample_log 0])
     (replicate 20 1) (replicate 32 7) 1 5 39 sample_st = Goes (Inr [sample_log 0], sample_st\<lparr>cs_pub := [p]\<rparr>)"
proof -
  let ?c = "sample_client\<lparr>cl_store := refusing_store\<rparr>"
  have f: "contract_found ?c (replicate 20 1) (replicate 32 7) 39 sample_contract (cs_db sample_st)"
    using sample_found by (simp add: contract_found_def contract_key_def refusing_store_def)
  have k: "log_key_of ?c sample_contract (sample_log 0) \<notin> known_keys (cl_store ?c) (cs_db sample_st)"
    by (simp add: known_keys_def refusing_store_def sample_st_def table_store_sel first_row_def)
  show ?thesis
    using failed_store_is_silent [OF f k, of _ "DbError ''disk full''" "\<lambda>q. Inr [sample_log 0]" 1 5]
    by (simp add: sample_keys refusing_store_def) (simp add: sample_st_def)
qed

end
