(* ===== verification/Gates.thy ===== *)
theory Gates
  imports Go_Prelude
begin

text \<open>
  The contract of an interceptor or middleware: it wraps a handler, and lets a request reach it
  only when the request is allowed in the current state. \<open>pre\<close> and \<open>enter\<close> are the request and
  state the handler then sees, \<open>after\<close> what becomes of its result, \<open>deny\<close> the answer to the
  rest. A handler takes a request and a state to a result (an answer with a state, or the state
  with the answer in it).
\<close>

type_synonym ('r, 's, 'o) handler = "'r \<Rightarrow> 's \<Rightarrow> 'o"

locale gate =
  fixes mw :: "('r, 's, 'o) handler \<Rightarrow> ('r, 's, 'o) handler"
    and allowed :: "'r \<Rightarrow> 's \<Rightarrow> bool"
    and pre :: "'r \<Rightarrow> 's \<Rightarrow> 'r"
    and enter :: "'r \<Rightarrow> 's \<Rightarrow> 's"
    and after :: "'r \<Rightarrow> 's \<Rightarrow> 'o \<Rightarrow> 'o"
    and deny :: "'r \<Rightarrow> 's \<Rightarrow> 'o"
  assumes mw_eq: "mw h r s = (if allowed r s then after r s (h (pre r s) (enter r s)) else deny r s)"
begin

text \<open>A request that is not allowed gets the same answer whatever the handler would do.\<close>

lemma not_run: "\<not> allowed r s \<Longrightarrow> mw h r s = mw h' r s"
  by (simp add: mw_eq)

lemma denied: "\<not> allowed r s \<Longrightarrow> mw h r s = deny r s"
  by (simp add: mw_eq)

lemma run: "allowed r s \<Longrightarrow> mw h r s = after r s (h (pre r s) (enter r s))"
  by (simp add: mw_eq)

text \<open>The handler is consulted at one request and state at most.\<close>

lemma run_once: "h (pre r s) (enter r s) = h' (pre r s) (enter r s) \<Longrightarrow> mw h r s = mw h' r s"
  by (simp add: mw_eq)

end

text \<open>One gate behind another is a gate.\<close>

locale gate_chain = g1: gate mw1 allowed1 pre1 enter1 after1 deny1 + g2: gate mw2 allowed2 pre2 enter2 after2 deny2
  for mw1 :: "('r, 's, 'o) handler \<Rightarrow> ('r, 's, 'o) handler"
    and allowed1 pre1 enter1 after1 deny1
    and mw2 :: "('r, 's, 'o) handler \<Rightarrow> ('r, 's, 'o) handler"
    and allowed2 pre2 enter2 after2 deny2

sublocale gate_chain \<subseteq> chain: gate
  "\<lambda>h. mw1 (mw2 h)"
  "\<lambda>r s. allowed1 r s \<and> allowed2 (pre1 r s) (enter1 r s)"
  "\<lambda>r s. pre2 (pre1 r s) (enter1 r s)"
  "\<lambda>r s. enter2 (pre1 r s) (enter1 r s)"
  "\<lambda>r s o1. after1 r s (after2 (pre1 r s) (enter1 r s) o1)"
  "\<lambda>r s. if allowed1 r s then after1 r s (deny2 (pre1 r s) (enter1 r s)) else deny1 r s"
  by unfold_locales (simp add: g1.mw_eq g2.mw_eq)

end
