(* ===== verification/Jwt_Auth.thy ===== *)
theory Jwt_Auth
  imports Gates Go_Strings
begin

text \<open>
  \<open>internal/jwt/jwt.go\<close> and the authentication of \<open>pkg/grpc/server.go\<close>: issuing and validating
  tokens, the blacklist, and the two interceptors. The JWT library is a record of functions, and
  \<open>jwt_ok\<close> states what it promises. Times are nanoseconds; the clock and Redis are read from the
  state a request meets. \<open>live k\<close> says that Redis answers a \<open>Get\<close> of \<open>k\<close> with a value.
\<close>

section \<open>Tokens\<close>

record jwt_claims =
  jc_Address :: string
  jc_ExpiresAt :: "int option"
  jc_IssuedAt :: "int option"

record jwt_lib =
  jw_NumericDate :: "int \<Rightarrow> int"
  jw_Sign :: "string \<Rightarrow> jwt_claims \<Rightarrow> string res"
  jw_Parse :: "int \<Rightarrow> string \<Rightarrow> string \<Rightarrow> string + jwt_claims \<times> bool"

definition second_ns :: int where
  "second_ns = 1000000000"

definition unexpired :: "int \<Rightarrow> jwt_claims \<Rightarrow> bool" where
  "unexpired now c = (case jc_ExpiresAt c of None \<Rightarrow> True | Some e \<Rightarrow> now < e)"

text \<open>
  Dates are cut to seconds. A signed token is parsed back to its claims with the same secret
  while it has not expired, and is an error afterwards or with another secret (without zero
  bytes, which HMAC pads keys with); tokens do not start with \<open>Bearer\<close>.
\<close>

definition jwt_ok :: "jwt_lib \<Rightarrow> bool" where
  "jwt_ok J =
     ((\<forall>t. jw_NumericDate J t = t - t mod second_ns) \<and>
      (\<forall>secret c tok now. jw_Sign J secret c = Inr tok \<longrightarrow>
         \<not> has_prefix tok ''Bearer '' \<and>
         (if unexpired now c then jw_Parse J now secret tok = Inr (c, True)
          else \<not> is_ok (jw_Parse J now secret tok)) \<and>
         (\<forall>secret'. secret' \<noteq> secret \<longrightarrow> CHR 0x00 \<notin> set secret \<longrightarrow> CHR 0x00 \<notin> set secret' \<longrightarrow>
            \<not> is_ok (jw_Parse J now secret' tok))))"

lemma jwt_okD:
  assumes "jwt_ok J"
  shows "jw_NumericDate J t = t - t mod second_ns"
    and "jw_Sign J secret c = Inr tok \<Longrightarrow> \<not> has_prefix tok ''Bearer ''"
    and "jw_Sign J secret c = Inr tok \<Longrightarrow> unexpired now c \<Longrightarrow> jw_Parse J now secret tok = Inr (c, True)"
    and "jw_Sign J secret c = Inr tok \<Longrightarrow> \<not> unexpired now c \<Longrightarrow> \<not> is_ok (jw_Parse J now secret tok)"
    and "jw_Sign J secret c = Inr tok \<Longrightarrow> secret' \<noteq> secret \<Longrightarrow> CHR 0x00 \<notin> set secret \<Longrightarrow>
      CHR 0x00 \<notin> set secret' \<Longrightarrow> \<not> is_ok (jw_Parse J now secret' tok)"
  using assms unfolding jwt_ok_def by (blast, blast, metis, metis, blast)

definition strip_bearer :: "string \<Rightarrow> string" where
  "strip_bearer s = (if has_prefix s ''Bearer '' then trim_prefix s ''Bearer '' else s)"

definition jwt_ValidateJWT ::
  "jwt_lib \<Rightarrow> int \<Rightarrow> string \<Rightarrow> string \<Rightarrow> (string \<Rightarrow> string option) option \<Rightarrow> jwt_claims res" where
  "jwt_ValidateJWT J now secret tokenStr0 handleValidToken =
     (let tokenStr = strip_bearer tokenStr0 in
      case jw_Parse J now secret tokenStr of
        Inl err \<Rightarrow> Inl (''invalid token: '' @ err)
      | Inr (claims, valid) \<Rightarrow>
          if valid then
            (case handleValidToken of
               None \<Rightarrow> Inr claims
             | Some h \<Rightarrow> (case h tokenStr of Some err \<Rightarrow> Inl err | None \<Rightarrow> Inr claims))
          else Inl ''invalid token claims'')"

text \<open>
  The expiry: \<open>time.Duration(expiry) * time.Second\<close> is a product of 64-bit integers.
\<close>

definition expiry_time :: "int \<Rightarrow> int \<Rightarrow> int" where
  "expiry_time now expiry = now + int64_wrap (expiry * second_ns)"

definition GenerateJWT :: "jwt_lib \<Rightarrow> int \<Rightarrow> string \<Rightarrow> int \<Rightarrow> string \<Rightarrow> string res" where
  "GenerateJWT J now address expiry secret =
     jw_Sign J secret \<lparr>jc_Address = address,
       jc_ExpiresAt = Some (jw_NumericDate J (expiry_time now expiry)),
       jc_IssuedAt = Some (jw_NumericDate J now)\<rparr>"

section \<open>The server's validation\<close>

definition blacklist_key :: "string \<Rightarrow> string" where
  "blacklist_key token = ''blacklist_token_'' @ token"

text \<open>The handler's argument is not used: the key is made of the string as it was given.\<close>

definition server_ValidateJWT ::
  "jwt_lib \<Rightarrow> int \<Rightarrow> string \<Rightarrow> (string \<Rightarrow> bool) \<Rightarrow> string \<Rightarrow> jwt_claims res" where
  "server_ValidateJWT J now jwtSecret live tokenStr =
     jwt_ValidateJWT J now jwtSecret tokenStr
       (Some (\<lambda>token. if live (blacklist_key tokenStr) then Some ''token is invalid'' else None))"

text \<open>\<open>RequestToken\<close>: the token, and when it expires, in seconds.\<close>

datatype rpc_status = Unauthenticated string | Internal string | NotFound string | OtherError string

definition RequestToken ::
  "jwt_lib \<Rightarrow> int \<Rightarrow> int \<Rightarrow> string \<Rightarrow> string \<Rightarrow> int \<Rightarrow> rpc_status + string \<times> int" where
  "RequestToken J now now' jwtSecret address duration =
     (case GenerateJWT J now address duration jwtSecret of
        Inl err \<Rightarrow> Inl (Internal (''failed to generate JWT: '' @ err))
      | Inr token \<Rightarrow> Inr (token, expiry_time now' duration div second_ns))"

lemma strip_bearer_plain: "\<not> has_prefix t ''Bearer '' \<Longrightarrow> strip_bearer t = t"
  by (simp add: strip_bearer_def)

lemma strip_bearer_with: "strip_bearer (''Bearer '' @ t) = t"
  using trim_prefix_append [of "''Bearer ''" t] has_prefix_append [of "''Bearer ''" t]
  by (simp add: strip_bearer_def)

lemmas strip_bearer_chars [simp] = strip_bearer_with [simplified]

lemma generated_valid:
  assumes "jwt_ok J" "GenerateJWT J now address expiry secret = Inr tok"
  shows "strip_bearer tok = tok"
    and "strip_bearer tok0 = tok \<Longrightarrow>
      (case jwt_ValidateJWT J now' secret tok0 None of
         Inr c \<Rightarrow> jc_Address c = address \<and> now' < expiry_time now expiry - expiry_time now expiry mod second_ns
       | Inl err \<Rightarrow> \<not> now' < expiry_time now expiry - expiry_time now expiry mod second_ns)"
proof -
  let ?c = "\<lparr>jc_Address = address, jc_ExpiresAt = Some (jw_NumericDate J (expiry_time now expiry)),
       jc_IssuedAt = Some (jw_NumericDate J now)\<rparr>"
  have s: "jw_Sign J secret ?c = Inr tok" using assms(2) by (simp add: GenerateJWT_def)
  note D = jwt_okD [OF assms(1)]
  show "strip_bearer tok = tok" using D(2) [OF s] by (rule strip_bearer_plain)
  show "strip_bearer tok0 = tok \<Longrightarrow>
      (case jwt_ValidateJWT J now' secret tok0 None of
         Inr c \<Rightarrow> jc_Address c = address \<and> now' < expiry_time now expiry - expiry_time now expiry mod second_ns
       | Inl err \<Rightarrow> \<not> now' < expiry_time now expiry - expiry_time now expiry mod second_ns)"
    using D(3) [OF s, of now'] D(4) [OF s, of now']
    by (cases "unexpired now' ?c") (auto simp: jwt_ValidateJWT_def unexpired_def D(1) split: sum.splits)
qed

text \<open>Being before the start of a second.\<close>

lemma second_before: "(t < second_ns * q) = (t div second_ns < q)"
proof -
  have t: "t = 1000000000 * (t div 1000000000) + t mod 1000000000" by simp
  have "0 \<le> t mod 1000000000" "t mod 1000000000 < 1000000000" by simp_all
  then show ?thesis unfolding second_ns_def using t by linarith
qed

text \<open>
  C38. A token issued for an address and a number of seconds is accepted by every later
  validation with the same secret, as it stands or after \<open>Bearer\<close>, for that address, as long
  as the second in which it expires has not begun and it is not blacklisted under the text it
  was presented with; and it is refused from then on. The lifetime is the requested one when
  it fits the 64-bit nanoseconds.
\<close>

theorem token_lifetime:
  assumes "jwt_ok J" and "GenerateJWT J now address expiry secret = Inr tok"
    and "tok0 = tok \<or> tok0 = ''Bearer '' @ tok" and "\<bar>expiry\<bar> \<le> 9223372036"
  shows "(case server_ValidateJWT J now' secret live tok0 of
      Inr c \<Rightarrow> jc_Address c = address \<and> now' div second_ns < now div second_ns + expiry \<and> \<not> live (blacklist_key tok0)
    | Inl err \<Rightarrow> now div second_ns + expiry \<le> now' div second_ns \<or> live (blacklist_key tok0))"
proof -
  have st: "strip_bearer tok0 = tok" using assms(3) generated_valid(1) [OF assms(1,2)] by auto
  have "int64_wrap (expiry * second_ns) = expiry * second_ns"
    using assms(4) by (intro int64_wrap_id) (simp_all add: second_ns_def)
  then have e: "expiry_time now expiry = now + expiry * second_ns" by (simp add: expiry_time_def)
  have t: "(now' < now + expiry * second_ns - (now + expiry * second_ns) mod second_ns) =
      (now' div second_ns < now div second_ns + expiry)"
  proof -
    have "now + expiry * second_ns - (now + expiry * second_ns) mod second_ns = second_ns * (now div second_ns + expiry)"
      using minus_mod_eq_mult_div [of now second_ns] by (simp add: algebra_simps)
    then show ?thesis using second_before by simp
  qed
  have v: "server_ValidateJWT J now' secret live tok0 =
      bind_res (jwt_ValidateJWT J now' secret tok0 None)
        (\<lambda>c. if live (blacklist_key tok0) then Inl ''token is invalid'' else Inr c)"
    by (auto simp: server_ValidateJWT_def jwt_ValidateJWT_def Let_def split: sum.splits)
  note G = generated_valid(2) [OF assms(1,2) st, of now', unfolded e t]
  show ?thesis
  proof (cases "jwt_ValidateJWT J now' secret tok0 None")
    case (Inl err)
    then show ?thesis using G by (simp add: v not_less)
  next
    case (Inr c)
    then show ?thesis using G by (simp add: v)
  qed
qed


text \<open>A library of one's own: it signs one set of claims, and a token is a letter and the secret.\<close>

definition sample_jwt :: "jwt_claims \<Rightarrow> jwt_lib" where
  "sample_jwt c0 = \<lparr>jw_NumericDate = (\<lambda>t. t - t mod second_ns),
     jw_Sign = (\<lambda>secret c. if c = c0 then Inr (''t'' @ secret) else Inl ''unsupported''),
     jw_Parse = (\<lambda>now secret tok. if tok = ''t'' @ secret \<and> unexpired now c0 then Inr (c0, True) else Inl ''bad'')\<rparr>"

lemma sample_jwt_ok: "jwt_ok (sample_jwt c0)"
  by (auto simp: jwt_ok_def sample_jwt_def has_prefix_def)

definition sample_claims :: jwt_claims where
  "sample_claims = \<lparr>jc_Address = ''0xab'', jc_ExpiresAt = Some 65000000000, jc_IssuedAt = Some 5000000000\<rparr>"

lemma sample_generated: "GenerateJWT (sample_jwt sample_claims) 5000000000 ''0xab'' 60 ''k'' = Inr ''tk''"
  by (simp add: GenerateJWT_def sample_jwt_def sample_claims_def expiry_time_def int64_wrap_def second_ns_def)

theorem token_lifetime_witness:
  "case server_ValidateJWT (sample_jwt sample_claims) 64000000000 ''k'' (\<lambda>_. False) ''Bearer tk'' of
     Inr c \<Rightarrow> jc_Address c = ''0xab'' | Inl err \<Rightarrow> False"
  using token_lifetime [OF sample_jwt_ok sample_generated, of "''Bearer tk''" 64000000000 "\<lambda>_. False"]
  by (auto simp: second_ns_def split: sum.splits)

text \<open>
  The lifetime is not the requested one beyond 2^63 - 1 nanoseconds, some 292 years: the
  product wraps around. A request for 9223372037 seconds gets a token that expired 292 years
  ago, and one for 18446744074 seconds gets less than one second.
\<close>

theorem token_lifetime_wraps:
  "expiry_time now 9223372037 < now - 9223372036 * second_ns
   \<and> expiry_time now 18446744074 < now + second_ns
   \<and> \<bar>expiry_time now d - now\<bar> \<le> 9223372036854775808"
  using int64_wrap_bounds [of "d * second_ns"]
  by (simp add: expiry_time_def second_ns_def) (simp add: int64_wrap_def)

section \<open>The blacklist\<close>

text \<open>
  A blacklisted token is refused when it is presented as it stands. Presented after
  \<open>Bearer\<close>, the answer does not depend on that entry of the blacklist at all: the key is looked
  up under the whole text, while \<open>DisconnectStream\<close> writes it without the prefix, so the token
  remains valid.
\<close>

theorem blacklist_misses_bearer:
  "\<not> is_ok (server_ValidateJWT J now secret (live(blacklist_key tok := True)) tok)
   \<and> server_ValidateJWT J now secret (live(blacklist_key tok := True)) (''Bearer '' @ tok) =
     server_ValidateJWT J now secret live (''Bearer '' @ tok)"
proof -
  have "blacklist_key (''Bearer '' @ tok) \<noteq> blacklist_key tok"
    by (auto simp: blacklist_key_def dest: arg_cong [where f = length])
  then show ?thesis
    by (auto simp: server_ValidateJWT_def jwt_ValidateJWT_def Let_def split: sum.splits)
qed

section \<open>The two secrets\<close>

text \<open>
  The gRPC server is given the secret with white space trimmed, the HTTP middleware the
  file as it was read. When they differ, as they do for a file that ends in a newline, a token
  issued by the one is refused by the other.
\<close>

theorem trimmed_secret_mismatch:
  assumes "jwt_ok J" and "GenerateJWT J now address expiry (trim_space file) = Inr tok"
    and "trim_space file \<noteq> file" and "CHR 0x00 \<notin> set file"
  shows "\<not> is_ok (jwt_ValidateJWT J now' file (''Bearer '' @ tok) None)"
proof -
  have "CHR 0x00 \<notin> set (trim_space file)"
    using assms(4) by (auto simp: trim_space_def dest!: set_dropWhileD)
  then have "\<not> is_ok (jw_Parse J now' file tok)"
    using jwt_okD(5) [OF assms(1) assms(2) [unfolded GenerateJWT_def], where secret' = "file"] assms(3,4) by metis
  then show ?thesis by (cases "jw_Parse J now' file tok") (auto simp: jwt_ValidateJWT_def)
qed

theorem trimmed_secret_mismatch_witness:
  "\<not> is_ok (jwt_ValidateJWT (sample_jwt sample_claims) 64000000000 [CHR ''k'', CHR 0x0A] ''Bearer tk'' None)"
proof -
  have t: "trim_space [CHR ''k'', CHR 0x0A] = ''k''" by (simp add: trim_space_def is_space_def)
  show ?thesis
    using trimmed_secret_mismatch [OF sample_jwt_ok sample_generated [folded t]] t by simp
qed

section \<open>The interceptors\<close>

text \<open>
  A call: the metadata (\<open>None\<close> when the context has none), the full method, and the request.
  The state \<open>'s\<close> holds what a handler may change; \<open>auth_env\<close> says how the clock and Redis are
  read from it.
\<close>

record 'b rpc_call =
  rc_md :: "(string \<Rightarrow> string list) option"
  rc_method :: string
  rc_body :: 'b

record 's auth_env =
  ae_jwt :: jwt_lib
  ae_secret :: string
  ae_gateway :: "string option"
  ae_clock :: "'s \<Rightarrow> int"
  ae_live :: "'s \<Rightarrow> string \<Rightarrow> bool"

definition skippedMethods :: "string \<Rightarrow> bool" where
  "skippedMethods m = (m = ''/eventpool.EventService/RequestToken'')"

definition env_ValidateJWT :: "'s auth_env \<Rightarrow> 's \<Rightarrow> string \<Rightarrow> jwt_claims res" where
  "env_ValidateJWT A s tokenStr = server_ValidateJWT (ae_jwt A) (ae_clock A s) (ae_secret A) (ae_live A s) tokenStr"

definition jwtUnaryInterceptor ::
  "'s auth_env \<Rightarrow> (string \<Rightarrow> bool) \<Rightarrow> ('b rpc_call, 's, (rpc_status + 'r) \<times> 's) handler \<Rightarrow>
   ('b rpc_call, 's, (rpc_status + 'r) \<times> 's) handler" where
  "jwtUnaryInterceptor A skipped handler call s =
     (case rc_md call of
        None \<Rightarrow> (Inl (Unauthenticated ''Missing metadata''), s)
      | Some md \<Rightarrow>
          if skipped (rc_method call) then
            let secret = md ''x-secret'' in
            if length secret = 0 then (Inl (Unauthenticated ''invalid x-secret''), s)
            else if ae_gateway A \<noteq> None \<and> secret ! 0 \<noteq> the (ae_gateway A)
                 then (Inl (Unauthenticated ''invalid x-secret''), s)
            else handler call s
          else
            let tokens = md ''authorization'' in
            if length tokens = 0 then (Inl (Unauthenticated ''Invalid or missing token''), s)
            else case env_ValidateJWT A s (tokens ! 0) of
                Inl err \<Rightarrow> (Inl (Unauthenticated ''Invalid token''), s)
              | Inr claims \<Rightarrow> handler call s)"

text \<open>The stream interceptor answers with an error or none.\<close>

definition jwtStreamInterceptor ::
  "'s auth_env \<Rightarrow> (string \<Rightarrow> bool) \<Rightarrow> ('b rpc_call, 's, rpc_status option \<times> 's) handler \<Rightarrow>
   ('b rpc_call, 's, rpc_status option \<times> 's) handler" where
  "jwtStreamInterceptor A skipped handler call s =
     (case rc_md call of
        None \<Rightarrow> (Some (Unauthenticated ''Missing metadata''), s)
      | Some md \<Rightarrow>
          if skipped (rc_method call) then
            let secret = md ''x-secret'' in
            if length secret = 0 then (Some (Unauthenticated ''invalid x-secret''), s)
            else if ae_gateway A \<noteq> None \<and> secret ! 0 \<noteq> the (ae_gateway A)
                 then (Some (Unauthenticated ''invalid x-secret''), s)
            else handler call s
          else
            let tokens = md ''authorization'' in
            if length tokens = 0 then (Some (Unauthenticated ''Invalid or missing token''), s)
            else case env_ValidateJWT A s (tokens ! 0) of
                Inl err \<Rightarrow> (Some (Unauthenticated ''Invalid token''), s)
              | Inr claims \<Rightarrow> handler call s)"

text \<open>Who is let through, and what the others are told.\<close>

definition rpc_allowed :: "'s auth_env \<Rightarrow> (string \<Rightarrow> bool) \<Rightarrow> 'b rpc_call \<Rightarrow> 's \<Rightarrow> bool" where
  "rpc_allowed A skipped call s =
     (case rc_md call of
        None \<Rightarrow> False
      | Some md \<Rightarrow>
          if skipped (rc_method call)
          then md ''x-secret'' \<noteq> [] \<and> (\<forall>g. ae_gateway A = Some g \<longrightarrow> hd (md ''x-secret'') = g)
          else md ''authorization'' \<noteq> [] \<and> is_ok (env_ValidateJWT A s (hd (md ''authorization''))))"

definition rpc_denial :: "(string \<Rightarrow> bool) \<Rightarrow> 'b rpc_call \<Rightarrow> rpc_status" where
  "rpc_denial skipped call = Unauthenticated
     (case rc_md call of
        None \<Rightarrow> ''Missing metadata''
      | Some md \<Rightarrow> if skipped (rc_method call) then ''invalid x-secret''
          else if md ''authorization'' = [] then ''Invalid or missing token'' else ''Invalid token'')"

interpretation unary: gate "jwtUnaryInterceptor A skipped" "rpc_allowed A skipped" "\<lambda>call s. call" "\<lambda>call s. s"
  "\<lambda>call s r. r" "\<lambda>call s. (Inl (rpc_denial skipped call), s)" for A skipped
  by unfold_locales
    (auto simp: jwtUnaryInterceptor_def rpc_allowed_def rpc_denial_def Let_def hd_conv_nth is_ok_iff
      split: option.splits sum.splits)

interpretation stream: gate "jwtStreamInterceptor A skipped" "rpc_allowed A skipped" "\<lambda>call s. call" "\<lambda>call s. s"
  "\<lambda>call s r. r" "\<lambda>call s. (Some (rpc_denial skipped call), s)" for A skipped
  by unfold_locales
    (auto simp: jwtStreamInterceptor_def rpc_allowed_def rpc_denial_def Let_def hd_conv_nth is_ok_iff
      split: option.splits sum.splits)

text \<open>What an interceptor makes of a handler: the two answer alike.\<close>

lemma interceptors:
  "jwtUnaryInterceptor A skipped h call s =
     (if rpc_allowed A skipped call s then h call s else (Inl (rpc_denial skipped call), s))"
  "jwtStreamInterceptor A skipped h' call s =
     (if rpc_allowed A skipped call s then h' call s else (Some (rpc_denial skipped call), s))"
  using unary.denied unary.run stream.denied stream.run by (metis (no_types, lifting))+

section \<open>A token through the server\<close>

text \<open>The RPC method \<open>RequestToken\<close>: its body is the address and the duration.\<close>

definition request_token_rpc ::
  "'s auth_env \<Rightarrow> int \<Rightarrow> (((string \<times> int) rpc_call), 's, (rpc_status + string \<times> int) \<times> 's) handler" where
  "request_token_rpc A now' call s =
     (RequestToken (ae_jwt A) (ae_clock A s) now' (ae_secret A) (fst (rc_body call)) (snd (rc_body call)), s)"


definition sample_auth :: "int auth_env" where
  "sample_auth = \<lparr>ae_jwt = sample_jwt sample_claims, ae_secret = ''k'', ae_gateway = Some ''g'', ae_clock = (\<lambda>s. s),
     ae_live = (\<lambda>s k. False)\<rparr>"

definition sample_ask :: "(string \<times> int) rpc_call" where
  "sample_ask = \<lparr>rc_md = Some (\<lambda>k. if k = ''x-secret'' then [''g''] else []),
     rc_method = ''/eventpool.EventService/RequestToken'', rc_body = (''0xab'', 60)\<rparr>"

definition sample_stream_call :: "unit rpc_call" where
  "sample_stream_call = \<lparr>rc_md = Some (\<lambda>k. if k = ''authorization'' then [''Bearer tk''] else []),
     rc_method = ''/eventpool.EventService/StreamEvents'', rc_body = ()\<rparr>"


end
