(* ===== verification/Go_Slice.thy ===== *)
theory Go_Slice
  imports Go_Prelude
begin

text \<open>
  Go's slices: a slice is a window on the front of an array that other slices may share.
  \<open>append\<close> writes in place while the capacity lasts and copies to a new array afterwards
  (\<open>grow\<close> is the capacity the runtime then picks), and the deletion idiom
  \<open>append(s[:i], s[i+1:]...)\<close> shifts the shared array to the left. A copy of the old window
  therefore sees the shift; \<open>slice_delete_stale\<close> says how.
\<close>

record 'a arrays =
  ar_mem :: "nat \<Rightarrow> 'a list"
  ar_cap :: "nat \<Rightarrow> nat"
  ar_next :: nat

record slice =
  sl_arr :: nat
  sl_len :: nat

definition no_arrays :: "'a arrays" where
  "no_arrays = \<lparr>ar_mem = (\<lambda>_. []), ar_cap = (\<lambda>_. 0), ar_next = 0\<rparr>"

text \<open>\<open>None\<close> is the nil slice.\<close>

definition slice_elems :: "'a arrays \<Rightarrow> slice option \<Rightarrow> 'a list" where
  "slice_elems st so = (case so of None \<Rightarrow> [] | Some s \<Rightarrow> take (sl_len s) (ar_mem st (sl_arr s)))"

definition slice_new :: "(nat \<Rightarrow> nat) \<Rightarrow> 'a list \<Rightarrow> 'a arrays \<Rightarrow> slice \<times> 'a arrays" where
  "slice_new grow xs st =
     (let a = ar_next st in
      (\<lparr>sl_arr = a, sl_len = length xs\<rparr>,
       st\<lparr>ar_mem := (ar_mem st)(a := xs), ar_cap := (ar_cap st)(a := max (length xs) (grow (length xs))),
          ar_next := a + 1\<rparr>))"

definition slice_append :: "(nat \<Rightarrow> nat) \<Rightarrow> 'a \<Rightarrow> slice option \<Rightarrow> 'a arrays \<Rightarrow> slice \<times> 'a arrays" where
  "slice_append grow x so st =
     (case so of
        None \<Rightarrow> slice_new grow [x] st
      | Some s \<Rightarrow>
          let a = sl_arr s; n = sl_len s; m = ar_mem st a in
          if n < ar_cap st a
          then (s\<lparr>sl_len := n + 1\<rparr>, st\<lparr>ar_mem := (ar_mem st)(a := take n m @ [x] @ drop (n + 1) m)\<rparr>)
          else slice_new grow (take n m @ [x]) st)"

definition slice_delete :: "nat \<Rightarrow> slice \<Rightarrow> 'a arrays \<Rightarrow> slice \<times> 'a arrays" where
  "slice_delete i s st =
     (let a = sl_arr s; n = sl_len s; m = ar_mem st a in
      (s\<lparr>sl_len := n - 1\<rparr>,
       st\<lparr>ar_mem := (ar_mem st)(a := take i m @ drop (i + 1) (take n m) @ drop (n - 1) m)\<rparr>))"

definition slice_wf :: "'a arrays \<Rightarrow> slice option \<Rightarrow> bool" where
  "slice_wf st so = (case so of None \<Rightarrow> True
     | Some s \<Rightarrow> sl_arr s < ar_next st \<and> sl_len s \<le> length (ar_mem st (sl_arr s)))"

named_theorems slice_facts \<open>contents of slices\<close>

lemma slice_elems_None [slice_facts]: "slice_elems st None = []"
  by (simp add: slice_elems_def)

lemma slice_append_elems [slice_facts]:
  "slice_wf st so \<Longrightarrow> slice_append grow x so st = (s', st') \<Longrightarrow>
   slice_elems st' (Some s') = slice_elems st so @ [x] \<and> slice_wf st' (Some s')"
  by (auto simp: slice_append_def slice_new_def slice_elems_def slice_wf_def Let_def min_def
      split: option.splits if_splits)

text \<open>Appending leaves every slice on another array alone.\<close>

lemma slice_append_frame [slice_facts]:
  assumes "slice_append grow x so st = (s', st')" and "slice_wf st (Some t)"
    and "\<And>s. so = Some s \<Longrightarrow> sl_arr s \<noteq> sl_arr t"
  shows "slice_elems st' (Some t) = slice_elems st (Some t) \<and> slice_wf st' (Some t) \<and> sl_arr s' \<noteq> sl_arr t"
  using assms
  by (auto simp: slice_append_def slice_new_def slice_elems_def slice_wf_def Let_def
      split: option.splits if_splits)

lemma slice_delete_parts:
  assumes "slice_wf st (Some s)" "i < sl_len s"
  shows "length (take i (ar_mem st (sl_arr s)) @ drop (i + 1) (take (sl_len s) (ar_mem st (sl_arr s)))) = sl_len s - 1"
    and "take i (take (sl_len s) (ar_mem st (sl_arr s))) = take i (ar_mem st (sl_arr s))"
  using assms by (auto simp: slice_wf_def min_def)

lemma slice_delete_elems [slice_facts]:
  assumes "slice_wf st (Some s)" "i < sl_len s" "slice_delete i s st = (s', st')"
  shows "slice_elems st' (Some s') = take i (slice_elems st (Some s)) @ drop (i + 1) (slice_elems st (Some s))
    \<and> slice_wf st' (Some s') \<and> sl_arr s' = sl_arr s"
proof -
  let ?m = "ar_mem st (sl_arr s)" and ?n = "sl_len s"
  let ?f = "take i ?m @ drop (i + 1) (take ?n ?m)"
  note P = slice_delete_parts [OF assms(1,2)]
  have e: "s' = s\<lparr>sl_len := ?n - 1\<rparr>"
      "st' = st\<lparr>ar_mem := (ar_mem st)(sl_arr s := ?f @ drop (?n - 1) ?m)\<rparr>"
    using assms(3) by (simp_all add: slice_delete_def Let_def)
  have t: "take (?n - 1) (?f @ drop (?n - 1) ?m) = ?f"
    using P(1) by (metis append_eq_conv_conj)
  have "?n - 1 \<le> length (?f @ drop (?n - 1) ?m)" using P(1) by (metis length_append le_add1)
  then show ?thesis
    using assms(1) P(2) t by (simp add: e slice_elems_def slice_wf_def del: take_append length_append)
qed

lemma slice_delete_frame [slice_facts]:
  assumes "slice_delete i s st = (s', st')" and "slice_wf st (Some t)" and "sl_arr s \<noteq> sl_arr t"
  shows "slice_elems st' (Some t) = slice_elems st (Some t) \<and> slice_wf st' (Some t)"
  using assms by (auto simp: slice_delete_def slice_elems_def slice_wf_def Let_def)

text \<open>
  What a copy of the window taken before a deletion holds afterwards: the remaining elements,
  shifted, and the last one a second time.
\<close>

lemma slice_delete_stale:
  assumes "slice_wf st (Some s)" "i < sl_len s" "slice_delete i s st = (s', st')"
  shows "slice_elems st' (Some s) =
    take i (slice_elems st (Some s)) @ drop (i + 1) (slice_elems st (Some s)) @ [last (slice_elems st (Some s))]"
proof -
  let ?m = "ar_mem st (sl_arr s)" and ?n = "sl_len s"
  let ?f = "take i ?m @ drop (i + 1) (take ?n ?m)"
  note P = slice_delete_parts [OF assms(1,2)]
  have n: "?n \<le> length ?m" "0 < ?n" using assms by (auto simp: slice_wf_def)
  have e: "st' = st\<lparr>ar_mem := (ar_mem st)(sl_arr s := ?f @ drop (?n - 1) ?m)\<rparr>"
    using assms(3) by (simp add: slice_delete_def Let_def)
  have "take 1 (drop (?n - 1) ?m) = [?m ! (?n - 1)]"
    using n by (simp add: take_Suc_conv_app_nth)
  moreover have "last (take ?n ?m) = ?m ! (?n - 1)" using n by (subst last_conv_nth) auto
  moreover have "take ?n (?f @ drop (?n - 1) ?m) = ?f @ take 1 (drop (?n - 1) ?m)"
    using P(1) n by simp
  ultimately show ?thesis using P(2) by (simp add: e slice_elems_def)
qed

end
