(* ===== verification/Subscribers.thy ===== *)
theory Subscribers
  imports Go_Slice
begin

text \<open>
  The map from keys to slices of channels in \<open>pkg/grpc/server.go\<close>, with the arrays the slices
  stand on. The locale is what the stream handlers need of it: a registry of values under keys.
\<close>

section \<open>The interface\<close>

locale registry =
  fixes elems :: "'s \<Rightarrow> 'k \<Rightarrow> 'v list"
    and wf :: "'s \<Rightarrow> bool"
    and add :: "'k \<Rightarrow> 'v \<Rightarrow> 's \<Rightarrow> 's"
    and remove :: "'k \<Rightarrow> 'v \<Rightarrow> 's \<Rightarrow> 's"
  assumes add_law: "wf s \<Longrightarrow> wf (add k v s) \<and> elems (add k v s) k' = elems s k' @ (if k' = k then [v] else [])"
    and remove_law: "wf s \<Longrightarrow> wf (remove k v s) \<and>
      elems (remove k v s) k' = (if k' = k then remove1 v (elems s k) else elems s k')"
begin

text \<open>The registry holds, under each key and once each, the values related to it.\<close>

definition tracks :: "('k \<Rightarrow> 'v \<Rightarrow> bool) \<Rightarrow> 's \<Rightarrow> bool" where
  "tracks R s = (wf s \<and> (\<forall>k. distinct (elems s k) \<and> set (elems s k) = {v. R k v}))"

lemma tracks_wf: "tracks R s \<Longrightarrow> wf s"
  by (simp add: tracks_def)

lemma tracks_cong: "tracks R s \<Longrightarrow> (\<And>k v. R' k v = R k v) \<Longrightarrow> tracks R' s"
  by (simp add: tracks_def)

lemma tracks_add:
  assumes "tracks R s" "\<not> R k v"
  shows "tracks (\<lambda>k' v'. R k' v' \<or> k' = k \<and> v' = v) (add k v s)"
  using assms add_law [of s k v] by (auto simp: tracks_def)

lemma tracks_remove:
  assumes "tracks R s"
  shows "tracks (\<lambda>k' v'. R k' v' \<and> \<not> (k' = k \<and> v' = v)) (remove k v s)"
  using assms remove_law [of s k v] by (auto simp: tracks_def distinct_remove1)

end

section \<open>Slices under keys\<close>

record subscribers =
  sb_arrays :: "nat arrays"
  sb_slices :: "string \<Rightarrow> slice option"

definition no_subscribers :: subscribers where
  "no_subscribers = \<lparr>sb_arrays = no_arrays, sb_slices = (\<lambda>_. None)\<rparr>"

definition sub_elems :: "subscribers \<Rightarrow> string \<Rightarrow> nat list" where
  "sub_elems s key = slice_elems (sb_arrays s) (sb_slices s key)"

text \<open>\<open>s.subscribers[key] = append(s.subscribers[key], ch)\<close>.\<close>

definition sub_add :: "(nat \<Rightarrow> nat) \<Rightarrow> string \<Rightarrow> nat \<Rightarrow> subscribers \<Rightarrow> subscribers" where
  "sub_add grow key ch s =
     (let (sl, ar) = slice_append grow ch (sb_slices s key) (sb_arrays s)
      in \<lparr>sb_arrays = ar, sb_slices = (sb_slices s)(key := Some sl)\<rparr>)"

text \<open>The loop that looks for the channel and deletes its first occurrence.\<close>

fun elem_pos :: "'a \<Rightarrow> 'a list \<Rightarrow> nat option" where
  "elem_pos x [] = None"
| "elem_pos x (y # ys) = (if y = x then Some 0 else map_option Suc (elem_pos x ys))"

definition sub_remove :: "string \<Rightarrow> nat \<Rightarrow> subscribers \<Rightarrow> subscribers" where
  "sub_remove key ch s =
     (case sb_slices s key of
        None \<Rightarrow> s
      | Some sl \<Rightarrow>
          (case elem_pos ch (slice_elems (sb_arrays s) (Some sl)) of
             None \<Rightarrow> s
           | Some i \<Rightarrow>
               let (sl', ar) = slice_delete i sl (sb_arrays s)
               in \<lparr>sb_arrays = ar, sb_slices = (sb_slices s)(key := Some sl')\<rparr>))"

text \<open>Slices under different keys stand on different arrays.\<close>

definition sub_wf :: "subscribers \<Rightarrow> bool" where
  "sub_wf s = ((\<forall>k. slice_wf (sb_arrays s) (sb_slices s k)) \<and>
     (\<forall>k k' a b. sb_slices s k = Some a \<longrightarrow> sb_slices s k' = Some b \<longrightarrow> k \<noteq> k' \<longrightarrow> sl_arr a \<noteq> sl_arr b))"

lemma elem_pos_Some: "elem_pos x xs = Some i \<Longrightarrow> i < length xs \<and> take i xs @ drop (i + 1) xs = remove1 x xs"
  by (induction xs arbitrary: i) (auto split: if_splits)

lemma elem_pos_None: "elem_pos x xs = None \<Longrightarrow> remove1 x xs = xs"
  by (induction xs) (auto split: if_splits)

lemma elem_pos_mem: "x \<in> set xs \<Longrightarrow> \<exists>i. elem_pos x xs = Some i"
  by (induction xs) auto

lemma sub_add_law:
  assumes "sub_wf s"
  shows "sub_wf (sub_add grow k v s) \<and>
    sub_elems (sub_add grow k v s) k' = sub_elems s k' @ (if k' = k then [v] else [])"
proof -
  obtain sl ar where a: "slice_append grow v (sb_slices s k) (sb_arrays s) = (sl, ar)" by fastforce
  have wf: "slice_wf (sb_arrays s) (sb_slices s q)" for q using assms by (simp add: sub_wf_def)
  note A = slice_append_elems [OF wf a]
  have F: "slice_elems ar (Some t) = slice_elems (sb_arrays s) (Some t) \<and> slice_wf ar (Some t) \<and> sl_arr sl \<noteq> sl_arr t"
    if t: "sb_slices s q = Some t" "q \<noteq> k" for q t
  proof (rule slice_append_frame [OF a])
    show "slice_wf (sb_arrays s) (Some t)" using wf [of q] t by simp
    show "\<And>u. sb_slices s k = Some u \<Longrightarrow> sl_arr u \<noteq> sl_arr t" using assms t by (simp add: sub_wf_def)
  qed
  have e: "sub_add grow k v s = \<lparr>sb_arrays = ar, sb_slices = (sb_slices s)(k := Some sl)\<rparr>"
    by (simp add: sub_add_def a)
  have "slice_wf ar ((\<lambda>x. if x = k then Some sl else sb_slices s x) q)" for q
    using A F [of q] by (cases "sb_slices s q") (auto simp: slice_wf_def)
  moreover have "sub_elems (sub_add grow k v s) k' = sub_elems s k' @ (if k' = k then [v] else [])"
    using A F [of k'] by (cases "sb_slices s k'") (auto simp: e sub_elems_def slice_elems_None)
  ultimately show ?thesis
    using F assms by (auto simp: e sub_wf_def) metis+
qed

lemma sub_remove_law:
  assumes "sub_wf s"
  shows "sub_wf (sub_remove k v s) \<and>
    sub_elems (sub_remove k v s) k' = (if k' = k then remove1 v (sub_elems s k) else sub_elems s k')"
proof (cases "sb_slices s k")
  case None
  then show ?thesis using assms by (auto simp: sub_remove_def sub_elems_def slice_elems_None)
next
  case (Some sl)
  show ?thesis
  proof (cases "elem_pos v (slice_elems (sb_arrays s) (Some sl))")
    case None
    then show ?thesis using assms Some elem_pos_None [OF None] by (auto simp: sub_remove_def sub_elems_def)
  next
    case pos: (Some i)
    obtain sl' ar where d: "slice_delete i sl (sb_arrays s) = (sl', ar)" by fastforce
    have wf: "slice_wf (sb_arrays s) (sb_slices s q)" for q using assms by (simp add: sub_wf_def)
    have w: "slice_wf (sb_arrays s) (Some sl)" using wf [of k] Some by simp
    have i: "i < sl_len sl"
      using elem_pos_Some [OF pos] w by (simp add: slice_elems_def)
    note D = slice_delete_elems [OF w i d]
    have F: "slice_elems ar (Some t) = slice_elems (sb_arrays s) (Some t) \<and> slice_wf ar (Some t)"
      if t: "sb_slices s q = Some t" "q \<noteq> k" for q t
      using assms t Some wf [of q] by (intro slice_delete_frame [OF d]) (auto simp: sub_wf_def)
    have e: "sub_remove k v s = \<lparr>sb_arrays = ar, sb_slices = (sb_slices s)(k := Some sl')\<rparr>"
      using Some pos d by (simp add: sub_remove_def)
    have "slice_wf ar ((\<lambda>x. if x = k then Some sl' else sb_slices s x) q)" for q
      using D F [of q] by (cases "sb_slices s q") (auto simp: slice_wf_def)
    moreover have "sub_elems (sub_remove k v s) k' = (if k' = k then remove1 v (sub_elems s k) else sub_elems s k')"
      using D F [of k'] Some elem_pos_Some [OF pos]
      by (cases "sb_slices s k'") (auto simp: e sub_elems_def slice_elems_None)
    ultimately show ?thesis
      using D assms Some by (auto simp: e sub_wf_def)
  qed
qed

interpretation subs: registry sub_elems sub_wf "sub_add grow" sub_remove for grow
  using sub_add_law sub_remove_law by unfold_locales

lemma no_subscribers_tracks: "subs.tracks (\<lambda>k v. False) no_subscribers"
  by (simp add: subs.tracks_def sub_wf_def no_subscribers_def sub_elems_def slice_wf_def slice_elems_def)

end
