(* ===== verification/Streams.thy ===== *)
theory Streams
  imports Jwt_Auth Session Subscribers Go_Channel Go_Strconv
begin

text \<open>
  \<open>pkg/grpc/server.go\<close>: the streams of events. A stream has a channel of 100 events, registered
  under the key of its chain, contract and event, and an entry under its token; a broadcast puts
  an event into every channel of a key that has room; the stream's loop sends what it takes from
  its channel, counts the bytes, and ends when the token expires, its context is cancelled or a
  send fails. The mutex makes registration, clean-up and the reading of a slice header atomic; a
  broadcast sends outside of it, one channel per step. Stream and channel have one number.
\<close>

record pb_event =
  pe_BlockNumber :: int
  pe_TxHash :: string
  pe_Data :: string

record stream =
  sm_token :: string
  sm_key :: string
  sm_claims :: jwt_claims
  sm_live :: bool
  sm_cancelled :: bool
  sm_sent :: "pb_event list"

text \<open>Redis keys live until a time (\<open>sv_blacklist\<close>) or count (\<open>sv_usage\<close>, 0 when absent).\<close>

record srv =
  sv_subs :: subscribers
  sv_chans :: "nat \<Rightarrow> pb_event chan"
  sv_conns :: "string \<rightharpoonup> nat"
  sv_streams :: "nat \<Rightarrow> stream"
  sv_next :: nat
  sv_usage :: "string \<Rightarrow> int"
  sv_usage_expiry :: "string \<rightharpoonup> int"
  sv_sched :: "jwt_claims scheduler"
  sv_blacklist :: "string \<rightharpoonup> int"

record srv_cfg =
  sc_jwt :: jwt_lib
  sc_secret :: string
  sc_grow :: "nat \<Rightarrow> nat"

definition no_stream :: stream where
  "no_stream = \<lparr>sm_token = [], sm_key = [], sm_claims = \<lparr>jc_Address = [], jc_ExpiresAt = None, jc_IssuedAt = None\<rparr>,
     sm_live = False, sm_cancelled = False, sm_sent = []\<rparr>"

definition new_server :: "(nat \<Rightarrow> jwt_claims session_job) \<Rightarrow> srv" where
  "new_server m = \<lparr>sv_subs = no_subscribers, sv_chans = (\<lambda>_. make_chan 100), sv_conns = Map.empty,
     sv_streams = (\<lambda>_. no_stream), sv_next = 0, sv_usage = (\<lambda>_. 0), sv_usage_expiry = Map.empty,
     sv_sched = NewSessionScheduler m, sv_blacklist = Map.empty\<rparr>"

definition redis_live :: "int \<Rightarrow> srv \<Rightarrow> string \<Rightarrow> bool" where
  "redis_live now s k = (case sv_blacklist s k of Some e \<Rightarrow> now < e | None \<Rightarrow> False)"

definition stream_key :: "int \<Rightarrow> string \<Rightarrow> string \<Rightarrow> string" where
  "stream_key chain addr event = to_lower (fmt_d chain @ ''/'' @ addr @ ''/'' @ event)"

section \<open>Opening and closing a stream\<close>

definition stream_cancel :: "nat \<Rightarrow> srv \<Rightarrow> srv" where
  "stream_cancel i s = s\<lparr>sv_streams := (sv_streams s)(i := (sv_streams s i)\<lparr>sm_cancelled := True\<rparr>)\<rparr>"

text \<open>
  \<open>activeConnection.Close\<close>: it cancels the context first. Its error is that of the WebSocket
  (none of the repository's connections has one: \<open>None\<close>), writing the close message before closing, or
  else that of the last header of the gRPC stream; the only caller drops it.
\<close>

definition conn_Close :: "nat \<Rightarrow> srv \<Rightarrow> srv" where
  "conn_Close i s = stream_cancel i s"

definition close_result :: "(string option \<times> string option) option \<Rightarrow> string option option \<Rightarrow> string option" where
  "close_result conn grpcStream =
     (let wsErr = (case conn of
            None \<Rightarrow> None
          | Some (write_err, close_err) \<Rightarrow> if write_err \<noteq> None then write_err else close_err);
          grpcErr = (case grpcStream of None \<Rightarrow> None | Some header_err \<Rightarrow> header_err)
      in if wsErr \<noteq> None then wsErr else if grpcErr \<noteq> None then grpcErr else None)"

text \<open>The registration: an older connection of the token is closed first.\<close>

definition register_stream :: "srv_cfg \<Rightarrow> string \<Rightarrow> string \<Rightarrow> jwt_claims \<Rightarrow> srv \<Rightarrow> nat \<times> srv" where
  "register_stream cfg token key claims s =
     (let s1 = (case sv_conns s token of Some old \<Rightarrow> conn_Close old s | None \<Rightarrow> s);
          i = sv_next s1
      in (i, s1\<lparr>sv_subs := sub_add (sc_grow cfg) key i (sv_subs s1),
           sv_chans := (sv_chans s1)(i := make_chan 100),
           sv_conns := (sv_conns s1)(token \<mapsto> i),
           sv_streams := (sv_streams s1)(i := \<lparr>sm_token = token, sm_key = key, sm_claims = claims,
             sm_live = True, sm_cancelled = False, sm_sent = []\<rparr>),
           sv_next := i + 1\<rparr>))"

text \<open>The start of \<open>StreamEvents\<close>, up to the registration.\<close>

definition stream_open ::
  "srv_cfg \<Rightarrow> int \<Rightarrow> (string \<Rightarrow> string list) option \<Rightarrow> int \<Rightarrow> string \<Rightarrow> string \<Rightarrow> srv \<Rightarrow>
   rpc_status + nat \<times> srv" where
  "stream_open cfg now md0 chain addr event s =
     (case md0 of
        None \<Rightarrow> Inl (Unauthenticated ''missing metadata'')
      | Some md \<Rightarrow>
          let tokens = md ''authorization'' in
          if length tokens = 0 then Inl (Unauthenticated ''missing token'')
          else case server_ValidateJWT (sc_jwt cfg) now (sc_secret cfg) (redis_live now s) (tokens ! 0) of
              Inl err \<Rightarrow> Inl (Unauthenticated ''invalid token'')
            | Inr claims \<Rightarrow>
                Inr (register_stream cfg (trim_prefix (tokens ! 0) ''Bearer '') (stream_key chain addr event) claims s))"

text \<open>
  The deferred clean-up, with whether the end was expected: removing the channel and the entry
  under the mutex; then closing the channel, cancelling, and the receipt, which are taken in the
  same step (nothing but a broadcast under way knows the channel by then).
\<close>

definition ReceiptSubmissionDelay :: int where
  "ReceiptSubmissionDelay = 5 * 60 * 1000000000"

definition stream_cleanup :: "bool \<Rightarrow> int \<Rightarrow> nat \<Rightarrow> srv \<Rightarrow> srv go_step" where
  "stream_cleanup cleanDisconnect now i s =
     (let sm = sv_streams s i;
          conns = (if sv_conns s (sm_token sm) = Some i then (sv_conns s)(sm_token sm := None) else sv_conns s)
      in bind_step (chan_close (sv_chans s i))
           (\<lambda>c. Goes (s\<lparr>sv_subs := sub_remove (sm_key sm) i (sv_subs s),
              sv_conns := conns,
              sv_chans := (sv_chans s)(i := c),
              sv_streams := (sv_streams s)(i := sm\<lparr>sm_live := False, sm_cancelled := True\<rparr>),
              sv_sched := (if cleanDisconnect then sv_sched s
                else ScheduleSessionReceipt now (sm_token sm) (sm_claims sm) ReceiptSubmissionDelay (sv_sched s))\<rparr>)))"

text \<open>
  The header, and the expiry: a token without one would be a nil pointer. \<open>True\<close>: the loop starts.
\<close>

definition stream_header :: "bool \<Rightarrow> int \<Rightarrow> nat \<Rightarrow> srv \<Rightarrow> (bool \<times> srv) go_step" where
  "stream_header sent now i s =
     (if \<not> sent then bind_step (stream_cleanup False now i s) (\<lambda>s'. Goes (False, s'))
      else if jc_ExpiresAt (sm_claims (sv_streams s i)) = None then Panics
      else Goes (True, s))"

section \<open>The loop\<close>

text \<open>
  What the \<open>select\<close> takes; with an event, whether Redis counts it, whether Redis sets the
  counter's expiry, and whether the client takes it.
\<close>

datatype stream_turn = Expired | ContextDone | Event bool bool bool

definition usage_key :: "string \<Rightarrow> string" where
  "usage_key token = ''usage_bytes_'' @ token"

definition usage_until :: "jwt_claims \<Rightarrow> int" where
  "usage_until claims =
     (the (jc_ExpiresAt claims) div 1000000000) * 1000000000 + 10 * 60 * 1000000000"

definition count_usage :: "bool \<Rightarrow> bool \<Rightarrow> stream \<Rightarrow> pb_event \<Rightarrow> srv \<Rightarrow> srv" where
  "count_usage incr_ok expire_ok sm ev s =
     (let count = int (length (pe_Data ev));
          key = usage_key (sm_token sm);
          total = (if incr_ok then sv_usage s key + count else 0);
          s1 = (if incr_ok then s\<lparr>sv_usage := (sv_usage s)(key := total)\<rparr> else s)
      in if total = count \<and> expire_ok
         then s1\<lparr>sv_usage_expiry := (sv_usage_expiry s1)(key \<mapsto> usage_until (sm_claims sm))\<rparr> else s1)"

text \<open>Redis drops a counter once its expiry has come.\<close>

definition usage_drop :: "string \<Rightarrow> srv \<Rightarrow> srv" where
  "usage_drop key s =
     s\<lparr>sv_usage := (sv_usage s)(key := 0), sv_usage_expiry := (sv_usage_expiry s)(key := None)\<rparr>"

text \<open>
  A turn of the loop; \<open>True\<close>: it goes on. Receiving, counting and sending an event are one step:
  the stream is the only one to receive from its channel and to send on its connection.
\<close>

fun stream_loop :: "stream_turn \<Rightarrow> int \<Rightarrow> nat \<Rightarrow> srv \<Rightarrow> (bool \<times> srv) go_step" where
  "stream_loop Expired now i s = bind_step (stream_cleanup True now i s) (\<lambda>s'. Goes (False, s'))"
| "stream_loop ContextDone now i s =
     (if sm_cancelled (sv_streams s i)
      then bind_step (stream_cleanup True now i s) (\<lambda>s'. Goes (False, s')) else Blocks)"
| "stream_loop (Event incr_ok expire_ok send_ok) now i s =
     bind_step (chan_recv (sv_chans s i))
       (\<lambda>(e, c). case e of
          None \<Rightarrow> Panics
        | Some ev \<Rightarrow>
            let sm = sv_streams s i;
                s1 = count_usage incr_ok expire_ok sm ev (s\<lparr>sv_chans := (sv_chans s)(i := c)\<rparr>)
            in if send_ok
               then Goes (True, s1\<lparr>sv_streams := (sv_streams s1)(i := sm\<lparr>sm_sent := sm_sent sm @ [ev]\<rparr>)\<rparr>)
               else bind_step (stream_cleanup False now i s1) (\<lambda>s'. Goes (False, s')))"

section \<open>Broadcasts\<close>

text \<open>A broadcast under way: the event, its copy of the slice header, and its place in it.\<close>

record broadcast =
  bc_event :: pb_event
  bc_slice :: "slice option"
  bc_index :: nat

definition bcast_start :: "int \<Rightarrow> string \<Rightarrow> string \<Rightarrow> pb_event \<Rightarrow> srv \<Rightarrow> broadcast" where
  "bcast_start chain addr event ev s =
     \<lparr>bc_event = ev, bc_slice = sb_slices (sv_subs s) (stream_key chain addr event), bc_index = 0\<rparr>"

definition bcast_length :: "broadcast \<Rightarrow> nat" where
  "bcast_length b = (case bc_slice b of None \<Rightarrow> 0 | Some sl \<Rightarrow> sl_len sl)"

definition bcast_step :: "broadcast \<Rightarrow> srv \<Rightarrow> (broadcast \<times> srv) go_step" where
  "bcast_step b s =
     (let i = slice_elems (sb_arrays (sv_subs s)) (bc_slice b) ! bc_index b in
      bind_step (chan_try_send (bc_event b) (sv_chans s i))
        (\<lambda>c. Goes (b\<lparr>bc_index := bc_index b + 1\<rparr>, s\<lparr>sv_chans := (sv_chans s)(i := c)\<rparr>)))"

fun bcast_steps :: "nat \<Rightarrow> broadcast \<Rightarrow> srv \<Rightarrow> srv go_step" where
  "bcast_steps 0 b s = Goes s"
| "bcast_steps (Suc n) b s = bind_step (bcast_step b s) (\<lambda>(b', s'). bcast_steps n b' s')"

text \<open>\<open>BroadcastEvent\<close> when nothing happens in between. It returns no error.\<close>

definition BroadcastEvent :: "int \<Rightarrow> string \<Rightarrow> string \<Rightarrow> pb_event \<Rightarrow> srv \<Rightarrow> srv go_step" where
  "BroadcastEvent chain addr event ev s =
     (let b = bcast_start chain addr event ev s in bcast_steps (bcast_length b) b s)"

section \<open>Disconnecting\<close>

text \<open>The two critical sections of \<open>DisconnectStream\<close>; between them the lock is free.\<close>

definition disconnect_begin :: "string \<Rightarrow> srv \<Rightarrow> (nat \<times> srv) option" where
  "disconnect_begin token s =
     map_option (\<lambda>i. (i, stream_cancel i (s\<lparr>sv_sched := snd (CancelSessionReceipt token (sv_sched s))\<rparr>)))
       (sv_conns s token)"

text \<open>The token is kept on the blacklist for the rest of its life.\<close>

definition disconnect_finish :: "string \<Rightarrow> jwt_claims \<Rightarrow> srv \<Rightarrow> srv go_step" where
  "disconnect_finish token claims s =
     (case jc_ExpiresAt claims of
        None \<Rightarrow> Panics
      | Some e \<Rightarrow> Goes (s\<lparr>sv_conns := (sv_conns s)(token := None),
          sv_blacklist := (sv_blacklist s)(blacklist_key token \<mapsto> e)\<rparr>))"

definition DisconnectStream ::
  "srv_cfg \<Rightarrow> int \<Rightarrow> (string \<Rightarrow> string list) option \<Rightarrow> srv \<Rightarrow> (rpc_status option \<times> srv) go_step" where
  "DisconnectStream cfg now md0 s =
     (case md0 of
        None \<Rightarrow> Goes (Some (Unauthenticated ''missing metadata''), s)
      | Some md \<Rightarrow>
          let tokens = md ''authorization'' in
          if length tokens = 0 then Goes (Some (Unauthenticated ''missing token''), s)
          else case server_ValidateJWT (sc_jwt cfg) now (sc_secret cfg) (redis_live now s) (tokens ! 0) of
              Inl err \<Rightarrow> Goes (Some (Unauthenticated ''Invalid token''), s)
            | Inr claims \<Rightarrow>
                let token = trim_prefix (tokens ! 0) ''Bearer '' in
                case disconnect_begin token s of
                  None \<Rightarrow> Goes (Some (NotFound ''Connection not found''), s)
                | Some (i, s1) \<Rightarrow>
                    bind_step (disconnect_finish token claims s1) (\<lambda>s2. Goes (None, s2)))"

section \<open>Reachable states\<close>

text \<open>
  The states of a server: streams open, send their header, turn and end, clients go away (which
  cancels the context of the stream, the parent of the one the loop selects on), events are
  broadcast (each send a step of its own, to any channel), clients ask to be disconnected (in
  one step), the scheduler turns, Redis drops counters that have expired.
\<close>

inductive srv_reach :: "srv_cfg \<Rightarrow> srv \<Rightarrow> bool" for cfg where
  start: "srv_reach cfg (new_server m)"
| opened: "srv_reach cfg s \<Longrightarrow> stream_open cfg now md chain addr event s = Inr (i, s') \<Longrightarrow> srv_reach cfg s'"
| header: "srv_reach cfg s \<Longrightarrow> i < sv_next s \<Longrightarrow> sm_live (sv_streams s i) \<Longrightarrow>
    stream_header sent now i s = Goes (b, s') \<Longrightarrow> srv_reach cfg s'"
| turn: "srv_reach cfg s \<Longrightarrow> i < sv_next s \<Longrightarrow> sm_live (sv_streams s i) \<Longrightarrow>
    stream_loop t now i s = Goes (b, s') \<Longrightarrow> srv_reach cfg s'"
| gone: "srv_reach cfg s \<Longrightarrow> srv_reach cfg (stream_cancel i s)"
| bcast: "srv_reach cfg s \<Longrightarrow> bcast_step b s = Goes (b', s') \<Longrightarrow> srv_reach cfg s'"
| disconnect: "srv_reach cfg s \<Longrightarrow> DisconnectStream cfg now md s = Goes (r, s') \<Longrightarrow> srv_reach cfg s'"
| sched: "srv_reach cfg s \<Longrightarrow> run_turn now now' (sv_sched s) = (subs, sch) \<Longrightarrow>
    srv_reach cfg (s\<lparr>sv_sched := sch\<rparr>)"
| dropped: "srv_reach cfg s \<Longrightarrow> sv_usage_expiry s key = Some e \<Longrightarrow> e \<le> now \<Longrightarrow> srv_reach cfg (usage_drop key s)"

text \<open>
  The invariant: the slice of a key holds exactly the channels of the live streams of that key,
  once each; a channel is closed exactly when its stream has ended, and holds at most 100
  events; a token's entry is a live stream of that token, and a live stream that has lost its
  entry is cancelled.
\<close>

definition live_under :: "srv \<Rightarrow> string \<Rightarrow> nat \<Rightarrow> bool" where
  "live_under s key i = (i < sv_next s \<and> sm_live (sv_streams s i) \<and> sm_key (sv_streams s i) = key)"

definition chan_ok :: "pb_event chan \<Rightarrow> bool \<Rightarrow> bool" where
  "chan_ok c live = (ch_closed c = (\<not> live) \<and> ch_cap c = 100 \<and> length (ch_buf c) \<le> 100)"

definition conns_ok :: "srv \<Rightarrow> bool" where
  "conns_ok s =
     ((\<forall>t i. sv_conns s t = Some i \<longrightarrow> i < sv_next s \<and> sm_live (sv_streams s i) \<and> sm_token (sv_streams s i) = t) \<and>
      (\<forall>i < sv_next s. sm_live (sv_streams s i) \<longrightarrow> sv_conns s (sm_token (sv_streams s i)) \<noteq> Some i \<longrightarrow>
         sm_cancelled (sv_streams s i)))"

definition srv_inv :: "srv \<Rightarrow> bool" where
  "srv_inv s =
     (subs.tracks (live_under s) (sv_subs s) \<and>
      (\<forall>i < sv_next s. chan_ok (sv_chans s i) (sm_live (sv_streams s i))) \<and>
      conns_ok s \<and> sched_inv (sv_sched s))"

lemma srv_invD:
  assumes "srv_inv s"
  shows "subs.tracks (live_under s) (sv_subs s)"
    and "i < sv_next s \<Longrightarrow> chan_ok (sv_chans s i) (sm_live (sv_streams s i))"
    and "conns_ok s" "sched_inv (sv_sched s)"
  using assms by (auto simp: srv_inv_def)

lemma new_server_inv: "srv_inv (new_server m)"
proof -
  have "live_under (new_server m) k i = False" for k i by (simp add: live_under_def new_server_def)
  then have "subs.tracks (live_under (new_server m)) (sv_subs (new_server m))"
    using no_subscribers_tracks by (auto simp: new_server_def elim: subs.tracks_cong)
  then show ?thesis by (simp add: srv_inv_def conns_ok_def NewSessionScheduler_inv) (simp add: new_server_def NewSessionScheduler_inv)
qed

text \<open>Cancelling, with the changes to the scheduler that come with it.\<close>

lemma stream_cancel_fields [simp]:
  "sv_subs (stream_cancel i s) = sv_subs s" "sv_chans (stream_cancel i s) = sv_chans s"
  "sv_conns (stream_cancel i s) = sv_conns s" "sv_next (stream_cancel i s) = sv_next s"
  "sv_sched (stream_cancel i s) = sv_sched s" "sv_blacklist (stream_cancel i s) = sv_blacklist s"
  "sm_live (sv_streams (stream_cancel i s) j) = sm_live (sv_streams s j)"
  "sm_key (sv_streams (stream_cancel i s) j) = sm_key (sv_streams s j)"
  "sm_token (sv_streams (stream_cancel i s) j) = sm_token (sv_streams s j)"
  "sm_cancelled (sv_streams (stream_cancel i s) j) = (j = i \<or> sm_cancelled (sv_streams s j))"
  "live_under (stream_cancel i s) = live_under s"
  by (auto simp: stream_cancel_def live_under_def fun_eq_iff)

lemma stream_cancel_inv: "srv_inv s \<Longrightarrow> srv_inv (stream_cancel i s)"
  unfolding srv_inv_def conns_ok_def stream_cancel_fields by blast

text \<open>Opening.\<close>

lemma register_stream_inv:
  assumes inv: "srv_inv s" and o: "register_stream cfg token key claims s = (i, s')"
  shows "srv_inv s' \<and> i = sv_next s \<and> live_under s' key i"
proof -
  define s1 where "s1 = (case sv_conns s token of Some old \<Rightarrow> conn_Close old s | None \<Rightarrow> s)"
  have inv1: "srv_inv s1"
    using inv stream_cancel_inv by (auto simp: s1_def conn_Close_def split: option.splits)
  have next1: "sv_next s1 = sv_next s" by (auto simp: s1_def conn_Close_def split: option.splits)
  have old: "sv_conns s1 token = Some old \<Longrightarrow> sm_cancelled (sv_streams s1 old)" for old
    by (auto simp: s1_def conn_Close_def split: option.splits)
  note D = srv_invD [OF inv1]
  have i: "i = sv_next s1" and e: "s' = s1\<lparr>sv_subs := sub_add (sc_grow cfg) key i (sv_subs s1),
         sv_chans := (sv_chans s1)(i := make_chan 100), sv_conns := (sv_conns s1)(token \<mapsto> i),
         sv_streams := (sv_streams s1)(i := \<lparr>sm_token = token, sm_key = key,
           sm_claims = claims, sm_live = True, sm_cancelled = False, sm_sent = []\<rparr>),
         sv_next := i + 1\<rparr>"
    using o unfolding register_stream_def s1_def [symmetric] Let_def by auto
  have fresh: "\<not> live_under s1 key i" using i by (simp add: live_under_def)
  have "subs.tracks (live_under s') (sv_subs s')"
    using subs.tracks_add [OF D(1) fresh, of "sc_grow cfg"] i
    by (auto simp: e live_under_def less_Suc_eq elim!: subs.tracks_cong)
  moreover have "\<forall>j < sv_next s'. chan_ok (sv_chans s' j) (sm_live (sv_streams s' j))"
    using D(2) i by (auto simp: e less_Suc_eq chan_ok_def make_chan_def)
  moreover have "conns_ok s'"
    using D(3) old i unfolding conns_ok_def e by (auto simp: less_Suc_eq)
  ultimately show ?thesis using D(4) i next1 by (simp add: srv_inv_def e live_under_def)
qed

lemma stream_open_inv:
  assumes "srv_inv s" "stream_open cfg now md chain addr event s = Inr (i, s')"
  shows "srv_inv s' \<and> i = sv_next s \<and> live_under s' (stream_key chain addr event) i"
  using assms register_stream_inv
  by (auto simp: stream_open_def Let_def split: option.splits sum.splits if_splits)

text \<open>Ending.\<close>

lemma stream_cleanup_inv:
  assumes inv: "srv_inv s" and i: "i < sv_next s" "sm_live (sv_streams s i)"
  obtains s' where "stream_cleanup clean now i s = Goes s'" "srv_inv s'" "sv_next s' = sv_next s"
    "\<not> sm_live (sv_streams s' i)" "ch_closed (sv_chans s' i)" "\<And>j. j \<noteq> i \<Longrightarrow> sv_streams s' j = sv_streams s j"
proof -
  note D = srv_invD [OF inv]
  let ?sm = "sv_streams s i" and ?c = "sv_chans s i"
  have c: "\<not> ch_closed ?c" using D(2) [OF i(1)] i(2) by (simp add: chan_ok_def)
  define s' where "s' = s\<lparr>sv_subs := sub_remove (sm_key ?sm) i (sv_subs s),
      sv_conns := (if sv_conns s (sm_token ?sm) = Some i then (sv_conns s)(sm_token ?sm := None) else sv_conns s),
      sv_chans := (sv_chans s)(i := ?c\<lparr>ch_closed := True\<rparr>),
      sv_streams := (sv_streams s)(i := ?sm\<lparr>sm_live := False, sm_cancelled := True\<rparr>),
      sv_sched := (if clean then sv_sched s
        else ScheduleSessionReceipt now (sm_token ?sm) (sm_claims ?sm) ReceiptSubmissionDelay (sv_sched s))\<rparr>"
  have e: "stream_cleanup clean now i s = Goes s'"
    using c by (simp add: stream_cleanup_def chan_close_def s'_def Let_def)
  have "subs.tracks (live_under s') (sv_subs s')"
    using subs.tracks_remove [OF D(1), of "sm_key ?sm" i]
    by (auto simp: s'_def live_under_def split: if_splits elim!: subs.tracks_cong)
  moreover have "\<forall>j < sv_next s'. chan_ok (sv_chans s' j) (sm_live (sv_streams s' j))"
    using D(2) by (auto simp: s'_def chan_ok_def)
  moreover have f: "sv_next s' = sv_next s" "sv_conns s' u = (if sv_conns s u = Some i \<and> u = sm_token ?sm then None else sv_conns s u)"
      "sm_live (sv_streams s' j) = (j \<noteq> i \<and> sm_live (sv_streams s j))" "sm_token (sv_streams s' j) = sm_token (sv_streams s j)"
      "sm_cancelled (sv_streams s' j) = (j = i \<or> sm_cancelled (sv_streams s j))" for j u
    by (auto simp: s'_def)
  have "conns_ok s'"
    unfolding conns_ok_def f
  proof (intro conjI allI impI)
    fix u j assume "(if sv_conns s u = Some i \<and> u = sm_token ?sm then None else sv_conns s u) = Some j"
    then have j: "sv_conns s u = Some j" "\<not> (j = i \<and> u = sm_token ?sm)" by (auto split: if_splits)
    then have "j < sv_next s \<and> sm_live (sv_streams s j) \<and> sm_token (sv_streams s j) = u"
      using D(3) unfolding conns_ok_def by blast
    then show "j < sv_next s" "j \<noteq> i" "sm_live (sv_streams s j)" "sm_token (sv_streams s j) = u" using j by auto
  next
    fix j assume j: "j < sv_next s" "j \<noteq> i \<and> sm_live (sv_streams s j)"
      and n: "(if sv_conns s (sm_token (sv_streams s j)) = Some i \<and> sm_token (sv_streams s j) = sm_token ?sm
        then None else sv_conns s (sm_token (sv_streams s j))) \<noteq> Some j"
    then have "sv_conns s (sm_token (sv_streams s j)) \<noteq> Some j" by (auto split: if_splits)
    then show "j = i \<or> sm_cancelled (sv_streams s j)" using D(3) j unfolding conns_ok_def by blast
  qed
  ultimately have inv': "srv_inv s'" using D(4) Schedule_inv by (auto simp: srv_inv_def s'_def)
  show thesis by (rule that [OF e inv']) (auto simp: s'_def)
qed

lemma stream_cleanup_after:
  assumes "srv_inv s" "i < sv_next s" "sm_live (sv_streams s i)" "stream_cleanup clean now i s = Goes s'"
  shows "srv_inv s' \<and> sv_next s' = sv_next s \<and> \<not> sm_live (sv_streams s' i)"
  using stream_cleanup_inv [OF assms(1-3), of clean now] assms(4) by (metis go_step.inject)

text \<open>Counting and sending.\<close>

lemma count_usage_fields [simp]:
  "sv_subs (count_usage a b sm ev s) = sv_subs s" "sv_chans (count_usage a b sm ev s) = sv_chans s"
  "sv_conns (count_usage a b sm ev s) = sv_conns s" "sv_next (count_usage a b sm ev s) = sv_next s"
  "sv_sched (count_usage a b sm ev s) = sv_sched s" "sv_streams (count_usage a b sm ev s) = sv_streams s"
  "live_under (count_usage a b sm ev s) = live_under s"
  by (simp_all add: count_usage_def Let_def live_under_def fun_eq_iff)

lemma count_usage_inv [simp]: "srv_inv (count_usage a b sm ev s) = srv_inv s"
  by (simp add: srv_inv_def conns_ok_def)

lemma srv_inv_chan:
  assumes "srv_inv s" "chan_ok c (sm_live (sv_streams s i))"
  shows "srv_inv (s\<lparr>sv_chans := (sv_chans s)(i := c)\<rparr>)"
proof -
  have "live_under (s\<lparr>sv_chans := (sv_chans s)(i := c)\<rparr>) = live_under s"
    by (simp add: live_under_def fun_eq_iff)
  then show ?thesis using assms by (auto simp: srv_inv_def conns_ok_def)
qed

lemma srv_inv_sent:
  assumes "srv_inv s"
  shows "srv_inv (s\<lparr>sv_streams := (sv_streams s)(i := (sv_streams s i)\<lparr>sm_sent := evs\<rparr>)\<rparr>)"
proof -
  let ?s = "s\<lparr>sv_streams := (sv_streams s)(i := (sv_streams s i)\<lparr>sm_sent := evs\<rparr>)\<rparr>"
  have f: "sm_live (sv_streams ?s j) = sm_live (sv_streams s j)" "sm_token (sv_streams ?s j) = sm_token (sv_streams s j)"
    "sm_cancelled (sv_streams ?s j) = sm_cancelled (sv_streams s j)" "sm_key (sv_streams ?s j) = sm_key (sv_streams s j)" for j
    by simp_all
  have "live_under ?s = live_under s" by (simp add: live_under_def fun_eq_iff)
  then show ?thesis using assms unfolding srv_inv_def conns_ok_def f by simp
qed

lemma chan_recv_ok: "chan_ok c live \<Longrightarrow> chan_recv c = Goes (x, c') \<Longrightarrow> chan_ok c' live"
  by (auto simp: chan_ok_def chan_recv_def split: list.splits if_splits)

lemma chan_try_send_ok: "chan_ok c live \<Longrightarrow> chan_try_send x c = Goes c' \<Longrightarrow> chan_ok c' live"
  by (auto simp: chan_ok_def chan_try_send_def chan_send_def split: if_splits)

text \<open>The ways a turn can go: the stream ends, an event is sent, or its sending fails.\<close>

lemma stream_loop_cases:
  assumes "stream_loop t now i s = Goes (b, s')"
  obtains (ended) "t = Expired \<or> t = ContextDone" "stream_cleanup True now i s = Goes s'" "\<not> b"
  | (sent) a e ev c s1 where "t = Event a e True" "chan_recv (sv_chans s i) = Goes (Some ev, c)"
      "s1 = count_usage a e (sv_streams s i) ev (s\<lparr>sv_chans := (sv_chans s)(i := c)\<rparr>)"
      "s' = s1\<lparr>sv_streams := (sv_streams s)(i := (sv_streams s i)\<lparr>sm_sent := sm_sent (sv_streams s i) @ [ev]\<rparr>)\<rparr>" "b"
  | (failed) a e ev c s1 where "t = Event a e False" "chan_recv (sv_chans s i) = Goes (Some ev, c)"
      "s1 = count_usage a e (sv_streams s i) ev (s\<lparr>sv_chans := (sv_chans s)(i := c)\<rparr>)"
      "stream_cleanup False now i s1 = Goes s'" "\<not> b"
proof (cases t)
  case (Event a e k)
  with assms that(2,3) show thesis by (cases k) (auto simp: result_simps Let_def split: option.splits)
qed (use assms that(1) in \<open>auto simp: result_simps split: if_splits\<close>)

lemma stream_loop_inv:
  assumes inv: "srv_inv s" and i: "i < sv_next s" "sm_live (sv_streams s i)"
    and t: "stream_loop t now i s = Goes (b, s')"
  shows "srv_inv s' \<and> sv_next s' = sv_next s \<and> sm_live (sv_streams s' i) = b"
proof -
  have counted: "srv_inv (count_usage a e (sv_streams s i) ev (s\<lparr>sv_chans := (sv_chans s)(i := c)\<rparr>))"
    if "chan_recv (sv_chans s i) = Goes (Some ev, c)" for a e ev c
    using srv_inv_chan [OF inv chan_recv_ok [OF srv_invD(2) [OF inv i(1)] that]] by simp
  from t show ?thesis
  proof (cases rule: stream_loop_cases)
    case ended
    then show ?thesis using stream_cleanup_after [OF inv i] by simp
  next
    case (sent a e ev c s1)
    have "srv_inv s1" using counted [OF sent(2)] sent(3) by simp
    then show ?thesis
      using srv_inv_sent [of s1 i "sm_sent (sv_streams s i) @ [ev]"] i by (simp add: sent(3-5))
  next
    case (failed a e ev c s1)
    have "srv_inv s1" using counted [OF failed(2)] failed(3) by simp
    from stream_cleanup_after [OF this _ _ failed(4)] show ?thesis using i failed(3,5) by simp
  qed
qed

text \<open>The other steps.\<close>

lemma stream_header_inv:
  assumes "srv_inv s" "i < sv_next s" "sm_live (sv_streams s i)" "stream_header sent now i s = Goes (b, s')"
  shows "srv_inv s'"
  using assms stream_cleanup_after [OF assms(1-3)]
  by (auto simp: stream_header_def result_simps split: if_splits)

lemma bcast_step_chan:
  assumes "bcast_step b s = Goes (b', s')"
  obtains i c where "chan_try_send (bc_event b) (sv_chans s i) = Goes c" "s' = s\<lparr>sv_chans := (sv_chans s)(i := c)\<rparr>"
  using assms by (auto simp: bcast_step_def Let_def result_simps)

lemma bcast_step_inv:
  assumes inv: "srv_inv s" and b: "bcast_step b s = Goes (b', s')"
  shows "srv_inv s'"
proof -
  obtain i c where c: "chan_try_send (bc_event b) (sv_chans s i) = Goes c" and s': "s' = s\<lparr>sv_chans := (sv_chans s)(i := c)\<rparr>"
    using bcast_step_chan [OF b] .
  show ?thesis
  proof (cases "i < sv_next s")
    case True
    then show ?thesis unfolding s' by (intro srv_inv_chan [OF inv chan_try_send_ok [OF srv_invD(2) [OF inv] c]])
  next
    case False
    have "live_under s' = live_under s" by (simp add: live_under_def fun_eq_iff s')
    then show ?thesis using inv False by (auto simp: srv_inv_def conns_ok_def s')
  qed
qed

lemma disconnect_inv:
  assumes inv: "srv_inv s" and d: "DisconnectStream cfg now md s = Goes (r, s')"
  shows "srv_inv s'"
proof -
  consider "s' = s" | token claims i s1 where "disconnect_begin token s = Some (i, s1)"
      "disconnect_finish token claims s1 = Goes s'"
    using d by (auto simp: DisconnectStream_def Let_def result_simps split: option.splits sum.splits if_splits)
  then show ?thesis
  proof cases
    case 2
    then have i: "sv_conns s token = Some i"
      and s1: "s1 = stream_cancel i (s\<lparr>sv_sched := snd (CancelSessionReceipt token (sv_sched s))\<rparr>)"
      by (auto simp: disconnect_begin_def)
    obtain e where s': "s' = s1\<lparr>sv_conns := (sv_conns s1)(token := None),
        sv_blacklist := (sv_blacklist s1)(blacklist_key token \<mapsto> e)\<rparr>"
      using 2(2) by (auto simp: disconnect_finish_def split: option.splits)
    note D = srv_invD [OF inv]
    have f: "sv_next s' = sv_next s" "sv_chans s' = sv_chans s" "sv_subs s' = sv_subs s"
        "sv_conns s' = (sv_conns s)(token := None)" "sv_sched s' = snd (CancelSessionReceipt token (sv_sched s))"
        "sm_live (sv_streams s' j) = sm_live (sv_streams s j)" "sm_token (sv_streams s' j) = sm_token (sv_streams s j)"
        "sm_key (sv_streams s' j) = sm_key (sv_streams s j)"
        "sm_cancelled (sv_streams s' j) = (j = i \<or> sm_cancelled (sv_streams s j))" for j
      by (simp_all add: s' s1)
    have "live_under s' = live_under s" by (simp add: live_under_def fun_eq_iff f)
    moreover have "conns_ok s'"
      unfolding conns_ok_def f
    proof (intro conjI allI impI)
      fix u j assume "((sv_conns s)(token := None)) u = Some j"
      then have "sv_conns s u = Some j" by (auto split: if_splits)
      then show "j < sv_next s" "sm_live (sv_streams s j)" "sm_token (sv_streams s j) = u"
        using D(3) unfolding conns_ok_def by blast+
    next
      fix j assume j: "j < sv_next s" "sm_live (sv_streams s j)"
        and n: "((sv_conns s)(token := None)) (sm_token (sv_streams s j)) \<noteq> Some j"
      then have "j = i \<or> sv_conns s (sm_token (sv_streams s j)) \<noteq> Some j" using i by (auto split: if_splits)
      then show "j = i \<or> sm_cancelled (sv_streams s j)" using D(3) j unfolding conns_ok_def by blast
    qed
    ultimately show ?thesis using D(1,2,4) Cancel_inv by (auto simp: srv_inv_def f)
  qed (use inv in simp)
qed

lemma usage_drop_fields [simp]:
  "sv_subs (usage_drop key s) = sv_subs s" "sv_chans (usage_drop key s) = sv_chans s"
  "sv_conns (usage_drop key s) = sv_conns s" "sv_next (usage_drop key s) = sv_next s"
  "sv_sched (usage_drop key s) = sv_sched s" "sv_streams (usage_drop key s) = sv_streams s"
  "live_under (usage_drop key s) = live_under s"
  by (simp_all add: usage_drop_def live_under_def fun_eq_iff)

lemma usage_drop_inv [simp]: "srv_inv (usage_drop key s) = srv_inv s"
  by (simp add: srv_inv_def conns_ok_def)

lemma srv_reach_inv: "srv_reach cfg s \<Longrightarrow> srv_inv s"
proof (induction rule: srv_reach.induct)
  case (sched s now now' subs sch)
  have "sched_inv sch" using run_turn_spec [OF srv_invD(4) [OF sched(3)] sched(2)] by (metis sched_inv_timer)
  moreover have "live_under (s\<lparr>sv_sched := sch\<rparr>) = live_under s" by (simp add: live_under_def fun_eq_iff)
  ultimately show ?case using sched(3) by (simp add: srv_inv_def conns_ok_def)
qed (auto intro: new_server_inv stream_open_inv [THEN conjunct1] stream_header_inv stream_loop_inv [THEN conjunct1]
    stream_cancel_inv bcast_step_inv disconnect_inv)

text \<open>
  C3. In every state the server reaches, however its streams, broadcasts and scheduler
  interleave, with each \<open>DisconnectStream\<close> and each clean-up (which closes, cancels and schedules the
  receipt after it has left the mutex) taken as one step: the subscribers of a key are exactly
  the channels of the live streams of that key, once each; the channels of ended streams are closed and the others open with at
  most 100 events; the connection of a token is a live stream of that token; and of two live
  streams of one token at most one is not cancelled.
\<close>

theorem registry_invariant:
  assumes "srv_reach cfg s"
  shows "distinct (sub_elems (sv_subs s) key)
    \<and> set (sub_elems (sv_subs s) key) = {i. i < sv_next s \<and> sm_live (sv_streams s i) \<and> sm_key (sv_streams s i) = key}
    \<and> (i < sv_next s \<longrightarrow> ch_closed (sv_chans s i) = (\<not> sm_live (sv_streams s i)) \<and> length (ch_buf (sv_chans s i)) \<le> 100)
    \<and> (sv_conns s t = Some i \<longrightarrow> i < sv_next s \<and> sm_live (sv_streams s i) \<and> sm_token (sv_streams s i) = t)
    \<and> (i < sv_next s \<and> j < sv_next s \<and> i \<noteq> j \<and> sm_live (sv_streams s i) \<and> sm_live (sv_streams s j) \<and>
       sm_token (sv_streams s i) = sm_token (sv_streams s j) \<longrightarrow>
       sm_cancelled (sv_streams s i) \<or> sm_cancelled (sv_streams s j))"
proof -
  note D = srv_invD [OF srv_reach_inv [OF assms]]
  have "distinct (sub_elems (sv_subs s) key) \<and> set (sub_elems (sv_subs s) key) = {i. live_under s key i}"
    using D(1) by (simp add: subs.tracks_def)
  moreover have "i < sv_next s \<Longrightarrow> chan_ok (sv_chans s i) (sm_live (sv_streams s i))" by (rule D(2))
  moreover have "sv_conns s t = Some i \<Longrightarrow> i < sv_next s \<and> sm_live (sv_streams s i) \<and> sm_token (sv_streams s i) = t"
    using D(3) unfolding conns_ok_def by blast
  moreover have "sm_cancelled (sv_streams s i) \<or> sm_cancelled (sv_streams s j)"
    if "i < sv_next s" "j < sv_next s" "i \<noteq> j" "sm_live (sv_streams s i)" "sm_live (sv_streams s j)"
      "sm_token (sv_streams s i) = sm_token (sv_streams s j)"
    using D(3) that unfolding conns_ok_def by (metis option.inject)
  ultimately show ?thesis by (auto simp: live_under_def chan_ok_def)
qed

section \<open>Keys\<close>

lemma slash_split:
  "CHR ''/'' \<notin> set x \<Longrightarrow> CHR ''/'' \<notin> set x' \<Longrightarrow>
   (x @ CHR ''/'' # y = x' @ CHR ''/'' # y') = (x = x' \<and> y = y')"
proof (induction x arbitrary: x')
  case Nil
  then show ?case by (cases x') auto
next
  case (Cons a x)
  then show ?case by (cases x') auto
qed

text \<open>
  Two streams, or a stream and a broadcast, share a key exactly when they have the same
  chain, and the same contract and event up to case.
\<close>

theorem stream_key_inject:
  assumes "CHR ''/'' \<notin> set addr" and "CHR ''/'' \<notin> set addr'"
  shows "stream_key chain addr event = stream_key chain' addr' event' \<longleftrightarrow>
    chain = chain' \<and> to_lower addr = to_lower addr' \<and> to_lower event = to_lower event'"
proof -
  have k: "stream_key c a e = fmt_d c @ CHR ''/'' # to_lower a @ CHR ''/'' # to_lower e" for c a e
    by (simp add: stream_key_def to_lower_append lower_fmt_d)
  show ?thesis
    unfolding k using assms slash_fmt_d by (simp add: slash_split fmt_d_inject)
qed

theorem stream_key_inject_witness:
  "stream_key 39 ''0xAB'' ''Transfer'' = stream_key 39 ''0xab'' ''transfer'' \<and>
   stream_key 3 ''9'' ''a'' \<noteq> stream_key 39 [] ''a''"
proof -
  have l: "to_lower ''0xAB'' = to_lower ''0xab''" "to_lower ''Transfer'' = to_lower ''transfer''" by code_simp+
  show ?thesis
    using stream_key_inject [of "''0xAB''" "''0xab''" 39 "''Transfer''" 39 "''transfer''"] l
      stream_key_inject [of "''9''" "[]" 3 "''a''" 39 "''a''"]
    by (simp del: to_lower_Cons)
qed

section \<open>A broadcast on its own\<close>

definition offer :: "pb_event \<Rightarrow> pb_event chan \<Rightarrow> pb_event chan" where
  "offer ev c = (if length (ch_buf c) < 100 then c\<lparr>ch_buf := ch_buf c @ [ev]\<rparr> else c)"

lemma try_send_offer: "chan_ok c True \<Longrightarrow> chan_try_send ev c = Goes (offer ev c)"
  by (auto simp: chan_ok_def chan_try_send_def chan_send_def offer_def)

lemma bcast_steps_offer:
  assumes "distinct (slice_elems (sb_arrays (sv_subs s)) (bc_slice b))"
    and "\<forall>i \<in> set (drop (bc_index b) (slice_elems (sb_arrays (sv_subs s)) (bc_slice b))). chan_ok (sv_chans s i) True"
    and "bc_index b + n = length (slice_elems (sb_arrays (sv_subs s)) (bc_slice b))"
  shows "bcast_steps n b s = Goes (s\<lparr>sv_chans := (\<lambda>i.
      if i \<in> set (drop (bc_index b) (slice_elems (sb_arrays (sv_subs s)) (bc_slice b)))
      then offer (bc_event b) (sv_chans s i) else sv_chans s i)\<rparr>)"
  using assms
proof (induction n arbitrary: b s)
  case (Suc n)
  let ?xs = "slice_elems (sb_arrays (sv_subs s)) (bc_slice b)"
  let ?i = "?xs ! bc_index b"
  have d: "drop (bc_index b) ?xs = ?i # drop (Suc (bc_index b)) ?xs"
    using Suc.prems(3) by (simp add: Cons_nth_drop_Suc)
  define s1 where "s1 = s\<lparr>sv_chans := (sv_chans s)(?i := offer (bc_event b) (sv_chans s ?i))\<rparr>"
  define b1 where "b1 = b\<lparr>bc_index := bc_index b + 1\<rparr>"
  have step: "bcast_step b s = Goes (b1, s1)"
    using Suc.prems(2) d by (simp add: bcast_step_def Let_def try_send_offer s1_def b1_def)
  have notin: "?i \<notin> set (drop (Suc (bc_index b)) ?xs)"
    using Suc.prems(1) d by (metis distinct.simps(2) distinct_drop)
  have "bcast_steps n b1 s1 = Goes (s1\<lparr>sv_chans := (\<lambda>i.
      if i \<in> set (drop (bc_index b1) ?xs) then offer (bc_event b1) (sv_chans s1 i) else sv_chans s1 i)\<rparr>)"
    using Suc.IH [of s1 b1] Suc.prems d notin by (auto simp: s1_def b1_def)
  then show ?case
    using d notin by (auto simp: step s1_def b1_def fun_eq_iff)
qed simp

lemma bcast_length_elems:
  "sub_wf (sv_subs s) \<Longrightarrow>
   bcast_length (bcast_start chain addr event ev s) = length (sub_elems (sv_subs s) (stream_key chain addr event))"
  by (auto simp: bcast_length_def bcast_start_def sub_elems_def slice_elems_def sub_wf_def slice_wf_def
      split: option.splits)

lemma broadcast_spec:
  assumes "srv_reach cfg s"
  shows "BroadcastEvent chain addr event ev s = Goes (s\<lparr>sv_chans := (\<lambda>i.
    if live_under s (stream_key chain addr event) i then offer ev (sv_chans s i) else sv_chans s i)\<rparr>)"
proof -
  note D = srv_invD [OF srv_reach_inv [OF assms]]
  let ?key = "stream_key chain addr event" and ?b = "bcast_start chain addr event ev s"
  have T: "distinct (sub_elems (sv_subs s) ?key)" "set (sub_elems (sv_subs s) ?key) = {i. live_under s ?key i}"
    using D(1) by (simp_all add: subs.tracks_def)
  have e: "slice_elems (sb_arrays (sv_subs s)) (bc_slice ?b) = sub_elems (sv_subs s) ?key"
    by (simp add: bcast_start_def sub_elems_def)
  have f: "bc_event ?b = ev" "bc_index ?b = 0" by (simp_all add: bcast_start_def)
  have len: "bcast_length ?b = length (sub_elems (sv_subs s) ?key)"
    by (rule bcast_length_elems [OF subs.tracks_wf [OF D(1)]])
  have ok: "\<forall>i \<in> set (sub_elems (sv_subs s) ?key). chan_ok (sv_chans s i) True"
  proof
    fix i assume "i \<in> set (sub_elems (sv_subs s) ?key)"
    then have "i < sv_next s" "sm_live (sv_streams s i)" using T(2) by (auto simp: live_under_def)
    then show "chan_ok (sv_chans s i) True" using D(2) [of i] by simp
  qed
  have "bcast_steps (bcast_length ?b) ?b s = Goes (s\<lparr>sv_chans := (\<lambda>i.
      if i \<in> set (sub_elems (sv_subs s) ?key) then offer ev (sv_chans s i) else sv_chans s i)\<rparr>)"
    using bcast_steps_offer [of s ?b "bcast_length ?b"] T(1) ok len unfolding e f by simp
  then show ?thesis by (simp add: BroadcastEvent_def Let_def T(2))
qed

text \<open>
  C8. A broadcast that nothing interrupts, in any reachable state, never panics: it appends the
  event once to the channel of every live stream of its chain, contract and event that holds
  fewer than 100 events, drops it for the streams whose channel is full, and changes nothing
  else.
\<close>

theorem broadcast_reaches_subscribers:
  assumes "srv_reach cfg s"
  shows "BroadcastEvent chain addr event ev s = Goes (s\<lparr>sv_chans := (\<lambda>i.
    if i < sv_next s \<and> sm_live (sv_streams s i) \<and> sm_key (sv_streams s i) = stream_key chain addr event \<and>
       length (ch_buf (sv_chans s i)) < 100
    then (sv_chans s i)\<lparr>ch_buf := ch_buf (sv_chans s i) @ [ev]\<rparr> else sv_chans s i)\<rparr>)"
  unfolding broadcast_spec [OF assms]
  by (rule arg_cong [where f = "\<lambda>f. Goes (s\<lparr>sv_chans := f\<rparr>)"]) (auto simp: fun_eq_iff live_under_def offer_def)

section \<open>Sample servers\<close>

text \<open>Two streams of one token, opened with the concrete token library.\<close>

definition sample_cfg :: srv_cfg where
  "sample_cfg = \<lparr>sc_jwt = sample_jwt sample_claims, sc_secret = ''k'', sc_grow = (\<lambda>n. 2 * n)\<rparr>"

definition sample_md :: "(string \<Rightarrow> string list) option" where
  "sample_md = Some (\<lambda>k. if k = ''authorization'' then [''Bearer tk''] else [])"

lemma stream_open_sample:
  assumes "sv_blacklist s = Map.empty"
  shows "stream_open sample_cfg 6000000000 sample_md 39 ''0xab'' ''Transfer'' s =
    Inr (register_stream sample_cfg ''tk'' (stream_key 39 ''0xab'' ''Transfer'') sample_claims s)"
proof -
  have "trim_prefix ''Bearer tk'' ''Bearer '' = ''tk''" by code_simp
  then show ?thesis
    using assms
    by (simp add: stream_open_def sample_md_def server_ValidateJWT_def jwt_ValidateJWT_def sample_cfg_def
        sample_jwt_def unexpired_def sample_claims_def redis_live_def)
qed

lemma register_stream_blacklist:
  "register_stream cfg token key claims s = (i, s') \<Longrightarrow> sv_blacklist s' = sv_blacklist s \<and>
   sv_next s' = Suc (sv_next s) \<and> (j \<noteq> i \<longrightarrow> sm_live (sv_streams s' j) = sm_live (sv_streams s j) \<and>
   sm_key (sv_streams s' j) = sm_key (sv_streams s j))"
  by (auto simp: register_stream_def Let_def conn_Close_def split: option.splits)

lemma two_streams:
  obtains s where "srv_reach sample_cfg s" "sub_elems (sv_subs s) (stream_key 39 ''0xab'' ''Transfer'') = [0, 1]"
    "sv_next s = 2" "sm_live (sv_streams s 0)" "sm_live (sv_streams s 1)"
    "sm_key (sv_streams s 0) = stream_key 39 ''0xab'' ''Transfer''"
    "sm_key (sv_streams s 1) = stream_key 39 ''0xab'' ''Transfer''"
proof -
  let ?key = "stream_key 39 ''0xab'' ''Transfer''"
  define s0 where "s0 = new_server (\<lambda>_. \<lparr>job_token = [], job_claims = sample_claims, job_runAt = 0,
    job_canceled = False, job_index = 0\<rparr>)"
  obtain i s1 where o1: "register_stream sample_cfg ''tk'' ?key sample_claims s0 = (i, s1)" by fastforce
  obtain j s2 where o2: "register_stream sample_cfg ''tk'' ?key sample_claims s1 = (j, s2)" by fastforce
  have b: "sv_blacklist s0 = Map.empty" "sv_next s0 = 0" by (simp_all add: s0_def new_server_def)
  have r0: "srv_reach sample_cfg s0" unfolding s0_def by (rule srv_reach.start)
  note B1 = register_stream_blacklist [OF o1] and B2 = register_stream_blacklist [OF o2]
  have b1: "sv_blacklist s1 = Map.empty" using B1 b by simp
  have r1: "srv_reach sample_cfg s1"
    by (rule srv_reach.opened [OF r0 stream_open_sample [OF b(1), unfolded o1]])
  have r2: "srv_reach sample_cfg s2"
    by (rule srv_reach.opened [OF r1 stream_open_sample [OF b1, unfolded o2]])
  note I1 = register_stream_inv [OF srv_reach_inv [OF r0] o1] and I2 = register_stream_inv [OF srv_reach_inv [OF r1] o2]
  have ij: "i = 0" "j = 1" using I1 I2 B1 b by auto
  have subs: "sv_subs s1 = sub_add (sc_grow sample_cfg) ?key i (sv_subs s0)"
    "sv_subs s2 = sub_add (sc_grow sample_cfg) ?key j (sv_subs s1)"
    using o1 o2 by (auto simp: register_stream_def Let_def conn_Close_def split: option.splits)
  have wf: "sub_wf (sv_subs s0)" "sub_wf (sv_subs s1)"
    using srv_invD(1) [OF srv_reach_inv [OF r0]] srv_invD(1) [OF srv_reach_inv [OF r1]] by (simp_all add: subs.tracks_def)
  have e0: "sub_elems (sv_subs s0) ?key = []"
    by (simp add: s0_def new_server_def no_subscribers_def sub_elems_def slice_elems_def)
  have "sub_elems (sv_subs s2) ?key = [0, 1]"
    using sub_add_law [OF wf(1)] sub_add_law [OF wf(2)] by (simp add: subs ij e0)
  then show thesis
    using r2 I1 I2 ij B2 [of 0] B1 b by (intro that [of s2]) (auto simp: live_under_def)
qed

definition sample_event :: pb_event where
  "sample_event = \<lparr>pe_BlockNumber = 7, pe_TxHash = ''0x01'', pe_Data = ''{}''\<rparr>"

theorem registry_invariant_witness:
  "\<exists>s. srv_reach sample_cfg s \<and> sub_elems (sv_subs s) (stream_key 39 ''0xab'' ''Transfer'') = [0, 1] \<and>
     {0, 1} = {i. i < sv_next s \<and> sm_live (sv_streams s i) \<and>
       sm_key (sv_streams s i) = stream_key 39 ''0xab'' ''Transfer''}"
proof -
  obtain s where s: "srv_reach sample_cfg s" "sub_elems (sv_subs s) (stream_key 39 ''0xab'' ''Transfer'') = [0, 1]"
    using two_streams by blast
  show ?thesis using registry_invariant [OF s(1), of "stream_key 39 ''0xab'' ''Transfer''"] s by auto
qed

theorem broadcast_reaches_subscribers_witness:
  "\<exists>s s'. srv_reach sample_cfg s \<and> sm_live (sv_streams s 1) \<and> length (ch_buf (sv_chans s 1)) \<le> 100 \<and>
     BroadcastEvent 39 ''0xAB'' ''transfer'' sample_event s = Goes s'"
proof -
  obtain s where s: "srv_reach sample_cfg s" "sm_live (sv_streams s 1)" "sv_next s = 2"
    using two_streams by blast
  have "chan_ok (sv_chans s 1) (sm_live (sv_streams s 1))"
    using srv_invD(2) [OF srv_reach_inv [OF s(1)], of 1] s(3) by simp
  then have "length (ch_buf (sv_chans s 1)) \<le> 100" by (simp add: chan_ok_def)
  then show ?thesis using broadcast_reaches_subscribers [OF s(1)] s by blast
qed

text \<open>
  C33. A broadcast that a clean-up interrupts reads a shifted slice. It holds a copy of the slice
  header, and ending a stream of the same key moves the channels behind it one place to the
  front of the same array: from then on the broadcast finds the remaining channels in order and
  the last one twice. So one that was about to send to the place after the ended stream skips a
  live stream and sends to the last one twice; and when the ended stream is itself the last and
  has not been sent to, the send panics on its closed channel.
\<close>

theorem broadcast_races_cleanup:
  assumes "srv_reach cfg s" and "i < sv_next s" and "sm_live (sv_streams s i)"
    and "sm_key (sv_streams s i) = stream_key chain addr event"
    and "stream_cleanup clean now i s = Goes s'"
  shows "slice_elems (sb_arrays (sv_subs s')) (bc_slice (bcast_start chain addr event ev s)) =
      remove1 i (sub_elems (sv_subs s) (stream_key chain addr event)) @
        [last (sub_elems (sv_subs s) (stream_key chain addr event))]
    \<and> (i = last (sub_elems (sv_subs s) (stream_key chain addr event)) \<longrightarrow>
       bcast_step ((bcast_start chain addr event ev s)
         \<lparr>bc_index := length (sub_elems (sv_subs s) (stream_key chain addr event)) - 1\<rparr>) s' = Panics)"
proof -
  let ?key = "stream_key chain addr event" and ?b = "bcast_start chain addr event ev s"
  let ?xs = "sub_elems (sv_subs s) ?key"
  have inv: "srv_inv s" by (rule srv_reach_inv [OF assms(1)])
  note D = srv_invD [OF inv]
  have T: "distinct ?xs" "set ?xs = {i. live_under s ?key i}" using D(1) by (simp_all add: subs.tracks_def)
  have i: "i \<in> set ?xs" using assms(2-4) T(2) by (simp add: live_under_def)
  then obtain sl where sl: "sb_slices (sv_subs s) ?key = Some sl"
    by (cases "sb_slices (sv_subs s) ?key") (auto simp: sub_elems_def slice_elems_None)
  have xs: "?xs = slice_elems (sb_arrays (sv_subs s)) (Some sl)" by (simp add: sub_elems_def sl)
  obtain p where p: "elem_pos i ?xs = Some p" using elem_pos_mem [OF i] by blast
  have w: "slice_wf (sb_arrays (sv_subs s)) (Some sl)"
    using subs.tracks_wf [OF D(1)] sl by (auto simp: sub_wf_def) metis
  have pl: "p < sl_len sl" using elem_pos_Some [OF p] w by (simp add: xs slice_elems_def)
  obtain sl' ar where d: "slice_delete p sl (sb_arrays (sv_subs s)) = (sl', ar)" by fastforce
  have "sv_subs s' = sub_remove ?key i (sv_subs s)"
    using assms(4,5) by (auto simp: stream_cleanup_def Let_def result_simps)
  then have ar: "sb_arrays (sv_subs s') = ar"
    using sl p d by (simp add: sub_remove_def xs)
  have e: "bc_slice ?b = Some sl" by (simp add: bcast_start_def sl)
  have stale: "slice_elems (sb_arrays (sv_subs s')) (bc_slice ?b) = remove1 i ?xs @ [last ?xs]"
    using slice_delete_stale [OF w pl d] elem_pos_Some [OF p] by (simp add: ar e xs)
  have len: "length (remove1 i ?xs) = length ?xs - 1" using i by (simp add: length_remove1)
  have cl: "ch_closed (sv_chans s' i)"
    using assms(5) by (auto simp: stream_cleanup_def Let_def result_simps dest: chan_close_cap)
  have "bcast_step (?b\<lparr>bc_index := length ?xs - 1\<rparr>) s' = Panics" if "i = last ?xs"
    using stale len that cl
    by (simp add: bcast_step_def Let_def nth_append chan_try_send_def chan_send_def)
  with stale show ?thesis by blast
qed

theorem broadcast_races_cleanup_witness:
  "\<exists>s s'. srv_reach sample_cfg s \<and> stream_cleanup True 0 1 s = Goes s' \<and>
     bcast_step ((bcast_start 39 ''0xab'' ''Transfer'' sample_event s)\<lparr>bc_index := 1\<rparr>) s' = Panics"
proof -
  obtain s where s: "srv_reach sample_cfg s" "sub_elems (sv_subs s) (stream_key 39 ''0xab'' ''Transfer'') = [0, 1]"
    "sv_next s = 2" "sm_live (sv_streams s 1)" "sm_key (sv_streams s 1) = stream_key 39 ''0xab'' ''Transfer''"
    using two_streams by blast
  have one: "1 < sv_next s" using s(3) by simp
  obtain s' where s': "stream_cleanup True 0 1 s = Goes s'"
    using stream_cleanup_inv [OF srv_reach_inv [OF s(1)] one s(4), of True 0] by blast
  show ?thesis
    using broadcast_races_cleanup [OF s(1) one s(4,5) s', of sample_event] s s' by auto
qed

section \<open>Disconnecting while a client reconnects\<close>

text \<open>
  \<open>DisconnectStream\<close> lets go of the lock between looking the connection up and deleting the
  token's entry. A stream of the same token that opens in between is the one whose entry is
  deleted: it goes on, not cancelled, and no longer has a connection through which it could be
  disconnected.
\<close>

theorem disconnect_races_reconnect:
  assumes "disconnect_begin token s = Some (i, s1)"
    and "register_stream cfg token key claims' s1 = (j, s2)"
    and "disconnect_finish token claims s2 = Goes s3"
  shows "sm_live (sv_streams s3 j) \<and> sm_token (sv_streams s3 j) = token \<and>
    \<not> sm_cancelled (sv_streams s3 j) \<and> sv_conns s3 token = None \<and> disconnect_begin token s3 = None"
  using assms(2,3)
  by (auto simp: register_stream_def disconnect_finish_def disconnect_begin_def Let_def split: option.splits)

theorem disconnect_races_reconnect_witness:
  "\<exists>s i s1 j s2 s3. srv_reach sample_cfg s \<and> disconnect_begin ''tk'' s = Some (i, s1) \<and>
     register_stream sample_cfg ''tk'' (stream_key 39 ''0xab'' ''Transfer'') sample_claims s1 = (j, s2) \<and>
     disconnect_finish ''tk'' sample_claims s2 = Goes s3 \<and>
     sm_live (sv_streams s3 j) \<and> \<not> sm_cancelled (sv_streams s3 j) \<and> sv_conns s3 ''tk'' = None"
proof -
  let ?key = "stream_key 39 ''0xab'' ''Transfer''"
  define s0 where "s0 = new_server (\<lambda>_. \<lparr>job_token = [], job_claims = sample_claims, job_runAt = 0,
    job_canceled = False, job_index = 0\<rparr>)"
  obtain i s where o: "register_stream sample_cfg ''tk'' ?key sample_claims s0 = (i, s)" by fastforce
  have b: "sv_blacklist s0 = Map.empty" by (simp add: s0_def new_server_def)
  have r: "srv_reach sample_cfg s"
    by (rule srv_reach.opened [OF srv_reach.start [of _ "\<lambda>_. \<lparr>job_token = [], job_claims = sample_claims,
      job_runAt = 0, job_canceled = False, job_index = 0\<rparr>", folded s0_def] stream_open_sample [OF b, unfolded o]])
  have c: "sv_conns s ''tk'' = Some i" using o by (auto simp: register_stream_def Let_def)
  obtain s1 where d: "disconnect_begin ''tk'' s = Some (i, s1)" by (simp add: disconnect_begin_def c)
  obtain j s2 where o2: "register_stream sample_cfg ''tk'' ?key sample_claims s1 = (j, s2)" by fastforce
  obtain s3 where f: "disconnect_finish ''tk'' sample_claims s2 = Goes s3"
    by (simp add: disconnect_finish_def sample_claims_def)
  show ?thesis using disconnect_races_reconnect [OF d o2 f] r d o2 f by blast
qed

section \<open>Receipts\<close>

text \<open>
  C35. Which ends of a live stream leave a session receipt. When the token expires, and when the
  context is done - which is also what a client that goes away causes - the stream ends and the
  scheduler is unchanged. Of all turns of the loop only one whose send fails changes the
  scheduler, and of the two outcomes of the header only its failure: each ends the stream and
  leaves a receipt of the token, due five minutes later with the token's claims.
\<close>

theorem receipts_of_ends:
  assumes "srv_reach cfg s" and "i < sv_next s" and "sm_live (sv_streams s i)"
  shows "(\<exists>s1. stream_loop Expired now i s = Goes (False, s1) \<and> sv_sched s1 = sv_sched s)
    \<and> (\<exists>s2. stream_loop ContextDone now i (stream_cancel i s) = Goes (False, s2) \<and> sv_sched s2 = sv_sched s)
    \<and> (stream_loop t now i s = Goes (b, s3) \<longrightarrow>
        (if \<exists>a e. t = Event a e False
         then \<not> b \<and> receipt_of (sm_token (sv_streams s i)) (sv_sched s3) = Some (now + 300000000000, sm_claims (sv_streams s i))
         else b = (\<exists>a e. t = Event a e True) \<and> sv_sched s3 = sv_sched s))
    \<and> (\<exists>s4. stream_header False now i s = Goes (False, s4) \<and>
        receipt_of (sm_token (sv_streams s i)) (sv_sched s4) = Some (now + 300000000000, sm_claims (sv_streams s i)))
    \<and> (stream_header True now i s = Goes (b, s5) \<longrightarrow> b \<and> s5 = s)"
proof -
  note D = srv_invD [OF srv_reach_inv [OF assms(1)]]
  have open_chan: "\<not> ch_closed (sv_chans s i)" using D(2) [OF assms(2)] assms(3) by (simp add: chan_ok_def)
  note R = schedule_receipt_of [OF D(4)]
  have loop: "if \<exists>a e. t = Event a e False
      then \<not> b \<and> receipt_of (sm_token (sv_streams s i)) (sv_sched s3) = Some (now + 300000000000, sm_claims (sv_streams s i))
      else b = (\<exists>a e. t = Event a e True) \<and> sv_sched s3 = sv_sched s" if "stream_loop t now i s = Goes (b, s3)"
    using that
  proof (cases rule: stream_loop_cases)
    case (failed a e ev c s1)
    then show ?thesis using R by (auto simp: stream_cleanup_def Let_def result_simps ReceiptSubmissionDelay_def)
  qed (auto simp: stream_cleanup_def Let_def result_simps)
  have "\<exists>s1. stream_loop Expired now i s = Goes (False, s1) \<and> sv_sched s1 = sv_sched s"
    "\<exists>s2. stream_loop ContextDone now i (stream_cancel i s) = Goes (False, s2) \<and> sv_sched s2 = sv_sched s"
    using open_chan by (simp_all add: stream_cleanup_def chan_close_def Let_def)
  moreover have "\<exists>s4. stream_header False now i s = Goes (False, s4) \<and>
      receipt_of (sm_token (sv_streams s i)) (sv_sched s4) = Some (now + 300000000000, sm_claims (sv_streams s i))"
    using open_chan R by (simp add: stream_header_def stream_cleanup_def chan_close_def Let_def ReceiptSubmissionDelay_def)
  moreover have "stream_header True now i s = Goes (b, s5) \<longrightarrow> b \<and> s5 = s"
    by (auto simp: stream_header_def split: if_splits)
  ultimately show ?thesis using loop by blast
qed

theorem receipts_of_ends_witness:
  "\<exists>s s1 s2. srv_reach sample_cfg s \<and> sm_live (sv_streams s 1) \<and> stream_loop Expired 7 1 s = Goes (False, s1) \<and>
     sv_sched s1 = sv_sched s \<and> stream_header False 7 1 s = Goes (False, s2) \<and>
     receipt_of (sm_token (sv_streams s 1)) (sv_sched s2) = Some (7 + 300000000000, sm_claims (sv_streams s 1))"
proof -
  obtain s where s: "srv_reach sample_cfg s" "sv_next s = 2" "sm_live (sv_streams s 1)"
    using two_streams by blast
  have one: "1 < sv_next s" using s(2) by simp
  show ?thesis using receipts_of_ends [OF s(1) one s(3), of 7] s by blast
qed

end
