(* ===== verification/Block_Ranges.thy ===== *)
theory Block_Ranges
  imports Go_Prelude
begin

text \<open>
  Splitting an interval of blocks into consecutive ranges, as the monitor's poll and the
  listener's backfill do. The locale is what both promise: the ranges they fetch follow each
  other without gap or overlap from the first block to a last one.
\<close>

type_synonym block_range = "int \<times> int"

fun consecutive :: "int \<Rightarrow> block_range list \<Rightarrow> int \<Rightarrow> bool" where
  "consecutive a [] z = (z < a)"
| "consecutive a ((f, t) # rs) z = (f = a \<and> f \<le> t \<and> t \<le> z \<and> consecutive (t + 1) rs z)"

definition in_range :: "int \<Rightarrow> block_range \<Rightarrow> bool" where
  "in_range n r = (fst r \<le> n \<and> n \<le> snd r)"

lemma consecutive_above: "consecutive a rs z \<Longrightarrow> r \<in> set rs \<Longrightarrow> a \<le> fst r \<and> fst r \<le> snd r \<and> snd r \<le> z"
proof (induction a rs z rule: consecutive.induct)
  case (2 a f t rs z)
  then show ?case by fastforce
qed simp

text \<open>Every block from the first to the last is in one range, and no other block in any.\<close>

lemma consecutive_once: "consecutive a rs z \<Longrightarrow>
    length (filter (in_range n) rs) = (if a \<le> n \<and> n \<le> z then 1 else 0)"
proof (induction a rs z rule: consecutive.induct)
  case (2 a f t rs z)
  have tz: "t \<le> z" and r: "consecutive (t + 1) rs z" and f: "f = a" "f \<le> t" using "2.prems" by auto
  have IH: "length (filter (in_range n) rs) = (if t + 1 \<le> n \<and> n \<le> z then 1 else 0)"
    by (rule "2.IH" [OF r])
  have "in_range n (f, t) = (f \<le> n \<and> n \<le> t)" by (simp add: in_range_def)
  then show ?case using IH tz f by auto
qed auto

lemma consecutive_last: "consecutive a rs z \<Longrightarrow> rs \<noteq> [] \<Longrightarrow> snd (last rs) = z"
proof (induction a rs z rule: consecutive.induct)
  case (2 a f t rs z)
  then show ?case by (cases rs) auto
qed simp

locale range_splitter =
  fixes ranges :: "int \<Rightarrow> int \<Rightarrow> block_range list"
    and good :: "int \<Rightarrow> int \<Rightarrow> bool"
    and upto :: "int \<Rightarrow> int \<Rightarrow> int"
    and width :: int
  assumes splits: "good a b \<Longrightarrow> consecutive a (ranges a b) (upto a b)"
    and narrow: "good a b \<Longrightarrow> r \<in> set (ranges a b) \<Longrightarrow> snd r - fst r < width"
begin

lemma covered_once: "good a b \<Longrightarrow>
    length (filter (in_range n) (ranges a b)) = (if a \<le> n \<and> n \<le> upto a b then 1 else 0)"
  using consecutive_once [OF splits] .

lemma within: "good a b \<Longrightarrow> r \<in> set (ranges a b) \<Longrightarrow>
    a \<le> fst r \<and> fst r \<le> snd r \<and> snd r \<le> upto a b \<and> snd r < fst r + width"
  using consecutive_above [OF splits] narrow by (auto simp: algebra_simps)

lemma ends: "good a b \<Longrightarrow> a \<le> upto a b \<Longrightarrow> ranges a b \<noteq> [] \<and> snd (last (ranges a b)) = upto a b"
proof -
  assume g: "good a b" and le: "a \<le> upto a b"
  have "ranges a b \<noteq> []" using splits [OF g] le by auto
  then show ?thesis using consecutive_last [OF splits [OF g]] by simp
qed

end

end
