(* ===== verification/Contexts.thy ===== *)
theory Contexts
  imports Go_Prelude
begin

text \<open>
  Go's cancellable contexts. A context is the path of the cancel functions above it; it is done
  when one of them has been called. The background context is the empty path.
\<close>

type_synonym ctx = "nat list"

record ctx_store =
  cx_next :: nat
  cx_cancelled :: "nat list"

definition new_contexts :: ctx_store where
  "new_contexts = \<lparr>cx_next = 0, cx_cancelled = []\<rparr>"

definition with_cancel :: "ctx \<Rightarrow> ctx_store \<Rightarrow> (ctx \<times> nat) \<times> ctx_store" where
  "with_cancel parent s =
     (let i = cx_next s in ((i # parent, i), s\<lparr>cx_next := i + 1\<rparr>))"

definition cancel_ctx :: "nat \<Rightarrow> ctx_store \<Rightarrow> ctx_store" where
  "cancel_ctx i s = s\<lparr>cx_cancelled := i # cx_cancelled s\<rparr>"

definition ctx_done :: "ctx_store \<Rightarrow> ctx \<Rightarrow> bool" where
  "ctx_done s c = (\<exists>i \<in> set c. i \<in> set (cx_cancelled s))"

lemma ctx_done_cancel: "ctx_done (cancel_ctx i s) c = (i \<in> set c \<or> ctx_done s c)"
  by (auto simp: ctx_done_def cancel_ctx_def)

lemma ctx_done_child: "with_cancel p s = ((c, i), s') \<Longrightarrow> ctx_done s p \<Longrightarrow> ctx_done s' c"
  by (auto simp: with_cancel_def ctx_done_def Let_def)

end
