(* ===== verification/Monitor.thy ===== *)
theory Monitor
  imports Eth_Client Streams Block_Ranges Contexts "HOL-Library.AList"
begin

text \<open>
  \<open>internal/monitor/monitor.go\<close>: one goroutine per contract polls its chain every second, fetches
  the logs of the new blocks in batches of five, and broadcasts them to the streams. The maps are
  lists of pairs in the order a \<open>range\<close> over them yields. The answers of the node, the database
  and the clock are arguments of the steps.
\<close>

section \<open>The monitor's state\<close>

record mon =
  mn_running :: bool
  mn_monitors :: "(string \<times> nat) list"
  mn_lastBlocks :: "(int \<times> u64) list"
  mn_backfilling :: "(string \<times> bool) list"
  mn_ready :: "(string \<times> bool) list"
  mn_contexts :: ctx_store
  mn_spawned :: "(contract \<times> ctx) list"

definition NewMonitor :: mon where
  "NewMonitor = \<lparr>mn_running = False, mn_monitors = [], mn_lastBlocks = [], mn_backfilling = [],
     mn_ready = [], mn_contexts = new_contexts, mn_spawned = []\<rparr>"

definition IsRunning :: "mon \<Rightarrow> bool" where
  "IsRunning m = mn_running m"

definition GetActiveContractCount :: "mon \<Rightarrow> nat" where
  "GetActiveContractCount m = length (mn_monitors m)"

definition GetLastBlock :: "mon \<Rightarrow> int" where
  "GetLastBlock m = fold (\<lambda>(chain, block) latest. if int64_of block > latest then int64_of block else latest)
     (mn_lastBlocks m) 0"

definition MarkContractBackfilling :: "string \<Rightarrow> mon \<Rightarrow> mon" where
  "MarkContractBackfilling c m =
     m\<lparr>mn_backfilling := AList.update c True (mn_backfilling m), mn_ready := AList.update c True (mn_ready m)\<rparr>"

definition MarkContractBackfillComplete :: "string \<Rightarrow> mon \<Rightarrow> mon" where
  "MarkContractBackfillComplete c m =
     m\<lparr>mn_backfilling := AList.update c False (mn_backfilling m), mn_ready := AList.update c True (mn_ready m)\<rparr>"

definition IsContractBackfilling :: "string \<Rightarrow> mon \<Rightarrow> bool" where
  "IsContractBackfilling c m = (case map_of (mn_backfilling m) c of None \<Rightarrow> False | Some b \<Rightarrow> b)"

definition IsContractReadyForMonitoring :: "string \<Rightarrow> mon \<Rightarrow> bool" where
  "IsContractReadyForMonitoring c m = (case map_of (mn_ready m) c of None \<Rightarrow> False | Some b \<Rightarrow> b)"

definition GetLastSyncedBlock :: "int \<Rightarrow> mon \<Rightarrow> u64 res" where
  "GetLastSyncedBlock chainId m =
     (case map_of (mn_lastBlocks m) chainId of
        None \<Rightarrow> Inl ''last block not found or chain id is not monitored''
      | Some b \<Rightarrow> Inr b)"

section \<open>Starting, registering, stopping\<close>

text \<open>
  What \<open>Start\<close> and \<open>RegisterContract\<close> do for one contract. The operations of this section have their
  sequential meaning: the code takes the monitor's locks several times within each, and
  \<open>Registration_Races\<close> takes them apart into these critical sections, lets others run in between,
  and shows what then goes wrong and (\<open>Monitor_Life\<close>) what holds nevertheless.
\<close>

definition watch_contract :: "ctx \<Rightarrow> contract \<Rightarrow> mon \<Rightarrow> mon" where
  "watch_contract parent c m =
     (let ((cctx, i), cs) = with_cancel parent (mn_contexts m) in
      m\<lparr>mn_ready := AList.update (ct_ID c) True (mn_ready m), mn_contexts := cs,
        mn_monitors := AList.update (ct_ID c) i (mn_monitors m),
        mn_spawned := mn_spawned m @ [(c, cctx)]\<rparr>)"

text \<open>\<open>heads\<close> are the clients' chains with the answer of each for its latest block.\<close>

definition init_blocks :: "(int \<times> u64 res) list \<Rightarrow> mon \<Rightarrow> mon" where
  "init_blocks heads m =
     fold (\<lambda>(chainID, block) m. case block of
         Inl err \<Rightarrow> m
       | Inr b \<Rightarrow> m\<lparr>mn_lastBlocks := AList.update chainID b (mn_lastBlocks m)\<rparr>) heads m"

definition monitor_Start ::
  "ctx \<Rightarrow> db_error + contract list \<Rightarrow> (int \<times> u64 res) list \<Rightarrow> mon \<Rightarrow> string option \<times> mon" where
  "monitor_Start ctx contracts heads m =
     (if mn_running m then (Some ''monitor is already running'', m)
      else let m1 = m\<lparr>mn_running := True\<rparr> in
        case contracts of
          Inl err \<Rightarrow> (Some ''failed to get contracts'', m1\<lparr>mn_running := False\<rparr>)
        | Inr cs \<Rightarrow> (None, fold (watch_contract ctx) cs (init_blocks heads m1)))"

definition monitor_Stop :: "mon \<Rightarrow> mon" where
  "monitor_Stop m =
     (if \<not> mn_running m then m
      else m\<lparr>mn_contexts := fold (\<lambda>(c, i). cancel_ctx i) (mn_monitors m) (mn_contexts m),
             mn_monitors := [], mn_backfilling := [], mn_ready := [], mn_running := False\<rparr>)"

definition RegisterContract :: "ctx \<Rightarrow> contract \<Rightarrow> mon \<Rightarrow> string option \<times> mon" where
  "RegisterContract ctx c m =
     (if \<not> IsRunning m then (Some ''monitor is not running'', m) else (None, watch_contract ctx c m))"

text \<open>A turn of \<open>checkForNewContracts\<close>.\<close>

definition check_contract :: "ctx \<Rightarrow> contract \<Rightarrow> mon \<Rightarrow> mon" where
  "check_contract ctx c m =
     (if map_of (mn_monitors m) (ct_ID c) \<noteq> None then m else snd (RegisterContract ctx c m))"

definition checkForNewContracts :: "ctx \<Rightarrow> db_error + contract list \<Rightarrow> mon \<Rightarrow> mon" where
  "checkForNewContracts ctx contracts m =
     (if \<not> mn_running m then m
      else case contracts of Inl err \<Rightarrow> m | Inr cs \<Rightarrow> fold (check_contract ctx) cs m)"

section \<open>Batches of a poll\<close>

text \<open>
  The loop \<open>for fromBlock := last + 1; fromBlock <= current; fromBlock += 5\<close> on 64-bit words: the
  ranges it goes through, whatever its body does. \<open>None\<close>: it does not end.
\<close>

partial_function (option) poll_batches :: "u64 \<Rightarrow> u64 \<Rightarrow> (u64 \<times> u64) list option" where
  "poll_batches fromBlock currentBlock =
     (if fromBlock \<le> currentBlock then
        let toBlock = fromBlock + 5 - 1;
            toBlock' = (if toBlock > currentBlock then currentBlock else toBlock)
        in Option.bind (poll_batches (fromBlock + 5) currentBlock) (\<lambda>rs. Some ((fromBlock, toBlock') # rs))
      else Some [])"

section \<open>Processing and polling\<close>

text \<open>What the goroutines share beside the monitor: clients, database and producer, streams.\<close>

record ('x, 'db) world =
  w_mon :: mon
  w_clients :: "int \<rightharpoonup> ('x, 'db) client"
  w_st :: "('x, 'db) client_st"
  w_srv :: "srv option"

definition int32_wrap :: "int \<Rightarrow> int" where
  "int32_wrap i = (i + 2147483648) mod 4294967296 - 2147483648"

definition processEvent ::
  "('x, 'db) client \<Rightarrow> int \<Rightarrow> string \<Rightarrow> string \<Rightarrow> eth_log \<Rightarrow> string \<Rightarrow> ('x, 'db) world \<Rightarrow>
   (string option \<times> ('x, 'db) world) go_step" where
  "processEvent c chainID address eventSignature l decodedData w =
     (case st_FindContract (cl_store c) chainID (to_lower address) eventSignature (cs_db (w_st w)) of
        Inl err \<Rightarrow> Goes (Some ''failed to find contract'', w)
      | Inr ct \<Rightarrow>
          (case w_srv w of
             None \<Rightarrow> Goes (None, w)
           | Some s \<Rightarrow>
               bind_step (BroadcastEvent (int32_wrap chainID) address (ct_EventName ct)
                   \<lparr>pe_BlockNumber = int64_of (lg_BlockNumber l), pe_TxHash = g_HashHex (cl_geth c) (lg_TxHash l),
                    pe_Data = decodedData\<rparr> s)
                 (\<lambda>s'. Goes (None, w\<lparr>w_srv := Some s'\<rparr>))))"

fun ProcessLogsEvent ::
  "('x, 'db) client \<Rightarrow> int \<Rightarrow> string \<Rightarrow> string \<Rightarrow> eth_log list \<Rightarrow> ('x, 'db) world \<Rightarrow> ('x, 'db) world go_step" where
  "ProcessLogsEvent c chainID address eventSignature [] w = Goes w"
| "ProcessLogsEvent c chainID address eventSignature (l # ls) w =
     (let decodedData = (case DecodeEvent (cl_abi c) (GetDecoder c) eventSignature (lg_Data l) (lg_Topics l) of
            Inl err \<Rightarrow> raw_json (g_Bytes2Hex (cl_geth c) (lg_Data l)) | Inr s \<Rightarrow> s)
      in bind_step (processEvent c chainID address eventSignature l decodedData w)
           (\<lambda>(err, w'). ProcessLogsEvent c chainID address eventSignature ls w'))"

text \<open>
  A node answers a filter query; \<open>poll_batch\<close> is the body of the loop, and says whether the fetch
  succeeded.
\<close>

type_synonym node = "filter_query \<Rightarrow> string + eth_log list"

definition poll_batch ::
  "node \<Rightarrow> ('x, 'db) client \<Rightarrow> contract \<Rightarrow> u64 \<times> u64 \<Rightarrow> ('x, 'db) world \<Rightarrow> (bool \<times> ('x, 'db) world) go_step" where
  "poll_batch node c ct r w =
     (let (fromBlock, toBlock) = r; G = cl_geth c in
      bind_step (FilterLogs c node (HexToAddress G (ct_Address ct)) (HexToHash G (ct_EventSignature ct))
          (int64_of fromBlock) (int64_of toBlock) (ct_ChainID ct) (w_st w))
        (\<lambda>(res, st). let w1 = w\<lparr>w_st := st\<rparr> in
           case res of
             Inl err \<Rightarrow> Goes (False, w1)
           | Inr logs \<Rightarrow>
               bind_step (ProcessLogsEvent c (ct_ChainID ct) (ct_Address ct) (ct_EventSignature ct) logs w1)
                 (\<lambda>w2. Goes (True, w2\<lparr>w_mon := (w_mon w2)\<lparr>mn_lastBlocks :=
                    AList.update (ct_ChainID ct) toBlock (mn_lastBlocks (w_mon w2))\<rparr>\<rparr>))))"

text \<open>All batches; the trace says of each range whether it was fetched.\<close>

fun poll_ranges ::
  "node \<Rightarrow> ('x, 'db) client \<Rightarrow> contract \<Rightarrow> (u64 \<times> u64) list \<Rightarrow> ('x, 'db) world \<Rightarrow>
   (((u64 \<times> u64) \<times> bool) list \<times> ('x, 'db) world) go_step" where
  "poll_ranges node c ct [] w = Goes ([], w)"
| "poll_ranges node c ct (r # rs) w =
     bind_step (poll_batch node c ct r w)
       (\<lambda>(ok, w1). bind_step (poll_ranges node c ct rs w1) (\<lambda>(tr, w2). Goes ((r, ok) # tr, w2)))"

text \<open>The start of \<open>monitorContract\<close>; \<open>False\<close>: the goroutine returns.\<close>

definition monitor_init :: "contract \<Rightarrow> u64 res \<Rightarrow> ('x, 'db) world \<Rightarrow> bool \<times> ('x, 'db) world" where
  "monitor_init ct latest w =
     (case w_clients w (ct_ChainID ct) of
        None \<Rightarrow> (False, w)
      | Some c \<Rightarrow>
          let c' = (if ct_EventABI ct \<noteq> [] then snd (RegisterEventABI (ct_EventSignature ct) (ct_EventABI ct) c) else c);
              w1 = w\<lparr>w_clients := (w_clients w)(ct_ChainID ct \<mapsto> c')\<rparr>
          in case latest of
               Inl err \<Rightarrow> (False, w1)
             | Inr b \<Rightarrow>
                 if map_of (mn_lastBlocks (w_mon w1)) (ct_ChainID ct) = None
                 then (True, w1\<lparr>w_mon := (w_mon w1)\<lparr>mn_lastBlocks :=
                        AList.update (ct_ChainID ct) b (mn_lastBlocks (w_mon w1))\<rparr>\<rparr>)
                 else (True, w1))"

text \<open>
  A tick of the poll. \<open>None\<close>: the loop over the batches does not end. A chain without an entry
  reads as block 0. The tick is one step of the goroutine: its fetches, writes and broadcasts
  without other goroutines in between.
\<close>

definition last_block :: "int \<Rightarrow> ('x, 'db) world \<Rightarrow> u64" where
  "last_block chain w = (case map_of (mn_lastBlocks (w_mon w)) chain of Some b \<Rightarrow> b | None \<Rightarrow> 0)"

definition poll_turn ::
  "node \<Rightarrow> u64 res \<Rightarrow> ('x, 'db) client \<Rightarrow> contract \<Rightarrow> ('x, 'db) world \<Rightarrow>
   (((u64 \<times> u64) \<times> bool) list \<times> ('x, 'db) world) go_step option" where
  "poll_turn node latest c ct w =
     (case latest of
        Inl err \<Rightarrow> Some (Goes ([], w))
      | Inr currentBlock \<Rightarrow>
          let lastProcessedBlock = last_block (ct_ChainID ct) w in
          if currentBlock > lastProcessedBlock then
            map_option (\<lambda>rs. poll_ranges node c ct rs w) (poll_batches (lastProcessedBlock + 1) currentBlock)
          else Some (Goes ([], w)))"

section \<open>The batches end and cover the new blocks\<close>

definition batch_ranges :: "u64 \<Rightarrow> u64 \<Rightarrow> block_range list" where
  "batch_ranges fromBlock currentBlock =
     map (\<lambda>(f, t). (uint f, uint t)) (the (poll_batches fromBlock currentBlock))"

text \<open>No batch starts in the last five blocks that 64 bits can number.\<close>

definition no_wrap :: "u64 \<Rightarrow> bool" where
  "no_wrap currentBlock = (unat currentBlock + 5 < 18446744073709551616)"

lemma poll_batches_step:
  assumes "f \<le> cur" "no_wrap cur"
  shows "unat (f + 5) = unat f + 5" "unat (f + 5 - 1) = unat f + 4"
    "(f + 5 - 1 > cur) = (unat cur < unat f + 4)"
proof -
  have le: "unat f \<le> unat cur" using assms(1) by (simp add: word_le_nat_alt)
  show a: "unat (f + 5) = unat f + 5"
    using le assms(2) by (subst unat_add_u64) (auto simp: no_wrap_def)
  have "f + 5 - 1 = f + 4" by simp
  moreover have b: "unat (f + 4) = unat f + 4"
    using le assms(2) by (subst unat_add_u64) (auto simp: no_wrap_def)
  ultimately show "unat (f + 5 - 1) = unat f + 4" by metis
  then show "(f + 5 - 1 > cur) = (unat cur < unat f + 4)" by (simp only: word_less_nat_alt)
qed

lemma poll_batches_ok:
  assumes "no_wrap cur"
  shows "\<exists>rs. poll_batches f cur = Some rs \<and>
    consecutive (uint f) (map (\<lambda>(f, t). (uint f, uint t)) rs) (uint cur) \<and>
    (\<forall>r \<in> set rs. uint (snd r) - uint (fst r) < 5)"
proof (induction "unat cur + 1 - unat f" arbitrary: f rule: less_induct)
  case less
  show ?case
  proof (cases "f \<le> cur")
    case False
    then have "uint cur < uint f" by (simp add: word_le_def)
    then show ?thesis using False by (subst poll_batches.simps) simp
  next
    case True
    note S = poll_batches_step [OF True assms]
    have le: "unat f \<le> unat cur" using True by (simp add: word_le_nat_alt)
    obtain rs where rs: "poll_batches (f + 5) cur = Some rs"
      "consecutive (uint (f + 5)) (map (\<lambda>(f, t). (uint f, uint t)) rs) (uint cur)"
      "\<forall>r \<in> set rs. uint (snd r) - uint (fst r) < 5"
    proof -
      have "unat cur + 1 - unat (f + 5) < unat cur + 1 - unat f" using S(1) le by simp
      from less.hyps [OF this] show thesis using that by blast
    qed
    define to where "to = (if f + 5 - 1 > cur then cur else f + 5 - 1)"
    have ut: "unat to = min (unat cur) (unat f + 4)" using S(2,3) by (auto simp: to_def min_def)
    have p: "poll_batches f cur = Some ((f, to) # rs)"
      using True rs(1) by (subst poll_batches.simps) (simp add: to_def Let_def)
    have "consecutive (uint to + 1) (map (\<lambda>(f, t). (uint f, uint t)) rs) (uint cur)"
    proof (cases "unat cur < unat f + 5")
      case False
      then have "unat to + 1 = unat (f + 5)" using ut S(1) by simp
      then have "uint to + 1 = uint (f + 5)" by (metis of_nat_1 of_nat_add uint_nat)
      then show ?thesis using rs(2) by simp
    next
      case True
      then have "\<not> f + 5 \<le> cur" using S(1) by (simp add: word_le_nat_alt)
      then have "poll_batches (f + 5) cur = Some []"
        by (subst poll_batches.simps) (simp only: if_False)
      then have "rs = []" using rs(1) by simp
      moreover have "to = cur" using True ut le by (simp add: word_unat_eq_iff)
      ultimately show ?thesis by simp
    qed
    moreover have "uint f \<le> uint to" "uint to \<le> uint cur" "uint to - uint f < 5"
      using ut le uint_nat [of f] uint_nat [of to] uint_nat [of cur] by linarith+
    ultimately show ?thesis using p rs(3) by auto
  qed
qed

interpretation poll: range_splitter "\<lambda>a b. batch_ranges (word_of_int a) (word_of_int b)"
  "\<lambda>a b. 0 \<le> a \<and> a < 18446744073709551616 \<and> 0 \<le> b \<and> b + 5 < 18446744073709551616" "\<lambda>a b. b" 5
proof (unfold_locales, goal_cases)
  case (1 a b)
  have u: "uint (word_of_int a :: u64) = a" "uint (word_of_int b :: u64) = b"
    using 1 by (auto simp: uint_word_of_int)
  then have "no_wrap (word_of_int b)" using 1 by (simp add: no_wrap_def unat_eq_nat_uint nat_less_iff)
  from poll_batches_ok [OF this, of "word_of_int a"] show ?case by (auto simp: batch_ranges_def u)
next
  case (2 a b r)
  have "uint (word_of_int b :: u64) = b" using 2 by (auto simp: uint_word_of_int)
  then have "no_wrap (word_of_int b)" using 2 by (simp add: no_wrap_def unat_eq_nat_uint nat_less_iff)
  from poll_batches_ok [OF this, of "word_of_int a"] show ?case using 2(2) by (fastforce simp: batch_ranges_def)
qed

lemma batch_once:
  assumes "no_wrap cur"
  shows "length (filter (in_range n) (batch_ranges f cur)) = (if uint f \<le> n \<and> n \<le> uint cur then 1 else 0)"
proof -
  have g: "0 \<le> uint f \<and> uint f < 18446744073709551616 \<and> 0 \<le> uint cur \<and> uint cur + 5 < 18446744073709551616"
    using assms unat_u64_bound [of f] uint_nat [of f] uint_nat [of cur] unfolding no_wrap_def by linarith
  then show ?thesis using poll.covered_once [OF g, of n] by simp
qed

text \<open>
  C32. The loop over the batches of a poll ends, for every current block below 2^64 - 5: its
  ranges follow each other from the first new block to the current one, at most five blocks
  each, so every new block is in exactly one range and no other block is in any. For the
  greatest 64-bit block the loop never ends, since its counter wraps around.
\<close>

theorem poll_batches_terminate:
  assumes "unat cur + 5 < 2 ^ 64"
  shows "(\<exists>rs. poll_batches f cur = Some rs \<and> consecutive (uint f) (map (\<lambda>(f, t). (uint f, uint t)) rs) (uint cur) \<and>
      (\<forall>r \<in> set rs. uint (snd r) - uint (fst r) < 5))
    \<and> length (filter (in_range n) (batch_ranges f cur)) = (if uint f \<le> n \<and> n \<le> uint cur then 1 else 0)
    \<and> poll_batches f (- 1) = None"
proof -
  have nw: "no_wrap cur" using assms by (simp add: no_wrap_def)
  have "poll_batches f (- 1) \<noteq> Some rs" for rs
  proof (induction rs arbitrary: f)
    case Nil
    then show ?case by (subst poll_batches.simps) (auto simp: Let_def bind_eq_Some_conv)
  next
    case (Cons r rs)
    then show ?case by (subst poll_batches.simps) (auto simp: Let_def bind_eq_Some_conv)
  qed
  then show ?thesis using poll_batches_ok [OF nw] batch_once [OF nw] by auto
qed

theorem poll_batches_terminate_witness:
  "\<exists>rs. poll_batches 11 17 = Some rs \<and> consecutive 11 (map (\<lambda>(f, t). (uint f, uint t)) rs) 17"
  using poll_batches_terminate [of 17 11 0] by auto

section \<open>Progress of a poll\<close>

text \<open>Only the successful batches move the last block.\<close>

lemma processEvent_mon: "processEvent c chain addr sig l d w = Goes (r, w') \<Longrightarrow> w_mon w' = w_mon w"
  by (auto simp: processEvent_def bind_step_Goes split: sum.splits option.splits)

lemma ProcessLogsEvent_mon: "ProcessLogsEvent c chain addr sig ls w = Goes w' \<Longrightarrow> w_mon w' = w_mon w"
  by (induction ls arbitrary: w) (auto simp: bind_step_Goes Let_def dest: processEvent_mon)

lemma poll_batch_last:
  assumes "poll_batch node c ct r w = Goes (ok, w')"
  shows "last_block (ct_ChainID ct) w' = (if ok then snd r else last_block (ct_ChainID ct) w)"
proof -
  let ?G = "cl_geth c"
  obtain fb tb where r: "r = (fb, tb)" by fastforce
  obtain res st where f: "FilterLogs c node (HexToAddress ?G (ct_Address ct)) (HexToHash ?G (ct_EventSignature ct))
      (int64_of fb) (int64_of tb) (ct_ChainID ct) (w_st w) = Goes (res, st)"
    and k: "(case res of Inl err \<Rightarrow> Goes (False, w\<lparr>w_st := st\<rparr>)
      | Inr logs \<Rightarrow> bind_step (ProcessLogsEvent c (ct_ChainID ct) (ct_Address ct) (ct_EventSignature ct) logs (w\<lparr>w_st := st\<rparr>))
          (\<lambda>w2. Goes (True, w2\<lparr>w_mon := (w_mon w2)\<lparr>mn_lastBlocks :=
             AList.update (ct_ChainID ct) tb (mn_lastBlocks (w_mon w2))\<rparr>\<rparr>))) = Goes (ok, w')"
    using assms by (auto simp: poll_batch_def Let_def bind_step_Goes r)
  show ?thesis
  proof (cases res)
    case (Inl err)
    then show ?thesis using k by (auto simp: last_block_def)
  next
    case (Inr logs)
    then show ?thesis using k by (auto simp: bind_step_Goes last_block_def update_conv' r)
  qed
qed

lemma poll_ranges_last:
  "poll_ranges node c ct rs w = Goes (tr, w') \<Longrightarrow>
   map fst tr = rs \<and>
   last_block (ct_ChainID ct) w' = foldl (\<lambda>b (r, ok). if ok then snd r else b) (last_block (ct_ChainID ct) w) tr"
proof (induction rs arbitrary: w tr)
  case (Cons r rs)
  obtain ok w1 tr1 where s: "poll_batch node c ct r w = Goes (ok, w1)"
      "poll_ranges node c ct rs w1 = Goes (tr1, w')" "tr = (r, ok) # tr1"
    using Cons.prems by (auto simp: bind_step_Goes)
  then show ?case using Cons.IH [OF s(2)] poll_batch_last [OF s(1)] by simp
qed simp

lemma poll_turn_parts:
  assumes "poll_turn node (Inr cur) c ct w = Some (Goes (tr, w'))" "no_wrap cur"
  shows "map fst tr = (if cur > last_block (ct_ChainID ct) w
      then the (poll_batches (last_block (ct_ChainID ct) w + 1) cur) else [])"
    and "last_block (ct_ChainID ct) w' =
      foldl (\<lambda>b (r, ok). if ok then snd r else b) (last_block (ct_ChainID ct) w) tr"
proof -
  let ?last = "last_block (ct_ChainID ct) w"
  have "map fst tr = (if cur > ?last then the (poll_batches (?last + 1) cur) else []) \<and>
    last_block (ct_ChainID ct) w' = foldl (\<lambda>b (r, ok). if ok then snd r else b) ?last tr"
  proof (cases "cur > ?last")
    case True
    then obtain rs where "poll_batches (?last + 1) cur = Some rs" "poll_ranges node c ct rs w = Goes (tr, w')"
      using assms(1) by (auto simp: poll_turn_def Let_def)
    then show ?thesis using poll_ranges_last True by fastforce
  next
    case False
    then show ?thesis using assms(1) by (auto simp: poll_turn_def Let_def)
  qed
  then show "map fst tr = (if cur > ?last then the (poll_batches (?last + 1) cur) else [])"
    "last_block (ct_ChainID ct) w' = foldl (\<lambda>b (r, ok). if ok then snd r else b) ?last tr" by blast+
qed

lemma succ_block: "cur > (b :: u64) \<Longrightarrow> uint (b + 1) = uint b + 1"
proof -
  assume "cur > b"
  then have "unat b < unat cur" by (simp add: word_less_nat_alt)
  then have "unat (b + 1) = unat b + 1" using unat_u64_bound [of cur] by (subst unat_add_u64) auto
  then show ?thesis using uint_nat [of b] uint_nat [of "b + 1"] by simp
qed

lemma foldl_all_ok: "tr \<noteq> [] \<Longrightarrow> \<forall>x \<in> set tr. snd x \<Longrightarrow>
    foldl (\<lambda>b (r, ok). if ok then snd r else b) b0 tr = snd (fst (last tr))"
  by (induction tr arbitrary: b0 rule: rev_induct) auto

text \<open>
  When every fetch of a tick succeeds, the tick fetches each block after the last one
  processed up to the current one exactly once, and no other block, and the last block
  processed becomes the current one; a tick whose current block is not new does nothing.
\<close>

theorem poll_progress:
  assumes "poll_turn node (Inr cur) c ct w = Some (Goes (tr, w'))" and "unat cur + 5 < 2 ^ 64"
    and "\<forall>x \<in> set tr. snd x"
  shows "length (filter (\<lambda>((f, t), ok). uint f \<le> n \<and> n \<le> uint t) tr) =
      (if uint (last_block (ct_ChainID ct) w) < n \<and> n \<le> uint cur then 1 else 0)
    \<and> last_block (ct_ChainID ct) w' = max cur (last_block (ct_ChainID ct) w)
    \<and> (cur \<le> last_block (ct_ChainID ct) w \<longrightarrow> w' = w)"
proof (cases "cur > last_block (ct_ChainID ct) w")
  case False
  then have "tr = [] \<and> w' = w" using assms(1) by (auto simp: poll_turn_def Let_def)
  moreover have "uint cur \<le> uint (last_block (ct_ChainID ct) w)" "cur \<le> last_block (ct_ChainID ct) w"
    using False by (simp_all add: word_less_def not_less word_le_def)
  ultimately show ?thesis by (auto simp: max_def)
next
  case True
  let ?last = "last_block (ct_ChainID ct) w"
  have nw: "no_wrap cur" using assms(2) by (simp add: no_wrap_def)
  note P = poll_turn_parts [OF assms(1) nw]
  have tr: "map (\<lambda>(f, t). (uint f, uint t)) (map fst tr) = batch_ranges (?last + 1) cur"
    using P(1) True by (simp add: batch_ranges_def)
  have "filter (in_range n) (map (\<lambda>(f, t). (uint f, uint t)) (map fst tr)) =
      map (\<lambda>((f, t), ok). (uint f, uint t)) (filter (\<lambda>((f, t), ok). uint f \<le> n \<and> n \<le> uint t) tr)"
    by (induction tr) (auto simp: in_range_def)
  then have "length (filter (\<lambda>((f, t), ok). uint f \<le> n \<and> n \<le> uint t) tr) =
      length (filter (in_range n) (batch_ranges (?last + 1) cur))"
    unfolding tr by (metis length_map)
  then have len: "length (filter (\<lambda>((f, t), ok). uint f \<le> n \<and> n \<le> uint t) tr) =
      (if uint ?last < n \<and> n \<le> uint cur then 1 else 0)"
    using batch_once [OF nw, of n "?last + 1"] succ_block [OF True] by simp
  obtain rs where rs: "poll_batches (?last + 1) cur = Some rs"
      "consecutive (uint (?last + 1)) (map (\<lambda>(f, t). (uint f, uint t)) rs) (uint cur)"
    using poll_batches_ok [OF nw] by blast
  have mt: "map fst tr = rs" using P(1) True rs(1) by simp
  have le: "uint (?last + 1) \<le> uint cur" using True succ_block [OF True] by (simp add: word_less_def)
  then have ne: "rs \<noteq> []" using rs(2) by auto
  have "snd (last (map (\<lambda>(f, t). (uint f, uint t)) rs)) = uint cur"
    using consecutive_last [OF rs(2)] ne by simp
  then have "uint (snd (last rs)) = uint cur" using ne by (simp add: last_map case_prod_beta)
  then have "snd (last rs) = cur" by (simp add: word_uint_eq_iff)
  moreover have "last_block (ct_ChainID ct) w' = snd (fst (last tr))"
    using P(2) foldl_all_ok [of tr ?last] assms(3) mt ne by auto
  ultimately show ?thesis using len True mt ne by (auto simp: last_map max_def)
qed

definition quiet_node :: node where
  "quiet_node q = Inr []"

definition sample_world :: "u64 \<Rightarrow> (unit, tables) world" where
  "sample_world b = \<lparr>w_mon = NewMonitor\<lparr>mn_running := True, mn_lastBlocks := [(39, b)]\<rparr>,
     w_clients = [39 \<mapsto> sample_client], w_st = sample_st, w_srv = None\<rparr>"

lemma poll_batches_11_17: "poll_batches 11 17 = Some [(11, 15), (16, 17)]"
  by (simp add: poll_batches.simps)

lemma quiet_batch:
  "poll_batch quiet_node sample_client sample_contract r w =
   Goes (True, w\<lparr>w_mon := (w_mon w)\<lparr>mn_lastBlocks := AList.update 39 (snd r) (mn_lastBlocks (w_mon w))\<rparr>\<rparr>)"
  by (cases r) (simp add: poll_batch_def FilterLogs_def quiet_node_def sample_contract_def)

lemma sample_poll:
  "poll_turn quiet_node (Inr 17) sample_client sample_contract (sample_world 10) =
   Some (Goes ([((11, 15), True), ((16, 17), True)], sample_world 17))"
  by (simp add: poll_turn_def last_block_def sample_world_def poll_batches_11_17 quiet_batch)
    (simp add: sample_contract_def poll_batches_11_17 quiet_batch)

theorem poll_progress_witness:
  "last_block 39 (sample_world 17) = 17 \<and>
   length (filter (\<lambda>((f, t), ok). uint f \<le> 13 \<and> 13 \<le> uint t) [((11 :: u64, 15 :: u64), True), ((16, 17), True)]) = 1"
  using poll_progress [OF sample_poll, of 13] by (simp add: last_block_def sample_world_def sample_contract_def)

text \<open>
  A batch whose fetch fails is skipped, not retried: when the last batch of the tick
  succeeds, the last block processed is the current one all the same, and no later tick fetches
  the blocks of the failed batch.
\<close>

theorem failed_batch_is_lost:
  assumes "poll_turn node (Inr cur) c ct w = Some (Goes (tr, w'))" and "unat cur + 5 < 2 ^ 64"
    and "(r, False) \<in> set tr" and "snd (last tr)" and "uint (fst r) \<le> n" and "n \<le> uint (snd r)"
    and "unat cur' + 5 < 2 ^ 64"
  shows "last_block (ct_ChainID ct) w' = cur \<and>
    filter (in_range n) (batch_ranges (last_block (ct_ChainID ct) w' + 1) cur') = []"
proof -
  let ?last = "last_block (ct_ChainID ct) w"
  have nw: "no_wrap cur" "no_wrap cur'" using assms(2,7) by (simp_all add: no_wrap_def)
  note P = poll_turn_parts [OF assms(1) nw(1)]
  have new: "cur > ?last" using P(1) assms(3) by (auto split: if_splits)
  obtain rs where rs: "poll_batches (?last + 1) cur = Some rs"
      "consecutive (uint (?last + 1)) (map (\<lambda>(f, t). (uint f, uint t)) rs) (uint cur)"
    using poll_batches_ok [OF nw(1)] by blast
  have mt: "map fst tr = rs" using P(1) new rs(1) by simp
  have r: "r \<in> set rs" "rs \<noteq> []" using assms(3) mt by force+
  have "snd (last (map (\<lambda>(f, t). (uint f, uint t)) rs)) = uint cur"
    using consecutive_last [OF rs(2)] r by simp
  then have l: "snd (last rs) = cur" using r by (simp add: last_map case_prod_beta word_uint_eq_iff)
  have ne: "tr \<noteq> []" using assms(3) by auto
  then have "foldl (\<lambda>b (r, ok). if ok then snd r else b) ?last tr = snd (fst (last tr))"
    using assms(4) by (cases tr rule: rev_cases) auto
  then have last: "last_block (ct_ChainID ct) w' = cur"
    using P(2) l mt ne by (metis last_map)
  have "(uint (fst r), uint (snd r)) \<in> set (map (\<lambda>(f, t). (uint f, uint t)) rs)" using r(1) by (force simp: case_prod_beta)
  then have "uint (snd r) \<le> uint cur" using consecutive_above [OF rs(2)] by fastforce
  moreover have "uint (cur + 1) = uint cur + 1"
  proof -
    have "unat (cur + 1) = unat cur + 1" using assms(2) by (subst unat_add_u64) auto
    then show ?thesis using uint_nat [of cur] uint_nat [of "cur + 1"] by simp
  qed
  ultimately have "length (filter (in_range n) (batch_ranges (cur + 1) cur')) = 0"
    using batch_once [OF nw(2), of n "cur + 1"] assms(6) by simp
  then show ?thesis using last by simp
qed

definition flaky_node :: node where
  "flaky_node q = (if fq_FromBlock q = 11 then Inl ''timeout'' else Inr [])"

lemma int64_of_numeral [simp]: "int64_of 11 = 11" "int64_of 15 = 15" "int64_of 16 = 16" "int64_of 17 = 17"
  by (simp_all add: int64_of_def)

lemma flaky_batch:
  "poll_batch flaky_node sample_client sample_contract (11, 15) w = Goes (False, w)"
  "poll_batch flaky_node sample_client sample_contract (16, 17) w =
   Goes (True, w\<lparr>w_mon := (w_mon w)\<lparr>mn_lastBlocks := AList.update 39 17 (mn_lastBlocks (w_mon w))\<rparr>\<rparr>)"
  by (simp_all add: poll_batch_def FilterLogs_def flaky_node_def) (simp add: sample_contract_def)

theorem failed_batch_is_lost_witness:
  "\<exists>w'. poll_turn flaky_node (Inr 17) sample_client sample_contract (sample_world 10) =
      Some (Goes ([((11, 15), False), ((16, 17), True)], w')) \<and>
    filter (in_range 13) (batch_ranges (last_block 39 w' + 1) 30) = []"
proof -
  have p: "poll_turn flaky_node (Inr 17) sample_client sample_contract (sample_world 10) =
      Some (Goes ([((11, 15), False), ((16, 17), True)], sample_world 17))"
    by (simp add: poll_turn_def last_block_def sample_world_def poll_batches_11_17 flaky_batch)
      (simp add: sample_contract_def poll_batches_11_17 flaky_batch)
  have c: "ct_ChainID sample_contract = 39" by (simp add: sample_contract_def)
  have "last_block 39 (sample_world 17) = 17 \<and>
      filter (in_range 13) (batch_ranges (last_block 39 (sample_world 17) + 1) 30) = []"
    by (rule failed_batch_is_lost [OF p, of "(11, 15)" 13 30, unfolded c]) simp_all
  with p show ?thesis by blast
qed

text \<open>
  The last block is kept per chain, not per contract. When one contract's tick has brought
  it to the current block, another contract of the chain finds nothing to do at that block, and
  no later tick of it fetches the blocks the first one fetched: the logs of the second contract
  in these blocks are missed.
\<close>

theorem shared_last_block_starves:
  assumes "poll_turn node (Inr cur) c ct w = Some (Goes (tr, w'))" and "unat cur + 5 < 2 ^ 64"
    and "\<forall>x \<in> set tr. snd x" and "ct_ChainID ct' = ct_ChainID ct" and "unat cur' + 5 < 2 ^ 64" and "n \<le> uint cur"
  shows "poll_turn node' (Inr cur) c' ct' w' = Some (Goes ([], w')) \<and>
    filter (in_range n) (batch_ranges (last_block (ct_ChainID ct') w' + 1) cur') = []
    \<or> cur < last_block (ct_ChainID ct) w"
proof (cases "cur < last_block (ct_ChainID ct) w")
  case False
  have last: "last_block (ct_ChainID ct) w' = cur"
    using poll_progress [OF assms(1-3), of 0] False by (simp add: max_def not_less)
  have nw: "no_wrap cur'" using assms(5) by (simp add: no_wrap_def)
  have "unat (cur + 1) = unat cur + 1" using assms(2) by (subst unat_add_u64) auto
  then have "uint (cur + 1) = uint cur + 1" using uint_nat [of cur] uint_nat [of "cur + 1"] by simp
  then have "length (filter (in_range n) (batch_ranges (cur + 1) cur')) = 0"
    using batch_once [OF nw, of n "cur + 1"] assms(6) by simp
  then show ?thesis using last assms(4) by (simp add: poll_turn_def)
qed simp

theorem shared_last_block_starves_witness:
  "poll_turn quiet_node (Inr 17) sample_client (sample_contract\<lparr>ct_ID := ''c2''\<rparr>) (sample_world 17) =
     Some (Goes ([], sample_world 17))"
  using shared_last_block_starves [OF sample_poll, of "sample_contract\<lparr>ct_ID := ''c2''\<rparr>" 17 13 quiet_node sample_client]
  by (simp add: last_block_def sample_world_def sample_contract_def)

section \<open>What the streams receive\<close>

definition log_event :: "('x, 'db) client \<Rightarrow> string \<Rightarrow> eth_log \<Rightarrow> pb_event" where
  "log_event c sig l =
     \<lparr>pe_BlockNumber = int64_of (lg_BlockNumber l), pe_TxHash = g_HashHex (cl_geth c) (lg_TxHash l),
      pe_Data = (case DecodeEvent (cl_abi c) (GetDecoder c) sig (lg_Data l) (lg_Topics l) of
         Inl err \<Rightarrow> raw_json (g_Bytes2Hex (cl_geth c) (lg_Data l)) | Inr s \<Rightarrow> s)\<rparr>"

text \<open>Appending as many events as there is room for.\<close>

definition offer_all :: "pb_event list \<Rightarrow> pb_event chan \<Rightarrow> pb_event chan" where
  "offer_all evs c = c\<lparr>ch_buf := ch_buf c @ take (100 - length (ch_buf c)) evs\<rparr>"

definition deliver_to :: "string \<Rightarrow> pb_event list \<Rightarrow> srv \<Rightarrow> srv" where
  "deliver_to key evs s = s\<lparr>sv_chans := (\<lambda>i.
     if live_under s key i then offer_all evs (sv_chans s i) else sv_chans s i)\<rparr>"

lemma BroadcastEvent_deliver:
  assumes "srv_reach cfg s"
  shows "BroadcastEvent chain addr event ev s = Goes (deliver_to (stream_key chain addr event) [ev] s)"
  using broadcast_spec [OF assms, of chain addr event ev]
  by (auto simp: deliver_to_def offer_all_def offer_def fun_eq_iff)

lemma bcast_steps_reach: "srv_reach cfg s \<Longrightarrow> bcast_steps n b s = Goes s' \<Longrightarrow> srv_reach cfg s'"
proof (induction n arbitrary: b s)
  case (Suc n)
  then obtain b1 s1 where "bcast_step b s = Goes (b1, s1)" "bcast_steps n b1 s1 = Goes s'"
    by (auto simp: bind_step_Goes)
  then show ?case using Suc.IH srv_reach.bcast [OF Suc.prems(1)] by blast
qed simp

lemma deliver_reach:
  assumes "srv_reach cfg s"
  shows "srv_reach cfg (deliver_to (stream_key chain addr event) [ev] s)"
  using bcast_steps_reach [OF assms] BroadcastEvent_deliver [OF assms, of chain addr event ev]
  by (auto simp: BroadcastEvent_def Let_def)

lemma offer_all_Nil [simp]: "offer_all [] c = c"
  by (simp add: offer_all_def)

lemma offer_all_Cons: "offer_all evs (offer_all [ev] c) = offer_all (ev # evs) c"
proof (cases "100 - length (ch_buf c)")
  case (Suc n)
  then have "99 - length (ch_buf c) = n" by simp
  then show ?thesis using Suc by (simp add: offer_all_def)
qed (simp add: offer_all_def)

lemma deliver_Nil [simp]: "deliver_to key [] s = s"
  by (simp add: deliver_to_def cong: if_cong)

lemma deliver_Cons: "deliver_to key evs (deliver_to key [ev] s) = deliver_to key (ev # evs) s"
proof -
  have l: "live_under (deliver_to key [ev] s) = live_under s" by (simp add: deliver_to_def live_under_def fun_eq_iff)
  show ?thesis
    unfolding deliver_to_def [of key evs] l
    by (simp add: deliver_to_def offer_all_Cons fun_eq_iff)
qed

text \<open>
  What a tick broadcasts of the logs it has fetched, when the streams' server is in a
  reachable state: if the contract is in the database, every live stream under its chain,
  address and event name receives the logs' events in order, as many as its channel has room
  for, and no other stream receives anything; otherwise nothing is sent. It never panics.
\<close>

theorem logs_are_broadcast:
  assumes "srv_reach cfg s" and "w_srv w = Some s"
  shows "ProcessLogsEvent c chain addr sig logs w =
    (case st_FindContract (cl_store c) chain (to_lower addr) sig (cs_db (w_st w)) of
       Inl err \<Rightarrow> Goes w
     | Inr ct \<Rightarrow> Goes (w\<lparr>w_srv := Some (deliver_to (stream_key (int32_wrap chain) addr (ct_EventName ct))
         (map (log_event c sig) logs) s)\<rparr>))"
proof (cases "st_FindContract (cl_store c) chain (to_lower addr) sig (cs_db (w_st w))")
  case (Inl err)
  then have "processEvent c chain addr sig l d w = Goes (Some ''failed to find contract'', w)" for l d
    by (simp add: processEvent_def)
  then show ?thesis using Inl by (induction logs) (auto simp: Let_def)
next
  case (Inr ct)
  let ?key = "stream_key (int32_wrap chain) addr (ct_EventName ct)"
  have "ProcessLogsEvent c chain addr sig logs w' =
      Goes (w'\<lparr>w_srv := Some (deliver_to ?key (map (log_event c sig) logs) s')\<rparr>)"
    if "srv_reach cfg s'" "w_srv w' = Some s'" "w_st w' = w_st w" for s' w'
    using that
  proof (induction logs arbitrary: s' w')
    case Nil
    then show ?case by simp
  next
    case (Cons l ls)
    let ?d = "pe_Data (log_event c sig l)" and ?s1 = "deliver_to ?key [log_event c sig l] s'"
    have e: "processEvent c chain addr sig l ?d w' = Goes (None, w'\<lparr>w_srv := Some ?s1\<rparr>)"
      using Inr Cons.prems BroadcastEvent_deliver [OF Cons.prems(1)]
      by (simp add: processEvent_def log_event_def)
    have "ProcessLogsEvent c chain addr sig (l # ls) w' = ProcessLogsEvent c chain addr sig ls (w'\<lparr>w_srv := Some ?s1\<rparr>)"
      using e by (simp add: Let_def log_event_def)
    also have "\<dots> = Goes (w'\<lparr>w_srv := Some ?s1\<rparr>\<lparr>w_srv := Some (deliver_to ?key (map (log_event c sig) ls) ?s1)\<rparr>)"
      using Cons.prems deliver_reach [OF Cons.prems(1)] by (intro Cons.IH) auto
    finally show ?case by (simp add: deliver_Cons)
  qed
  then show ?thesis using Inr assms by simp
qed

theorem logs_are_broadcast_witness:
  "\<exists>s. srv_reach sample_cfg s \<and>
    ProcessLogsEvent sample_client 39 ''0xab'' ''sig'' [sample_log 0] ((sample_world 10)\<lparr>w_srv := Some s\<rparr>) =
      Goes ((sample_world 10)\<lparr>w_srv := Some s\<rparr>)"
proof -
  obtain s where s: "srv_reach sample_cfg s" using two_streams by blast
  have n: "st_FindContract (cl_store sample_client) 39 (to_lower ''0xab'') ''sig'' (cs_db (w_st ((sample_world 10)\<lparr>w_srv := Some s\<rparr>))) =
      Inl ErrNotFound"
    by (simp add: sample_world_def sample_st_def table_store_sel first_row_def sample_contract_def hex_EncodeToHex_def)
  show ?thesis
    using logs_are_broadcast [OF s, of "(sample_world 10)\<lparr>w_srv := Some s\<rparr>" sample_client 39 "''0xab''" "''sig''" "[sample_log 0]"] s n
    by auto
qed

section \<open>The life of the monitor\<close>

text \<open>
  The states the monitor can be in: \<open>Start\<close> and the check on the contracts of a table whose IDs
  are distinct, the worker's registration of a contract that is not marked ready, the marks of a
  backfill, \<open>Stop\<close>, and contexts of others made or cancelled at any time.
\<close>

inductive mon_reach :: "mon \<Rightarrow> bool" where
  new: "mon_reach NewMonitor"
| start: "mon_reach m \<Longrightarrow> (\<And>cs. contracts = Inr cs \<Longrightarrow> distinct (map ct_ID cs)) \<Longrightarrow>
    mon_reach (snd (monitor_Start ctx contracts heads m))"
| stop: "mon_reach m \<Longrightarrow> mon_reach (monitor_Stop m)"
| register: "mon_reach m \<Longrightarrow> \<not> IsContractReadyForMonitoring (ct_ID c) m \<Longrightarrow>
    mon_reach (snd (RegisterContract ctx c m))"
| check: "mon_reach m \<Longrightarrow> mon_reach (checkForNewContracts ctx contracts m)"
| backfilling: "mon_reach m \<Longrightarrow> mon_reach (MarkContractBackfilling i m)"
| complete: "mon_reach m \<Longrightarrow> mon_reach (MarkContractBackfillComplete i m)"
| other_ctx: "mon_reach m \<Longrightarrow> mon_reach (m\<lparr>mn_contexts := snd (with_cancel p (mn_contexts m))\<rparr>)"
| other_cancel: "mon_reach m \<Longrightarrow> mon_reach (m\<lparr>mn_contexts := cancel_ctx i (mn_contexts m)\<rparr>)"

text \<open>A goroutine that has not ended is the one whose cancel function the monitors map holds.\<close>

definition tracked :: "mon \<Rightarrow> contract \<times> ctx \<Rightarrow> bool" where
  "tracked m g = (ctx_done (mn_contexts m) (snd g) \<or> map_of (mn_monitors m) (ct_ID (fst g)) = Some (hd (snd g)))"

definition mon_inv :: "mon \<Rightarrow> bool" where
  "mon_inv m =
     (distinct (map fst (mn_monitors m)) \<and>
      (\<forall>c i. map_of (mn_monitors m) c = Some i \<longrightarrow>
         IsContractReadyForMonitoring c m \<and> (\<exists>g \<in> set (mn_spawned m). ct_ID (fst g) = c \<and> hd (snd g) = i)) \<and>
      (\<not> mn_running m \<longrightarrow> mn_monitors m = []) \<and>
      (\<forall>g \<in> set (mn_spawned m). tracked m g \<and> snd g \<noteq> [] \<and> hd (snd g) < cx_next (mn_contexts m)) \<and>
      distinct (map (\<lambda>g. hd (snd g)) (mn_spawned m)))"

lemma watch_contract_sel:
  "mn_monitors (watch_contract p c m) = AList.update (ct_ID c) (cx_next (mn_contexts m)) (mn_monitors m)"
  "mn_spawned (watch_contract p c m) = mn_spawned m @ [(c, cx_next (mn_contexts m) # p)]"
  "mn_running (watch_contract p c m) = mn_running m"
  "mn_ready (watch_contract p c m) = AList.update (ct_ID c) True (mn_ready m)"
  "cx_next (mn_contexts (watch_contract p c m)) = cx_next (mn_contexts m) + 1"
  "ctx_done (mn_contexts (watch_contract p c m)) x = ctx_done (mn_contexts m) x"
  by (simp_all add: watch_contract_def with_cancel_def Let_def ctx_done_def)

lemma ready_watch: "IsContractReadyForMonitoring k (watch_contract p c m) =
    (k = ct_ID c \<or> IsContractReadyForMonitoring k m)"
  by (simp add: IsContractReadyForMonitoring_def watch_contract_sel update_conv')

lemma watch_inv:
  assumes "mon_inv m" and run: "mn_running m" and new: "map_of (mn_monitors m) (ct_ID c) = None"
  shows "mon_inv (watch_contract p c m)"
proof -
  let ?m = "watch_contract p c m"
  note I = assms(1) [unfolded mon_inv_def]
  have "tracked ?m g" if "g \<in> set (mn_spawned m)" for g
    using I that new by (auto simp: tracked_def watch_contract_sel update_conv')
  moreover have "tracked ?m (c, cx_next (mn_contexts m) # p)"
    by (simp add: tracked_def watch_contract_sel update_conv')
  ultimately have g: "\<forall>g \<in> set (mn_spawned ?m). tracked ?m g \<and> snd g \<noteq> [] \<and> hd (snd g) < cx_next (mn_contexts ?m)"
    using I by (auto simp: watch_contract_sel less_Suc_eq)
  have d: "distinct (map fst (mn_monitors ?m))"
    using I by (simp add: watch_contract_sel distinct_update)
  have k: "IsContractReadyForMonitoring k ?m \<and> (\<exists>g \<in> set (mn_spawned ?m). ct_ID (fst g) = k \<and> hd (snd g) = i)"
    if "map_of (mn_monitors ?m) k = Some i" for k i
    using I that by (auto simp: ready_watch watch_contract_sel update_conv' split: if_splits)
  have "cx_next (mn_contexts m) \<notin> set (map (\<lambda>g. hd (snd g)) (mn_spawned m))" using I by auto
  then have s: "distinct (map (\<lambda>g. hd (snd g)) (mn_spawned ?m))"
    using I by (simp add: watch_contract_sel)
  have r: "mn_running ?m" using run by (simp add: watch_contract_sel)
  show ?thesis unfolding mon_inv_def using g d k s r by blast
qed

lemma watch_all_inv:
  "mon_inv m \<Longrightarrow> mn_running m \<Longrightarrow> distinct (map ct_ID cs) \<Longrightarrow>
   \<forall>c \<in> set cs. map_of (mn_monitors m) (ct_ID c) = None \<Longrightarrow> mon_inv (fold (watch_contract p) cs m)"
proof (induction cs arbitrary: m)
  case (Cons c cs)
  have "mon_inv (watch_contract p c m)" using Cons.prems by (intro watch_inv) auto
  moreover have "\<forall>x \<in> set cs. map_of (mn_monitors (watch_contract p c m)) (ct_ID x) = None"
    using Cons.prems(3,4) by (fastforce simp: watch_contract_sel update_conv' image_iff)
  ultimately show ?case using Cons.prems by (simp add: Cons.IH watch_contract_sel)
qed simp

lemma init_blocks_sel:
  "mn_monitors (init_blocks h m) = mn_monitors m \<and> mn_spawned (init_blocks h m) = mn_spawned m \<and>
   mn_running (init_blocks h m) = mn_running m \<and> mn_ready (init_blocks h m) = mn_ready m \<and>
   mn_contexts (init_blocks h m) = mn_contexts m"
proof (induction h arbitrary: m)
  case (Cons x h)
  show ?case by (cases x; cases "snd x") (use Cons.IH in \<open>simp_all add: init_blocks_def\<close>)
qed (simp add: init_blocks_def)

lemma mon_inv_cong:
  assumes "mon_inv m" "mn_monitors m' = mn_monitors m" "mn_spawned m' = mn_spawned m"
    "mn_running m' = mn_running m \<or> mn_monitors m = []" "mn_contexts m' = mn_contexts m"
    "\<forall>k. IsContractReadyForMonitoring k m \<longrightarrow> IsContractReadyForMonitoring k m'"
  shows "mon_inv m'"
proof -
  have t: "tracked m' = tracked m" by (rule ext) (simp only: tracked_def assms(2,5))
  note I = assms(1) [unfolded mon_inv_def]
  have "\<forall>c i. map_of (mn_monitors m) c = Some i \<longrightarrow> IsContractReadyForMonitoring c m' \<and>
      (\<exists>g \<in> set (mn_spawned m). ct_ID (fst g) = c \<and> hd (snd g) = i)"
    using I assms(6) by blast
  moreover have "\<not> mn_running m' \<longrightarrow> mn_monitors m = []" using I assms(4) by metis
  ultimately show ?thesis using I unfolding mon_inv_def assms(2,3,5) t by blast
qed

lemma Start_inv:
  assumes "mon_inv m" and "\<And>cs. contracts = Inr cs \<Longrightarrow> distinct (map ct_ID cs)"
  shows "mon_inv (snd (monitor_Start ctx contracts heads m))"
proof (cases "mn_running m")
  case False
  then have e: "mn_monitors m = []" using assms(1) by (simp add: mon_inv_def)
  show ?thesis
  proof (cases contracts)
    case (Inl err)
    then show ?thesis using False e
      by (auto simp: monitor_Start_def IsContractReadyForMonitoring_def intro: mon_inv_cong [OF assms(1)])
  next
    case (Inr cs)
    have "mon_inv (init_blocks heads (m\<lparr>mn_running := True\<rparr>))"
      using e by (intro mon_inv_cong [OF assms(1)])
        (auto simp: init_blocks_sel IsContractReadyForMonitoring_def)
    then have "mon_inv (fold (watch_contract ctx) cs (init_blocks heads (m\<lparr>mn_running := True\<rparr>)))"
      using assms(2) [OF Inr] e by (intro watch_all_inv) (auto simp: init_blocks_sel)
    then show ?thesis using Inr False by (simp add: monitor_Start_def Let_def)
  qed
qed (use assms in \<open>simp add: monitor_Start_def\<close>)

lemma fold_cancel: "cx_cancelled (fold (\<lambda>(c, i). cancel_ctx i) ms s) = rev (map snd ms) @ cx_cancelled s \<and>
    cx_next (fold (\<lambda>(c, i). cancel_ctx i) ms s) = cx_next s"
  by (induction ms arbitrary: s) (auto simp: cancel_ctx_def)

text \<open>After \<open>Stop\<close>, every goroutine's context is done.\<close>

lemma Stop_ends:
  assumes "mon_inv m" and "g \<in> set (mn_spawned m)"
  shows "ctx_done (mn_contexts (monitor_Stop m)) (snd g)"
proof (cases "ctx_done (mn_contexts m) (snd g)")
  case True
  then show ?thesis by (auto simp: monitor_Stop_def ctx_done_def fold_cancel)
next
  case False
  then have h: "map_of (mn_monitors m) (ct_ID (fst g)) = Some (hd (snd g))" "snd g \<noteq> []"
    using assms by (auto simp: mon_inv_def tracked_def)
  then have "(ct_ID (fst g), hd (snd g)) \<in> set (mn_monitors m)" by (simp add: map_of_SomeD)
  then have "hd (snd g) \<in> snd ` set (mn_monitors m)" by force
  moreover have "mn_running m" using h assms(1) by (auto simp: mon_inv_def)
  moreover have "hd (snd g) \<in> set (snd g)" using h(2) by simp
  ultimately show ?thesis by (auto simp: monitor_Stop_def ctx_done_def fold_cancel)
qed

lemma Stop_inv:
  assumes "mon_inv m"
  shows "mon_inv (monitor_Stop m)"
proof (cases "mn_running m")
  case True
  have "\<forall>g \<in> set (mn_spawned m). tracked (monitor_Stop m) g" using Stop_ends [OF assms] by (simp add: tracked_def)
  then show ?thesis using assms True by (simp add: mon_inv_def monitor_Stop_def fold_cancel)
qed (use assms in \<open>simp add: monitor_Stop_def\<close>)

lemma check_contract_inv: "mon_inv m \<Longrightarrow> mon_inv (check_contract ctx c m)"
  using watch_inv [of m c ctx] by (auto simp: check_contract_def RegisterContract_def IsRunning_def)

lemma mon_reach_inv: "mon_reach m \<Longrightarrow> mon_inv m"
proof (induction rule: mon_reach.induct)
  case new
  then show ?case by (simp add: mon_inv_def NewMonitor_def)
next
  case (start m contracts ctx heads)
  then show ?case by (intro Start_inv) auto
next
  case (stop m)
  then show ?case by (simp add: Stop_inv)
next
  case (register m c ctx)
  have "map_of (mn_monitors m) (ct_ID c) = None"
    using register by (cases "map_of (mn_monitors m) (ct_ID c)") (auto simp: mon_inv_def)
  then show ?case using register watch_inv [of m c ctx] by (auto simp: RegisterContract_def IsRunning_def)
next
  case (check m ctx contracts)
  have "mon_inv (fold (check_contract ctx) cs m)" for cs
    using check.IH by (induction cs arbitrary: m) (simp_all add: check_contract_inv)
  then show ?case using check by (auto simp: checkForNewContracts_def split: sum.splits)
next
  case (backfilling m i)
  then show ?case
    by (intro mon_inv_cong [OF backfilling.IH])
      (auto simp: MarkContractBackfilling_def IsContractReadyForMonitoring_def update_conv')
next
  case (complete m i)
  then show ?case
    by (intro mon_inv_cong [OF complete.IH])
      (auto simp: MarkContractBackfillComplete_def IsContractReadyForMonitoring_def update_conv')
next
  case (other_ctx m p)
  let ?m = "m\<lparr>mn_contexts := snd (with_cancel p (mn_contexts m))\<rparr>"
  have "tracked ?m = tracked m" by (simp add: tracked_def with_cancel_def Let_def ctx_done_def fun_eq_iff)
  moreover have "IsContractReadyForMonitoring k ?m = IsContractReadyForMonitoring k m" for k
    by (simp add: IsContractReadyForMonitoring_def)
  ultimately show ?case using other_ctx.IH by (auto simp: mon_inv_def with_cancel_def Let_def)
next
  case (other_cancel m i)
  let ?m = "m\<lparr>mn_contexts := cancel_ctx i (mn_contexts m)\<rparr>"
  have "tracked m g \<Longrightarrow> tracked ?m g" for g by (auto simp: tracked_def ctx_done_cancel)
  moreover have "IsContractReadyForMonitoring k ?m = IsContractReadyForMonitoring k m" for k
    by (simp add: IsContractReadyForMonitoring_def)
  ultimately show ?case using other_cancel.IH by (simp add: mon_inv_def cancel_ctx_def)
qed

lemma check_fold:
  "mn_running m \<Longrightarrow> distinct (map ct_ID cs) \<Longrightarrow>
   (let m' = fold (check_contract ctx) cs m in
     (\<forall>k i. map_of (mn_monitors m) k = Some i \<longrightarrow> map_of (mn_monitors m') k = Some i) \<and>
     (\<forall>k. k \<notin> ct_ID ` set cs \<longrightarrow> map_of (mn_monitors m') k = map_of (mn_monitors m) k) \<and>
     (\<forall>c \<in> set cs. map_of (mn_monitors m') (ct_ID c) \<noteq> None) \<and>
     map fst (mn_spawned m') = map fst (mn_spawned m) @ filter (\<lambda>c. map_of (mn_monitors m) (ct_ID c) = None) cs)"
proof (induction cs arbitrary: m)
  case (Cons c cs)
  let ?m = "check_contract ctx c m"
  have r: "mn_running ?m" using Cons.prems
    by (simp add: check_contract_def RegisterContract_def IsRunning_def watch_contract_sel)
  have d: "distinct (map ct_ID cs)" "ct_ID c \<notin> ct_ID ` set cs" using Cons.prems by auto
  note IH = Cons.IH [OF r d(1), unfolded Let_def]
  show ?case
  proof (cases "map_of (mn_monitors m) (ct_ID c)")
    case None
    then have m: "map_of (mn_monitors ?m) = (map_of (mn_monitors m))(ct_ID c \<mapsto> cx_next (mn_contexts m))"
        "map fst (mn_spawned ?m) = map fst (mn_spawned m) @ [c]"
      using Cons.prems
      by (simp_all add: check_contract_def RegisterContract_def IsRunning_def watch_contract_sel update_conv')
    have "ct_ID x \<noteq> ct_ID c" if "x \<in> set cs" for x using d(2) that by (metis image_eqI)
    then have f: "filter (\<lambda>x. map_of (mn_monitors ?m) (ct_ID x) = None) cs =
        filter (\<lambda>x. map_of (mn_monitors m) (ct_ID x) = None) cs"
      by (intro filter_cong) (simp_all add: m)
    have "map_of (mn_monitors m) k = Some i \<Longrightarrow> map_of (mn_monitors ?m) k = Some i" for k i
      using None m(1) by auto
    then show ?thesis using IH None m f by (simp add: Let_def)
  next
    case (Some i)
    then have "?m = m" by (simp add: check_contract_def)
    then show ?thesis using IH Some by (simp add: Let_def)
  qed
qed simp

text \<open>
  A turn of the check for new contracts, on a running monitor and a table with distinct IDs:
  afterwards every contract of the table is monitored; a goroutine is started for exactly the
  contracts that were not monitored, in the table's order; and no monitored contract loses or
  changes its cancel function.
\<close>

theorem check_registers_missing:
  assumes "mn_running m" and "distinct (map ct_ID cs)"
  shows "let m' = checkForNewContracts ctx (Inr cs) m in
    (\<forall>c \<in> set cs. map_of (mn_monitors m') (ct_ID c) \<noteq> None)
    \<and> map fst (mn_spawned m') = map fst (mn_spawned m) @ filter (\<lambda>c. map_of (mn_monitors m) (ct_ID c) = None) cs
    \<and> (\<forall>k i. map_of (mn_monitors m) k = Some i \<longrightarrow> map_of (mn_monitors m') k = Some i)
    \<and> (\<forall>k. k \<notin> ct_ID ` set cs \<longrightarrow> map_of (mn_monitors m') k = map_of (mn_monitors m) k)"
proof -
  note F = check_fold [OF assms, of ctx, unfolded Let_def]
  then show ?thesis using assms(1) by (simp add: checkForNewContracts_def Let_def)
qed

theorem check_registers_missing_witness:
  "map fst (mn_spawned (checkForNewContracts [] (Inr [sample_contract]) (NewMonitor\<lparr>mn_running := True\<rparr>))) = [sample_contract]"
  using check_registers_missing [of "NewMonitor\<lparr>mn_running := True\<rparr>" "[sample_contract]" "[]"]
  by (simp add: Let_def NewMonitor_def)

end
