(* ===== verification/Listener.thy ===== *)
theory Listener
  imports Eth_Client Block_Ranges
begin

text \<open>
  \<open>internal/listener/listener.go\<close>: the backfill of a contract's past events. It walks from the
  start block to the node's latest one in chunks of 2000, sends the logs to the worker's channel,
  and keeps the next block to fetch in the shared map of backfill statuses. The node's answers
  are arguments; the context is how many \<open>select\<close>s go on before it is seen as done, or \<open>None\<close>
  when it never is.
\<close>

section \<open>State and operations\<close>

record listener =
  ln_chainID :: int
  ln_contract :: "byte list"
  ln_eventSig :: "byte list"
  ln_startBlock :: int

definition NewEventListener :: "int \<Rightarrow> byte list \<Rightarrow> byte list \<Rightarrow> int \<Rightarrow> listener" where
  "NewEventListener chainID contract eventSig startBlock =
     \<lparr>ln_chainID = chainID, ln_contract = contract, ln_eventSig = eventSig, ln_startBlock = startBlock\<rparr>"

text \<open>
  What a backfill works on: database and producer, the statuses, what it has put in the channel,
  whether it has closed it, and (for the proofs) the ranges it is done with.
\<close>

record ('x, 'db) backfill =
  bk_st :: "('x, 'db) client_st"
  bk_cache :: "string \<rightharpoonup> int"
  bk_sent :: "eth_log list"
  bk_closed :: bool
  bk_done :: "block_range list"

definition backfill_key :: "int \<Rightarrow> string \<Rightarrow> string \<Rightarrow> string" where
  "backfill_key chainId contractAddress eventSig =
     to_lower (''backfill_status:'' @ fmt_d chainId @ ''/'' @ contractAddress @ ''/'' @ eventSig)"

definition listener_key :: "('x, 'db) client \<Rightarrow> listener \<Rightarrow> string" where
  "listener_key c l = backfill_key (ln_chainID l) (g_AddressHex (cl_geth c) (ln_contract l))
     (g_HashHex (cl_geth c) (ln_eventSig l))"

definition updateBackfillStatus :: "('x, 'db) client \<Rightarrow> listener \<Rightarrow> int \<Rightarrow> ('x, 'db) backfill \<Rightarrow> ('x, 'db) backfill" where
  "updateBackfillStatus c l currentBlock s = s\<lparr>bk_cache := (bk_cache s)(listener_key c l \<mapsto> currentBlock)\<rparr>"

definition clearBackfillStatus :: "('x, 'db) client \<Rightarrow> listener \<Rightarrow> ('x, 'db) backfill \<Rightarrow> ('x, 'db) backfill" where
  "clearBackfillStatus c l s = s\<lparr>bk_cache := (bk_cache s)(listener_key c l := None)\<rparr>"

text \<open>A \<open>select\<close> that may find the context done.\<close>

fun ctx_select :: "nat option \<Rightarrow> nat option option" where
  "ctx_select None = Some None"
| "ctx_select (Some 0) = None"
| "ctx_select (Some (Suc n)) = Some (Some n)"

text \<open>
  The inner loop: sends each log, unless the context is done. What is sent is a list here, without
  the channel's capacity: a receiver that keeps up. In \<open>task_step\<close> the channel has its capacity, and
  a send waits while it is full.
\<close>

fun send_logs :: "nat option \<Rightarrow> eth_log list \<Rightarrow> ('x, 'db) backfill \<Rightarrow> nat option option \<times> ('x, 'db) backfill" where
  "send_logs q [] s = (Some q, s)"
| "send_logs q (l # ls) s =
     (case ctx_select q of
        None \<Rightarrow> (None, s)
      | Some q' \<Rightarrow> send_logs q' ls (s\<lparr>bk_sent := bk_sent s @ [l]\<rparr>))"

definition chunk_end :: "int \<Rightarrow> int \<Rightarrow> int" where
  "chunk_end currentBlock endBlock =
     (let toBlock = currentBlock + 2000 in if toBlock > endBlock then endBlock else toBlock)"

lemma chunk_end_bounds: "cur < end \<Longrightarrow> cur < chunk_end cur end \<and> chunk_end cur end \<le> end \<and> chunk_end cur end \<le> cur + 2000"
  by (auto simp: chunk_end_def Let_def)

function backfill_loop ::
  "(filter_query \<Rightarrow> string + eth_log list) \<Rightarrow> ('x, 'db) client \<Rightarrow> listener \<Rightarrow> nat option \<Rightarrow> int \<Rightarrow> int \<Rightarrow>
   ('x, 'db) backfill \<Rightarrow> (string option \<times> ('x, 'db) backfill) go_step" where
  "backfill_loop node c l q currentBlock endBlock s =
     (if \<not> currentBlock < endBlock then Goes (None, s)
      else case ctx_select q of
        None \<Rightarrow> Goes (Some ''context canceled'', s)
      | Some q1 \<Rightarrow>
          let toBlock = chunk_end currentBlock endBlock in
          bind_step (FilterLogs c node (ln_contract l) (ln_eventSig l) currentBlock toBlock (ln_chainID l) (bk_st s))
            (\<lambda>(res, st). let s1 = s\<lparr>bk_st := st\<rparr> in
               case res of
                 Inl err \<Rightarrow> Goes (Some (''failed to filter logs: '' @ err), s1)
               | Inr logs \<Rightarrow>
                   (case send_logs q1 logs s1 of
                      (None, s2) \<Rightarrow> Goes (Some ''context canceled'', s2)
                    | (Some q2, s2) \<Rightarrow>
                        backfill_loop node c l q2 (toBlock + 1) endBlock
                          (updateBackfillStatus c l (toBlock + 1)
                            (s2\<lparr>bk_done := bk_done s2 @ [(currentBlock, toBlock)]\<rparr>)))))"
  by pat_completeness auto
termination
  by (relation "measure (\<lambda>(node, c, l, q, currentBlock, endBlock, s). nat (endBlock - currentBlock))")
    (auto dest: chunk_end_bounds)

declare backfill_loop.simps [simp del]

definition listener_backfill ::
  "(filter_query \<Rightarrow> string + eth_log list) \<Rightarrow> u64 res \<Rightarrow> ('x, 'db) client \<Rightarrow> listener \<Rightarrow> nat option \<Rightarrow>
   ('x, 'db) backfill \<Rightarrow> (string option \<times> ('x, 'db) backfill) go_step" where
  "listener_backfill node latest c l q s =
     (case latest of
        Inl err \<Rightarrow> Goes (Some (''failed to get latest block: '' @ err), s)
      | Inr latestBlock \<Rightarrow>
          bind_step (backfill_loop node c l q (ln_startBlock l) (int64_of latestBlock)
              (updateBackfillStatus c l (ln_startBlock l) s))
            (\<lambda>(err, s1). case err of
               Some e \<Rightarrow> Goes (Some e, s1)
             | None \<Rightarrow> Goes (None, clearBackfillStatus c l s1)))"

definition listener_Start ::
  "(filter_query \<Rightarrow> string + eth_log list) \<Rightarrow> u64 res \<Rightarrow> ('x, 'db) client \<Rightarrow> listener \<Rightarrow> nat option \<Rightarrow>
   ('x, 'db) backfill \<Rightarrow> (string option \<times> ('x, 'db) backfill) go_step" where
  "listener_Start node latest c l q s =
     bind_step (listener_backfill node latest c l q s)
       (\<lambda>(err, s1). case err of
          Some e \<Rightarrow> Goes (Some (''failed to backfill events: '' @ e), s1)
        | None \<Rightarrow> if bk_closed s1 then Panics else Goes (None, s1\<lparr>bk_closed := True\<rparr>))"

section \<open>The chunks\<close>

text \<open>The ranges of a backfill that nothing interrupts, and the last block they reach.\<close>

function chunks :: "int \<Rightarrow> int \<Rightarrow> block_range list" where
  "chunks cur end = (if cur < end then (cur, chunk_end cur end) # chunks (chunk_end cur end + 1) end else [])"
  by pat_completeness auto
termination
  by (relation "measure (\<lambda>(cur, end). nat (end - cur))") (auto dest: chunk_end_bounds)

declare chunks.simps [simp del]

definition backfill_upto :: "int \<Rightarrow> int \<Rightarrow> int" where
  "backfill_upto cur end = (if (end - cur) mod 2001 = 0 then end - 1 else end)"

lemma chunks_consecutive: "consecutive cur (chunks cur end) (backfill_upto cur end)"
proof (induction cur "end" rule: chunks.induct)
  case (1 cur "end")
  show ?case
  proof (cases "cur < end")
    case True
    note IH = 1 [OF True]
    show ?thesis
    proof (cases "cur + 2000 < end")
      case t: True
      have e: "chunk_end cur end = cur + 2000" using t by (simp add: chunk_end_def Let_def)
      have "(end - (cur + 2001)) mod 2001 = (end - cur) mod 2001"
        by (metis add.commute diff_diff_eq minus_mod_self2)
      then have "backfill_upto (cur + 2001) end = backfill_upto cur end" by (simp add: backfill_upto_def)
      then have "consecutive (cur + 2001) (chunks (cur + 2001) end) (backfill_upto cur end)"
        using IH by (simp add: e add.assoc)
      moreover have "cur + 2000 \<le> backfill_upto cur end" using t by (simp add: backfill_upto_def)
      ultimately show ?thesis using True by (subst chunks.simps) (simp add: e add.assoc)
    next
      case f: False
      have e: "chunk_end cur end = end" using f by (simp add: chunk_end_def Let_def)
      have "(end - cur) mod 2001 = end - cur" using True f by (intro mod_pos_pos_trivial) auto
      then have "backfill_upto cur end = end" using True by (simp add: backfill_upto_def)
      then show ?thesis using True by (subst chunks.simps) (simp add: e chunks.simps [of "end + 1"])
    qed
  next
    case False
    then have "backfill_upto cur end < cur" by (cases "end = cur") (auto simp: backfill_upto_def)
    then show ?thesis using False by (subst chunks.simps) simp
  qed
qed

lemma chunks_width: "r \<in> set (chunks cur end) \<Longrightarrow> snd r - fst r < 2001"
proof (induction cur "end" rule: chunks.induct)
  case (1 cur "end")
  then show ?case
    using chunk_end_bounds [of cur "end"] by (subst (asm) (2) chunks.simps) (auto split: if_splits)
qed

interpretation chunked: range_splitter chunks "\<lambda>a b. True" backfill_upto 2001
  by unfold_locales (simp_all add: chunks_consecutive chunks_width)

section \<open>What a backfill does\<close>

text \<open>The node's answer for a range.\<close>

definition range_logs :: "(filter_query \<Rightarrow> string + eth_log list) \<Rightarrow> listener \<Rightarrow> block_range \<Rightarrow> eth_log list" where
  "range_logs node l r =
     (case node \<lparr>fq_FromBlock = fst r, fq_ToBlock = snd r, fq_Addresses = [ln_contract l],
                 fq_Topics = [[ln_eventSig l]]\<rparr> of Inl err \<Rightarrow> [] | Inr logs \<Rightarrow> logs)"

lemma FilterLogs_range_logs:
  assumes "FilterLogs c node (ln_contract l) (ln_eventSig l) f t (ln_chainID l) st = Goes (Inr logs, st')"
  shows "logs = range_logs node l (f, t)"
  using assms by (auto simp: FilterLogs_def range_logs_def bind_step_Goes split: sum.splits)

lemma send_logs_spec:
  assumes "send_logs q logs s = (r, s')"
  shows "\<exists>p. prefix p logs \<and> s' = s\<lparr>bk_sent := bk_sent s @ p\<rparr> \<and> (r \<noteq> None \<longrightarrow> p = logs)"
  using assms
proof (induction q logs s arbitrary: r rule: send_logs.induct)
  case (2 q l ls s)
  show ?case
  proof (cases "ctx_select q")
    case None
    then show ?thesis using "2.prems" by (intro exI [of _ "[]"]) auto
  next
    case (Some q')
    then have "send_logs q' ls (s\<lparr>bk_sent := bk_sent s @ [l]\<rparr>) = (r, s')" using "2.prems" by simp
    from "2.IH" [OF Some this] obtain p where "prefix p ls" "s' = s\<lparr>bk_sent := bk_sent s @ [l] @ p\<rparr>"
      "r \<noteq> None \<longrightarrow> p = ls" by auto
    then show ?thesis by (intro exI [of _ "l # p"]) simp
  qed
qed simp

text \<open>One turn of the loop, as the cases of its outcome.\<close>

lemma backfill_loop_cases:
  assumes "backfill_loop node c l q cur end s = Goes (err, s')" and "cur < end"
  obtains (cut) p st where "err \<noteq> None" "prefix p (range_logs node l (cur, chunk_end cur end))"
      "s' = s\<lparr>bk_st := st, bk_sent := bk_sent s @ p\<rparr>"
  | (go) q2 st where "backfill_loop node c l q2 (chunk_end cur end + 1) end
      (updateBackfillStatus c l (chunk_end cur end + 1)
        (s\<lparr>bk_st := st, bk_sent := bk_sent s @ range_logs node l (cur, chunk_end cur end),
          bk_done := bk_done s @ [(cur, chunk_end cur end)]\<rparr>)) = Goes (err, s')"
proof (cases "ctx_select q")
  case None
  then show thesis using assms cut [of "[]" "bk_st s"] by (auto simp: backfill_loop.simps)
next
  case (Some q1)
  let ?to = "chunk_end cur end"
  obtain res st where f: "FilterLogs c node (ln_contract l) (ln_eventSig l) cur ?to (ln_chainID l) (bk_st s) = Goes (res, st)"
    using assms Some by (subst (asm) backfill_loop.simps) (auto simp: Let_def bind_step_Goes)
  show thesis
  proof (cases res)
    case (Inl e)
    then show thesis using assms Some f cut [of "[]" st]
      by (subst (asm) backfill_loop.simps) (auto simp: Let_def)
  next
    case (Inr logs)
    have logs: "logs = range_logs node l (cur, ?to)" using f Inr FilterLogs_range_logs by blast
    obtain r s2 where sl: "send_logs q1 logs (s\<lparr>bk_st := st\<rparr>) = (r, s2)" by fastforce
    from send_logs_spec [OF sl] obtain p where p: "prefix p logs" "s2 = s\<lparr>bk_st := st, bk_sent := bk_sent s @ p\<rparr>"
      "r \<noteq> None \<longrightarrow> p = logs" by auto
    show thesis
    proof (cases r)
      case None
      then show thesis using assms Some f Inr sl p logs cut [of p st]
        by (subst (asm) backfill_loop.simps) (auto simp: Let_def)
    next
      case (Some q2)
      then show thesis using assms \<open>ctx_select q = Some q1\<close> f Inr sl p logs go [of q2 st]
        by (subst (asm) backfill_loop.simps) (auto simp: Let_def)
    qed
  qed
qed

text \<open>
  Wherever the loop stops, it is done with the chunks up to the next block, which is the status;
  it has sent their logs, and the first logs of the next chunk if it was cut there.
\<close>

lemma backfill_loop_spec:
  "backfill_loop node c l q cur end s = Goes (err, s') \<Longrightarrow> bk_cache s (listener_key c l) = Some cur \<Longrightarrow>
   \<exists>n rs p. chunks cur end = rs @ chunks n end \<and> (err = None) = (end \<le> n) \<and> cur \<le> n \<and> consecutive cur rs (n - 1) \<and>
     bk_done s' = bk_done s @ rs \<and> bk_closed s' = bk_closed s \<and>
     bk_cache s' = (bk_cache s)(listener_key c l \<mapsto> n) \<and>
     bk_sent s' = bk_sent s @ concat (map (range_logs node l) rs) @ p \<and>
     (if err = None then p = [] else prefix p (range_logs node l (n, chunk_end n end)))"
proof (induction "nat (end - cur)" arbitrary: q cur s rule: less_induct)
  case less
  show ?case
  proof (cases "cur < end")
    case False
    then have "chunks cur end = []" by (subst chunks.simps) simp
    then show ?thesis using False less.prems
      by (intro exI [of _ cur] exI [of _ "[]"]) (auto simp: backfill_loop.simps)
  next
    case True
    let ?to = "chunk_end cur end"
    note B = chunk_end_bounds [OF True]
    have ch: "chunks cur end = (cur, ?to) # chunks (?to + 1) end" using True by (subst chunks.simps) simp
    from less.prems(1) True show ?thesis
    proof (cases rule: backfill_loop_cases)
      case (cut p st)
      then show ?thesis using True less.prems(2)
        by (intro exI [of _ cur] exI [of _ "[]"] exI [of _ p]) auto
    next
      case (go q2 st)
      have m: "nat (end - (?to + 1)) < nat (end - cur)" using True B by simp
      from less.hyps [OF m go] obtain n rs p where H: "chunks (?to + 1) end = rs @ chunks n end"
        "(err = None) = (end \<le> n)" "?to + 1 \<le> n" "consecutive (?to + 1) rs (n - 1)"
        "bk_done s' = bk_done s @ [(cur, ?to)] @ rs" "bk_closed s' = bk_closed s"
        "bk_cache s' = (bk_cache s)(listener_key c l \<mapsto> n)"
        "bk_sent s' = bk_sent s @ range_logs node l (cur, ?to) @ concat (map (range_logs node l) rs) @ p"
        "if err = None then p = [] else prefix p (range_logs node l (n, chunk_end n end))"
        by (auto simp: updateBackfillStatus_def)
      then show ?thesis using ch B
        by (intro exI [of _ n] exI [of _ "(cur, ?to) # rs"] exI [of _ p]) auto
    qed
  qed
qed

section \<open>A backfill that nothing stops\<close>

lemma process_logs_goes:
  "\<forall>l \<in> set logs. lg_Topics l \<noteq> [] \<Longrightarrow> \<exists>r. process_logs c addr sig chain logs st cache = Goes r"
proof (induction logs arbitrary: st cache)
  case (Cons l ls)
  have "\<exists>r. publish_log c addr sig chain l st cache = Goes r"
    using Cons.prems by (auto simp: publish_log_def split: sum.splits prod.splits)
  then obtain out st1 cache1 where "processEventLog c addr sig chain l st cache = Goes (out, st1, cache1)"
    by (fastforce simp: processEventLog_def Let_def case_prod_beta split: sum.splits option.splits prod.splits)
  then show ?case using Cons by (fastforce simp: bind_step_Goes)
qed simp

lemma send_logs_live: "send_logs None logs s = (Some None, s\<lparr>bk_sent := bk_sent s @ logs\<rparr>)"
  by (induction logs arbitrary: s) simp_all

definition node_answers :: "(filter_query \<Rightarrow> string + eth_log list) \<Rightarrow> bool" where
  "node_answers node = (\<forall>q. \<exists>logs. node q = Inr logs \<and> (\<forall>l \<in> set logs. lg_Topics l \<noteq> []))"

lemma backfill_loop_goes:
  assumes "node_answers node"
  shows "\<exists>s'. backfill_loop node c l None cur end s = Goes (None, s')"
proof (induction "nat (end - cur)" arbitrary: cur s rule: less_induct)
  case less
  show ?case
  proof (cases "cur < end")
    case True
    note B = chunk_end_bounds [OF True]
    let ?q = "\<lparr>fq_FromBlock = cur, fq_ToBlock = chunk_end cur end, fq_Addresses = [ln_contract l],
      fq_Topics = [[ln_eventSig l]]\<rparr>"
    obtain logs where n: "node ?q = Inr logs" "\<forall>x \<in> set logs. lg_Topics x \<noteq> []"
      using assms by (auto simp: node_answers_def)
    obtain outs st where f: "process_logs c (ln_contract l) (ln_eventSig l) (ln_chainID l) logs (bk_st s) Map.empty =
        Goes (outs, st)" using process_logs_goes [OF n(2)] by fastforce
    have "nat (end - (chunk_end cur end + 1)) < nat (end - cur)" using True B by simp
    from less.hyps [OF this] show ?thesis
      using True n f by (subst backfill_loop.simps) (simp add: Let_def FilterLogs_def send_logs_live)
  qed (simp add: backfill_loop.simps)
qed

lemma listener_Start_spec:
  assumes "listener_Start node (Inr b) c l q s = Goes (err, s')"
  shows "\<exists>n rs p. chunks (ln_startBlock l) (int64_of b) = rs @ chunks n (int64_of b) \<and>
     (err = None) = (int64_of b \<le> n) \<and> ln_startBlock l \<le> n \<and> consecutive (ln_startBlock l) rs (n - 1) \<and>
     bk_done s' = bk_done s @ rs \<and> bk_closed s' = (err = None \<or> bk_closed s) \<and>
     bk_cache s' = (bk_cache s)(listener_key c l := if err = None then None else Some n) \<and>
     bk_sent s' = bk_sent s @ concat (map (range_logs node l) rs) @ p \<and>
     (if err = None then p = [] else prefix p (range_logs node l (n, chunk_end n (int64_of b))))"
proof -
  let ?s0 = "updateBackfillStatus c l (ln_startBlock l) s"
  obtain e s1 where lp: "backfill_loop node c l q (ln_startBlock l) (int64_of b) ?s0 = Goes (e, s1)"
    and k: "err \<noteq> None \<longleftrightarrow> e \<noteq> None"
      "s' = (if e = None then clearBackfillStatus c l s1\<lparr>bk_closed := True\<rparr> else s1)"
    using assms
    by (auto simp: listener_Start_def listener_backfill_def bind_step_Goes split: option.splits if_splits)
  have "bk_cache ?s0 (listener_key c l) = Some (ln_startBlock l)" by (simp add: updateBackfillStatus_def)
  from backfill_loop_spec [OF lp this] k show ?thesis
    by (auto simp: clearBackfillStatus_def updateBackfillStatus_def)
qed

text \<open>
  C7. A backfill whose context stays alive, whose node answers every query with well-formed logs
  and whose sends find room (the channel of 100 has a receiver that keeps up; \<open>task_step\<close> has
  the channel with its capacity) ends without an error: it has fetched the chunks from the start block on, at most 2001
  blocks each, every block up to the latest exactly once - except that the latest block itself
  is not fetched when its distance from the start is a multiple of 2001; it has sent the logs of
  these chunks in order, closed the channel and removed its status.
\<close>

theorem backfill_completes:
  assumes "node_answers node" and "\<not> bk_closed s" and "bk_done s = []"
  shows "\<exists>s'. listener_Start node (Inr b) c l None s = Goes (None, s')
    \<and> length (filter (in_range n) (bk_done s')) =
        (if ln_startBlock l \<le> n \<and> n \<le> int64_of b \<and> \<not> (n = int64_of b \<and> (n - ln_startBlock l) mod 2001 = 0)
         then 1 else 0)
    \<and> (\<forall>r \<in> set (bk_done s'). snd r - fst r < 2001)
    \<and> bk_sent s' = bk_sent s @ concat (map (range_logs node l) (bk_done s'))
    \<and> bk_closed s' \<and> bk_cache s' = (bk_cache s)(listener_key c l := None)"
proof -
  let ?s0 = "updateBackfillStatus c l (ln_startBlock l) s"
  obtain s1 where lp: "backfill_loop node c l None (ln_startBlock l) (int64_of b) ?s0 = Goes (None, s1)"
    using backfill_loop_goes [OF assms(1)] by blast
  have "bk_cache ?s0 (listener_key c l) = Some (ln_startBlock l)" by (simp add: updateBackfillStatus_def)
  from backfill_loop_spec [OF lp this] have "bk_closed s1 = bk_closed s" by (auto simp: updateBackfillStatus_def)
  then obtain s' where st: "listener_Start node (Inr b) c l None s = Goes (None, s')"
    using lp assms(2) by (simp add: listener_Start_def listener_backfill_def clearBackfillStatus_def)
  from listener_Start_spec [OF st] obtain k rs where R:
    "chunks (ln_startBlock l) (int64_of b) = rs @ chunks k (int64_of b)" "int64_of b \<le> k" "bk_done s' = rs"
    "bk_closed s'" "bk_cache s' = (bk_cache s)(listener_key c l := None)"
    "bk_sent s' = bk_sent s @ concat (map (range_logs node l) rs)"
    using assms(3) by auto
  have "chunks k (int64_of b) = []" using R(2) by (subst chunks.simps) simp
  then have d: "bk_done s' = chunks (ln_startBlock l) (int64_of b)" using R by simp
  then show ?thesis
    using st R chunked.covered_once [where a = "ln_startBlock l" and b = "int64_of b" and n = n] chunks_width
    by (auto simp: backfill_upto_def)
qed

text \<open>
  However a backfill of a start block behind the latest one ends, it changes the status of
  its own key only. Ended by an error or a cancelled context, it leaves the status at the next
  block to fetch, behind the latest block: every block before it has been fetched once and its
  logs sent, some of the next chunk's may have been sent too, and the channel is not closed. The
  status then stays, since nothing else removes it.
\<close>

theorem interrupted_backfill_leaves_status:
  assumes "listener_Start node (Inr b) c l q s = Goes (Some err, s')" and "bk_done s = []"
  shows "\<exists>n. bk_cache s' = (bk_cache s)(listener_key c l \<mapsto> n) \<and> ln_startBlock l \<le> n \<and> n < int64_of b
    \<and> length (filter (in_range k) (bk_done s')) = (if ln_startBlock l \<le> k \<and> k < n then 1 else 0)
    \<and> (\<exists>p. prefix p (range_logs node l (n, chunk_end n (int64_of b))) \<and>
        bk_sent s' = bk_sent s @ concat (map (range_logs node l) (bk_done s')) @ p)
    \<and> bk_closed s' = bk_closed s"
  using listener_Start_spec [OF assms(1)] assms(2) consecutive_once by fastforce

text \<open>Witnesses: a node without logs, one that fails after the first chunk.\<close>

definition sample_listener :: "int \<Rightarrow> listener" where
  "sample_listener start = NewEventListener 39 (replicate 20 1) (replicate 32 7) start"

definition sample_backfill :: "(unit, tables) backfill" where
  "sample_backfill = \<lparr>bk_st = sample_st, bk_cache = Map.empty, bk_sent = [], bk_closed = False, bk_done = []\<rparr>"

theorem backfill_completes_witness:
  "\<exists>s'. listener_Start (\<lambda>q. Inr []) (Inr 2011) sample_client (sample_listener 10) None sample_backfill = Goes (None, s') \<and>
    length (filter (in_range 2010) (bk_done s')) = 1 \<and> filter (in_range 2011) (bk_done s') = []"
proof -
  have b: "int64_of 2011 = 2011" by (simp add: int64_of_def)
  have "node_answers (\<lambda>q. Inr [])" by (simp add: node_answers_def)
  note T = backfill_completes [OF this, of sample_backfill 2011 sample_client "sample_listener 10"]
  obtain s' where s: "listener_Start (\<lambda>q. Inr []) (Inr 2011) sample_client (sample_listener 10) None sample_backfill =
      Goes (None, s')"
    using T [of 0] by (auto simp: sample_backfill_def)
  show ?thesis using T [of 2010] T [of 2011] s
    by (simp add: sample_backfill_def sample_listener_def NewEventListener_def b)
qed

theorem interrupted_backfill_leaves_status_witness:
  "\<exists>s' n. listener_Start (\<lambda>q. Inl ''down'') (Inr 50) sample_client (sample_listener 10) None sample_backfill =
      Goes (Some (''failed to backfill events: failed to filter logs: failed to filter logs: down''), s') \<and>
    bk_cache s' (listener_key sample_client (sample_listener 10)) = Some n \<and> n < 50"
proof -
  have b: "int64_of 50 = 50" by (simp add: int64_of_def)
  obtain s' where s: "listener_Start (\<lambda>q. Inl ''down'') (Inr 50) sample_client (sample_listener 10) None sample_backfill =
      Goes (Some (''failed to backfill events: failed to filter logs: failed to filter logs: down''), s')"
    by (simp add: listener_Start_def listener_backfill_def backfill_loop.simps FilterLogs_def b
        sample_listener_def NewEventListener_def Let_def)
  have "bk_done sample_backfill = []" by (simp add: sample_backfill_def)
  from interrupted_backfill_leaves_status [OF s this, of 0] obtain n where
    "bk_cache s' = (bk_cache sample_backfill)(listener_key sample_client (sample_listener 10) \<mapsto> n)" "n < 50"
    by (auto simp: b)
  then show ?thesis using s by auto
qed

end
