(* ===== verification/Worker.thy ===== *)
theory Worker
  imports Monitor Listener
begin

text \<open>
  \<open>internal/worker/worker.go\<close>: the backfill task. Its beginning looks the contract up and
  registers it with the monitor; then two goroutines run, the listener that fetches and sends the
  logs and the handler that receives and stores them. They share a channel of 100 logs, a channel
  that is closed at the end, the database and the task's context; \<open>task_step\<close> interleaves them.
  The task queue is a library: what it delivers is an argument, and it cancels the context of a
  task once its handler has returned, or before.
\<close>

section \<open>The beginning of the task\<close>

record backfill_payload =
  bp_ChainID :: int
  bp_ContractAddr :: string
  bp_EventSig :: string
  bp_StartBlock :: int

datatype begin_result = Fails string | Skips | Runs contract

text \<open>\<open>IsContractReadyForMonitoring\<close> of the worker.\<close>

definition worker_ready :: "mon option \<Rightarrow> string \<Rightarrow> bool" where
  "worker_ready mo c = (case mo of None \<Rightarrow> False | Some m \<Rightarrow> IsContractReadyForMonitoring c m)"

text \<open>The registration and the mark, when there is a monitor; an error of the registration is dropped.\<close>

definition begin_monitor :: "ctx \<Rightarrow> contract \<Rightarrow> mon \<Rightarrow> mon" where
  "begin_monitor ctx ct m =
     MarkContractBackfilling (ct_ID ct)
       (if \<not> IsContractReadyForMonitoring (ct_ID ct) m then snd (RegisterContract ctx ct m) else m)"

definition handleBackfill_begin ::
  "string + backfill_payload \<Rightarrow> (int \<rightharpoonup> ('x, 'db) client) \<Rightarrow> ctx \<Rightarrow> 'db \<Rightarrow> mon option \<Rightarrow> begin_result \<times> mon option" where
  "handleBackfill_begin unmarshalled clients ctx db mo =
     (case unmarshalled of
        Inl err \<Rightarrow> (Fails (''failed to unmarshal payload: '' @ err), mo)
      | Inr p \<Rightarrow>
          (case clients (bp_ChainID p) of
             None \<Rightarrow> (Fails (''no Ethereum client found for chain ID '' @ fmt_d (bp_ChainID p)), mo)
           | Some c \<Rightarrow>
               (case st_FindContract (cl_store c) (bp_ChainID p) (to_lower (bp_ContractAddr p)) (bp_EventSig p) db of
                  Inl err \<Rightarrow> (Fails ''failed to find contract'', mo)
                | Inr ct \<Rightarrow>
                    if (case mo of None \<Rightarrow> False | Some m \<Rightarrow> IsContractBackfilling (ct_ID ct) m) then (Skips, mo)
                    else (Runs ct, map_option (begin_monitor ctx ct) mo))))"

definition task_listener :: "geth \<Rightarrow> backfill_payload \<Rightarrow> listener" where
  "task_listener G p = NewEventListener (bp_ChainID p) (HexToAddress G (bp_ContractAddr p))
     (HexToHash G (bp_EventSig p)) (bp_StartBlock p)"

section \<open>One received log\<close>

text \<open>The log is looked up by block, transaction and index, whatever its contract.\<close>

type_synonym 'db find_any = "int \<times> string \<times> int \<Rightarrow> 'db \<Rightarrow> db_error + event_row"

definition worker_event ::
  "'db find_any \<Rightarrow> ('x, 'db) client \<Rightarrow> contract \<Rightarrow> string \<Rightarrow> eth_log \<Rightarrow> 'db \<Rightarrow> log_outcome \<times> 'db" where
  "worker_event find_any c ct eventSig l db =
     (let decodedData = (case DecodeEvent (cl_abi c) (GetDecoder c) eventSig (lg_Data l) (lg_Topics l) of
            Inl err \<Rightarrow> raw_json (g_Bytes2Hex (cl_geth c) (lg_Data l)) | Inr s \<Rightarrow> s);
          key = log_key_of c ct l
      in if is_ok (find_any (snd key) db) then (Skipped, db)
         else case st_CreateLog (cl_store c) key decodedData db of
             (Some err, db') \<Rightarrow> (LogError ''error storing event'', db')
           | (None, db') \<Rightarrow> (Stored, db'))"

section \<open>The two goroutines\<close>

text \<open>
  Where the listener is: before the latest block is known, before a chunk, with the rest of a
  chunk's logs to send, back from \<open>Start\<close>, after closing \<open>done\<close>, after the mark.
\<close>

datatype lphase = Starting | Fetching | Sending "eth_log list" int | Ending | Signalled | Marked

record ('x, 'db) task =
  tk_st :: "('x, 'db) client_st"
  tk_cache :: "string \<rightharpoonup> int"
  tk_mon :: "mon option"
  tk_phase :: lphase
  tk_cur :: int
  tk_end :: int
  tk_events :: "eth_log chan"
  tk_done :: bool
  tk_result :: "string option option"
  tk_cancelled :: bool

definition task_start :: "('x, 'db) client_st \<Rightarrow> (string \<rightharpoonup> int) \<Rightarrow> mon option \<Rightarrow> ('x, 'db) task" where
  "task_start st cache mo = \<lparr>tk_st = st, tk_cache = cache, tk_mon = mo, tk_phase = Starting, tk_cur = 0,
     tk_end = 0, tk_events = make_chan 100, tk_done = False, tk_result = None, tk_cancelled = False\<rparr>"

text \<open>The handler has returned: an error, or none.\<close>

abbreviation tk_returned :: "('x, 'db) task \<Rightarrow> bool" where
  "tk_returned t \<equiv> tk_result t \<noteq> None"

text \<open>What stays the same in a task: the node and its latest block, the client, the contract.\<close>

record ('x, 'db) task_env =
  te_node :: node
  te_latest :: "u64 res"
  te_client :: "('x, 'db) client"
  te_listener :: listener
  te_contract :: contract
  te_sig :: string
  te_find :: "'db find_any"

abbreviation te_key :: "('x, 'db) task_env \<Rightarrow> string" where
  "te_key E \<equiv> listener_key (te_client E) (te_listener E)"

definition mark_complete :: "('x, 'db) task_env \<Rightarrow> mon option \<Rightarrow> mon option" where
  "mark_complete E = map_option (MarkContractBackfillComplete (ct_ID (te_contract E)))"

definition task_filter ::
  "('x, 'db) task_env \<Rightarrow> ('x, 'db) task \<Rightarrow> (eth_log list res \<times> ('x, 'db) client_st) go_step" where
  "task_filter E t = FilterLogs (te_client E) (te_node E) (ln_contract (te_listener E)) (ln_eventSig (te_listener E))
     (tk_cur t) (chunk_end (tk_cur t) (tk_end t)) (ln_chainID (te_listener E)) (tk_st t)"

inductive task_step :: "('x, 'db) task_env \<Rightarrow> ('x, 'db) task \<Rightarrow> ('x, 'db) task \<Rightarrow> bool" for E where
  latest: "tk_phase t = Starting \<Longrightarrow> te_latest E = Inr b \<Longrightarrow>
    task_step E t (t\<lparr>tk_phase := Fetching, tk_cur := ln_startBlock (te_listener E), tk_end := int64_of b,
      tk_cache := (tk_cache t)(te_key E \<mapsto> ln_startBlock (te_listener E))\<rparr>)"
| no_latest: "tk_phase t = Starting \<Longrightarrow> te_latest E = Inl err \<Longrightarrow> task_step E t (t\<lparr>tk_phase := Ending\<rparr>)"
| fetch: "tk_phase t = Fetching \<Longrightarrow> tk_cur t < tk_end t \<Longrightarrow> \<not> tk_cancelled t \<Longrightarrow>
    task_filter E t = Goes (Inr logs, st) \<Longrightarrow>
    task_step E t (t\<lparr>tk_st := st, tk_phase := Sending logs (chunk_end (tk_cur t) (tk_end t))\<rparr>)"
| fetch_error: "tk_phase t = Fetching \<Longrightarrow> tk_cur t < tk_end t \<Longrightarrow> \<not> tk_cancelled t \<Longrightarrow>
    task_filter E t = Goes (Inl err, st) \<Longrightarrow> task_step E t (t\<lparr>tk_st := st, tk_phase := Ending\<rparr>)"
| fetch_cancelled: "tk_phase t = Fetching \<Longrightarrow> tk_cur t < tk_end t \<Longrightarrow> tk_cancelled t \<Longrightarrow>
    task_step E t (t\<lparr>tk_phase := Ending\<rparr>)"
| send: "tk_phase t = Sending (l # ls) to \<Longrightarrow> chan_send l (tk_events t) = Goes ch \<Longrightarrow>
    task_step E t (t\<lparr>tk_events := ch, tk_phase := Sending ls to\<rparr>)"
| send_cancelled: "tk_phase t = Sending (l # ls) to \<Longrightarrow> tk_cancelled t \<Longrightarrow> task_step E t (t\<lparr>tk_phase := Ending\<rparr>)"
| next_chunk: "tk_phase t = Sending [] to \<Longrightarrow>
    task_step E t (t\<lparr>tk_phase := Fetching, tk_cur := to + 1, tk_cache := (tk_cache t)(te_key E \<mapsto> to + 1)\<rparr>)"
| finish: "tk_phase t = Fetching \<Longrightarrow> \<not> tk_cur t < tk_end t \<Longrightarrow> chan_close (tk_events t) = Goes ch \<Longrightarrow>
    task_step E t (t\<lparr>tk_phase := Ending, tk_cache := (tk_cache t)(te_key E := None), tk_events := ch\<rparr>)"
| signal: "tk_phase t = Ending \<Longrightarrow> task_step E t (t\<lparr>tk_phase := Signalled, tk_done := True\<rparr>)"
| mark: "tk_phase t = Signalled \<Longrightarrow> task_step E t (t\<lparr>tk_phase := Marked, tk_mon := mark_complete E (tk_mon t)\<rparr>)"
| handler_cancelled: "\<not> tk_returned t \<Longrightarrow> tk_cancelled t \<Longrightarrow>
    task_step E t (t\<lparr>tk_result := Some None, tk_mon := mark_complete E (tk_mon t)\<rparr>)"
| handler_done: "\<not> tk_returned t \<Longrightarrow> tk_done t \<Longrightarrow> task_step E t (t\<lparr>tk_result := Some None\<rparr>)"
| handler_event: "\<not> tk_returned t \<Longrightarrow> chan_recv (tk_events t) = Goes (Some l, ch) \<Longrightarrow>
    worker_event (te_find E) (te_client E) (te_contract E) (te_sig E) l (cs_db (tk_st t)) = (out, db) \<Longrightarrow>
    task_step E t (t\<lparr>tk_events := ch, tk_st := (tk_st t)\<lparr>cs_db := db\<rparr>\<rparr>)"
| handler_closed: "\<not> tk_returned t \<Longrightarrow> chan_recv (tk_events t) = Goes (None, ch) \<Longrightarrow>
    task_step E t (t\<lparr>tk_result := Some None\<rparr>)"
| cancel: "\<not> tk_cancelled t \<Longrightarrow> task_step E t (t\<lparr>tk_cancelled := True\<rparr>)"

inductive task_run :: "('x, 'db) task_env \<Rightarrow> ('x, 'db) task \<Rightarrow> ('x, 'db) task \<Rightarrow> bool" for E where
  here: "task_run E t t"
| further: "task_run E t t' \<Longrightarrow> task_step E t' t'' \<Longrightarrow> task_run E t t''"

section \<open>Every run ends\<close>

fun phase_rank :: "lphase \<Rightarrow> nat" where
  "phase_rank Starting = 4"
| "phase_rank Fetching = 3"
| "phase_rank (Sending ls to) = 3"
| "phase_rank Ending = 2"
| "phase_rank Signalled = 1"
| "phase_rank Marked = 0"

fun pending_logs :: "lphase \<Rightarrow> nat" where
  "pending_logs (Sending ls to) = length ls"
| "pending_logs p = 0"

text \<open>The chunks to go: twice the distance, one more between chunks.\<close>

definition chunks_left :: "('x, 'db) task \<Rightarrow> nat" where
  "chunks_left t = (case tk_phase t of
      Fetching \<Rightarrow> 2 * nat (tk_end t + 1 - tk_cur t) + 1
    | Sending ls to \<Rightarrow> 2 * nat (tk_end t + 1 - tk_cur t)
    | _ \<Rightarrow> 0)"

text \<open>The chunk being sent ends behind its start, and at most at the end.\<close>

definition task_inv :: "('x, 'db) task \<Rightarrow> bool" where
  "task_inv t =
     ((\<forall>ls to. tk_phase t = Sending ls to \<longrightarrow> tk_cur t < to \<and> to \<le> tk_end t) \<and>
      ch_cap (tk_events t) = 100 \<and>
      (ch_closed (tk_events t) \<longrightarrow> tk_phase t \<in> {Ending, Signalled, Marked}) \<and>
      (tk_phase t \<in> {Signalled, Marked} \<longrightarrow> tk_done t))"

lemma task_inv_start: "task_inv (task_start st cache mo)"
  by (simp add: task_inv_def task_start_def make_chan_def)

lemma task_inv_step: "task_step E t t' \<Longrightarrow> task_inv t \<Longrightarrow> task_inv t'"
proof (induction rule: task_step.induct)
  case (fetch t logs st)
  then show ?case using chunk_end_bounds [OF fetch(2)] by (auto simp: task_inv_def)
qed (auto simp: task_inv_def dest: chan_send_cap chan_recv_cap chan_close_cap)

lemma task_inv_run: "task_run E t t' \<Longrightarrow> task_inv t \<Longrightarrow> task_inv t'"
  by (induction rule: task_run.induct) (auto intro: task_inv_step)

definition task_order :: "(('x, 'db) task \<times> ('x, 'db) task) set" where
  "task_order = measures [\<lambda>t. phase_rank (tk_phase t), chunks_left, \<lambda>t. pending_logs (tk_phase t),
     \<lambda>t. length (ch_buf (tk_events t)), \<lambda>t. if tk_returned t then 0 else 1, \<lambda>t. if tk_cancelled t then 0 else 1]"

lemma task_order_wf: "wf task_order"
  by (simp add: task_order_def)

lemma chunks_left_simps [simp]:
  "chunks_left (t\<lparr>tk_events := ch, tk_st := st\<rparr>) = chunks_left t"
  "chunks_left (t\<lparr>tk_result := x\<rparr>) = chunks_left t"
  "chunks_left (t\<lparr>tk_result := x, tk_mon := mo\<rparr>) = chunks_left t"
  "chunks_left (t\<lparr>tk_cancelled := b\<rparr>) = chunks_left t"
  by (simp_all add: chunks_left_def split: lphase.split)

lemma task_step_decreases: "task_step E t t' \<Longrightarrow> task_inv t \<Longrightarrow> (t', t) \<in> task_order"
proof (induction rule: task_step.induct)
  case (next_chunk t to)
  then have "tk_cur t < to" "to \<le> tk_end t" by (auto simp: task_inv_def)
  then show ?case using next_chunk by (simp add: task_order_def chunks_left_def)
next
  case (handler_event t l ch out db)
  then have "length (ch_buf ch) < length (ch_buf (tk_events t))"
    by (auto simp: chan_recv_def split: list.splits if_splits)
  then show ?case by (simp add: task_order_def)
next
  case (send t l ls to ch)
  then show ?case by (simp add: task_order_def chunks_left_def)
qed (simp_all add: task_order_def, simp_all add: chunks_left_def)

lemma no_descent:
  assumes "task_inv (f 0)" and "\<forall>n. task_step E (f n) (f (Suc n))"
  shows False
proof -
  have inv: "task_inv (f n)" for n
    by (induction n) (use assms task_inv_step in blast)+
  have "(f (Suc n), f n) \<in> task_order" for n using task_step_decreases inv assms(2) by blast
  then show False using task_order_wf by (metis wf_iff_no_infinite_down_chain)
qed

text \<open>A node whose logs all have a topic never makes \<open>FilterLogs\<close> panic.\<close>

definition node_safe :: "node \<Rightarrow> bool" where
  "node_safe node = (\<forall>q logs. node q = Inr logs \<longrightarrow> (\<forall>l \<in> set logs. lg_Topics l \<noteq> []))"

lemma FilterLogs_goes:
  assumes "node_safe node"
  shows "\<exists>r. FilterLogs c node addr sig from to chain st = Goes r"
proof (cases "node \<lparr>fq_FromBlock = from, fq_ToBlock = to, fq_Addresses = [addr], fq_Topics = [[sig]]\<rparr>")
  case (Inr logs)
  then have "\<forall>l \<in> set logs. lg_Topics l \<noteq> []" using assms by (auto simp: node_safe_def)
  from process_logs_goes [OF this, of c addr sig chain st Map.empty] Inr show ?thesis
    by (auto simp: FilterLogs_def bind_step_Goes)
qed (simp add: FilterLogs_def)

text \<open>With a log to send: the channel has room, or a handler that takes from it, or the context can end.\<close>

lemma sending_progress:
  assumes inv: "task_inv t" and ph: "tk_phase t = Sending (l # ls) to"
  shows "\<exists>t'. task_step E t t' \<and> (tk_cancelled t' = tk_cancelled t \<or> tk_returned t)"
proof -
  have op: "\<not> ch_closed (tk_events t)" "ch_cap (tk_events t) = 100"
    using inv ph by (auto simp: task_inv_def)
  show ?thesis
  proof (cases "length (ch_buf (tk_events t)) < 100")
    case True
    then have "chan_send l (tk_events t) = Goes (tk_events t\<lparr>ch_buf := ch_buf (tk_events t) @ [l]\<rparr>)"
      using op by (simp add: chan_send_def)
    then show ?thesis using task_step.send [OF ph] by fastforce
  next
    case False
    then obtain x xs where buf: "ch_buf (tk_events t) = x # xs" by (cases "ch_buf (tk_events t)") auto
    then have r: "chan_recv (tk_events t) = Goes (Some x, tk_events t\<lparr>ch_buf := xs\<rparr>)" by (simp add: chan_recv_def)
    obtain out db where w: "worker_event (te_find E) (te_client E) (te_contract E) (te_sig E) x (cs_db (tk_st t)) = (out, db)"
      by fastforce
    show ?thesis
    proof (cases "tk_returned t")
      case True
      then show ?thesis using ph task_step.send_cancelled [OF ph, of E] task_step.cancel [of t E] by blast
    next
      case f: False
      then show ?thesis using task_step.handler_event [OF f r w] by fastforce
    qed
  qed
qed

lemma task_progress:
  assumes inv: "task_inv t" and node: "node_safe (te_node E)"
  shows "tk_returned t \<and> tk_phase t = Marked \<or>
    (\<exists>t'. task_step E t t' \<and> (tk_cancelled t' = tk_cancelled t \<or> tk_returned t))"
proof (cases "tk_phase t")
  case Starting
  then show ?thesis
    by (cases "te_latest E") (fastforce dest: task_step.latest task_step.no_latest)+
next
  case Fetching
  show ?thesis
  proof (cases "tk_cur t < tk_end t")
    case True
    obtain res st where "task_filter E t = Goes (res, st)"
      using FilterLogs_goes [OF node] by (fastforce simp: task_filter_def)
    then show ?thesis using Fetching True
      by (cases res; cases "tk_cancelled t")
        (fastforce dest: task_step.fetch task_step.fetch_error task_step.fetch_cancelled)+
  next
    case False
    have "\<not> ch_closed (tk_events t)" using inv Fetching by (auto simp: task_inv_def)
    then have "chan_close (tk_events t) = Goes (tk_events t\<lparr>ch_closed := True\<rparr>)" by (simp add: chan_close_def)
    then show ?thesis using task_step.finish [OF Fetching False, of "tk_events t\<lparr>ch_closed := True\<rparr>" E] by fastforce
  qed
next
  case (Sending logs to)
  show ?thesis
  proof (cases logs)
    case Nil
    then show ?thesis using Sending task_step.next_chunk [of t to E] by fastforce
  next
    case (Cons l ls)
    then have ph: "tk_phase t = Sending (l # ls) to" using Sending by simp
    show ?thesis using sending_progress [OF inv ph] by blast
  qed
next
  case Ending
  then show ?thesis using task_step.signal [of t E] by fastforce
next
  case Signalled
  then show ?thesis using task_step.mark [of t E] by fastforce
next
  case Marked
  then have "tk_done t" using inv by (auto simp: task_inv_def)
  then show ?thesis using Marked task_step.handler_done [of t E] by fastforce
qed

text \<open>Once the listener has marked the contract, it stays marked as not being backfilled.\<close>

definition unmarked :: "('x, 'db) task_env \<Rightarrow> mon option \<Rightarrow> bool" where
  "unmarked E mo = (\<forall>m. mo = Some m \<longrightarrow> \<not> IsContractBackfilling (ct_ID (te_contract E)) m)"

lemma unmarked_complete: "unmarked E (mark_complete E mo)"
  by (auto simp: unmarked_def mark_complete_def MarkContractBackfillComplete_def IsContractBackfilling_def update_conv')

lemma marked_step: "task_step E t t' \<Longrightarrow> (tk_phase t = Marked \<longrightarrow> unmarked E (tk_mon t)) \<Longrightarrow>
    tk_phase t' = Marked \<longrightarrow> unmarked E (tk_mon t')"
  by (induction rule: task_step.induct) (simp_all add: unmarked_complete)

lemma marked_run:
  assumes "task_run E (task_start st cache mo) t"
  shows "tk_phase t = Marked \<longrightarrow> unmarked E (tk_mon t)"
  using assms
proof (induction "task_start st cache mo" t rule: task_run.induct)
  case here
  then show ?case by (simp add: task_start_def)
qed (rule marked_step)

text \<open>
  C13. A backfill task whose node gives each log a topic never hangs and always ends, whatever the
  interleaving of its listener and its handler - as long as each call it makes returns: the
  node's answers, and publishing, which waits while the producer's channel is full: from no state can it go on for ever, and in every state that is not the end some
  step is possible without anyone cancelling the task's context (before the handler has
  returned). At the end the handler has returned and the contract is not marked as being
  backfilled. This includes a listener that stops with an error, which does not close the
  channel of events, and a handler that returns first and leaves it full.
\<close>

theorem backfill_task_ends:
  assumes "task_run E (task_start st cache mo) t" and "node_safe (te_node E)"
  shows "\<not> (\<exists>f. f 0 = t \<and> (\<forall>n. task_step E (f n) (f (Suc n))))
    \<and> ((\<exists>t'. task_step E t t' \<and> (tk_cancelled t' = tk_cancelled t \<or> tk_returned t)) \<or>
       tk_returned t \<and> tk_phase t = Marked \<and>
       (\<forall>m. tk_mon t = Some m \<longrightarrow> \<not> IsContractBackfilling (ct_ID (te_contract E)) m))"
proof -
  have inv: "task_inv t" by (rule task_inv_run [OF assms(1) task_inv_start])
  then show ?thesis
    using no_descent task_progress [OF inv assms(2)] marked_run [OF assms(1)] unfolding unmarked_def by blast
qed

definition sample_task_env :: "(unit, tables) task_env" where
  "sample_task_env = \<lparr>te_node = quiet_node, te_latest = Inr 50, te_client = sample_client,
     te_listener = sample_listener 10, te_contract = sample_contract, te_sig = ct_EventSignature sample_contract,
     te_find = (\<lambda>k (cs, rows). first_row (\<lambda>r. snd (row_key r) = k) rows)\<rparr>"

theorem backfill_task_ends_witness:
  "\<not> (\<exists>f. f 0 = task_start sample_st Map.empty None \<and> (\<forall>n. task_step sample_task_env (f n) (f (Suc n))))"
proof -
  have "node_safe (te_node sample_task_env)"
    by (simp add: node_safe_def sample_task_env_def quiet_node_def)
  from backfill_task_ends [OF task_run.here this] show ?thesis by blast
qed

section \<open>The handler stores nothing twice\<close>

text \<open>
  A database that accepts every row and knows the time of every block, and a lookup that ignores
  the contract but finds what is stored.
\<close>

definition task_store_ok :: "('x, 'db) task_env \<Rightarrow> bool" where
  "task_store_ok E =
     (let c = te_client E; S = cl_store c in
      log_store_ok S \<and> (\<forall>k d db. fst (st_CreateLog S k d db) = None) \<and> (\<forall>n. is_ok (cl_block_time c n)) \<and>
      (\<forall>k db. is_ok (st_FindLog S k db) \<longrightarrow> is_ok (te_find E (snd k) db)))"

text \<open>Tables as lists, with the lookup by block, transaction and index, keep the promises.\<close>

lemma table_task_ok:
  assumes "cl_store (te_client E) = table_store" and "\<And>n. is_ok (cl_block_time (te_client E) n)"
    and "te_find E = (\<lambda>k (cs, rows). first_row (\<lambda>r. snd (row_key r) = k) rows)"
  shows "task_store_ok E"
proof -
  have "is_ok (te_find E (snd k) db)" if found: "is_ok (st_FindLog table_store k db)" for k db
  proof -
    obtain cs rows where db: "db = (cs, rows)" by fastforce
    have "find (\<lambda>r. row_key r = k) rows \<noteq> None"
      using found by (auto simp: db table_store_sel first_row_def split: option.splits)
    then have "find (\<lambda>r. snd (row_key r) = snd k) rows \<noteq> None" by (auto simp: find_None_iff)
    then show ?thesis by (auto simp: db assms(3) first_row_def split: option.splits)
  qed
  moreover have "fst (st_CreateLog table_store k d db) = None" for k d db by (cases db) (simp add: table_store_sel)
  ultimately show ?thesis unfolding task_store_ok_def Let_def assms(1) using table_store_ok assms(2) by blast
qed

lemma process_logs_all_good:
  assumes S: "log_store_ok (cl_store c)" and cr: "\<forall>k d db. fst (st_CreateLog (cl_store c) k d db) = None"
    and time: "\<forall>n. is_ok (cl_block_time c n)"
  shows "contract_found c addr sig chain ct (cs_db st) \<Longrightarrow> \<forall>l \<in> set logs. lg_Topics l \<noteq> [] \<Longrightarrow>
    process_logs c addr sig chain logs st cache = Goes (outs, st') \<Longrightarrow> set outs \<subseteq> {Skipped, Stored}"
proof (induction logs arbitrary: st cache outs)
  case (Cons l ls)
  obtain out st1 cache1 outs1 where step: "processEventLog c addr sig chain l st cache = Goes (out, st1, cache1)"
    and rest: "process_logs c addr sig chain ls st1 cache1 = Goes (outs1, st')" and o: "outs = out # outs1"
    using Cons.prems(3) by (auto simp: result_simps)
  have tm: "is_ok (block_timestamp c (lg_BlockNumber l) cache)"
    using time by (auto simp: block_timestamp_def is_ok_iff split: option.splits sum.splits) (metis sum.distinct(1))
  from step Cons.prems(1) have "(out = Skipped \<or> out = Stored) \<and> contract_found c addr sig chain ct (cs_db st1)"
  proof (cases rule: processEventLog_cases)
    case (publish ts db r)
    have "r = None" using cr publish(4) by (metis fst_conv)
    then show ?thesis using publish log_store_okD(4) [OF S publish(4)] Cons.prems(1)
      by (simp add: contract_found_def)
  qed (use tm Cons.prems(1) in auto)
  then show ?case using Cons.IH [OF _ _ rest] Cons.prems(2) o by auto
qed simp

lemma FilterLogs_stores:
  assumes "log_store_ok (cl_store c)" "\<forall>k d db. fst (st_CreateLog (cl_store c) k d db) = None"
    "\<forall>n. is_ok (cl_block_time c n)" "node_safe node" "contract_found c addr sig chain ct (cs_db st)"
    and f: "FilterLogs c node addr sig from to chain st = Goes (res, st')"
  shows "contract_found c addr sig chain ct (cs_db st') \<and>
    known_keys (cl_store c) (cs_db st) \<subseteq> known_keys (cl_store c) (cs_db st') \<and>
    (\<forall>logs. res = Inr logs \<longrightarrow> log_key_of c ct ` set logs \<subseteq> known_keys (cl_store c) (cs_db st'))"
proof (cases "node \<lparr>fq_FromBlock = from, fq_ToBlock = to, fq_Addresses = [addr], fq_Topics = [[sig]]\<rparr>")
  case (Inl err)
  then show ?thesis using f assms(5) by (auto simp: FilterLogs_def)
next
  case (Inr logs)
  then obtain outs where p: "process_logs c addr sig chain logs st Map.empty = Goes (outs, st')" and r: "res = Inr logs"
    using f by (auto simp: FilterLogs_def bind_step_Goes)
  have "\<forall>l \<in> set logs. lg_Topics l \<noteq> []" using assms(4) Inr by (auto simp: node_safe_def)
  note good = process_logs_all_good [OF assms(1-3,5) this p]
  have "cache_ok c Map.empty" by (simp add: cache_ok_def)
  from process_logs_good [OF assms(1,5) this p good] r show ?thesis by auto
qed

text \<open>The logs on their way to the handler.\<close>

fun sending :: "lphase \<Rightarrow> eth_log list" where
  "sending (Sending ls to) = ls"
| "sending p = []"

definition stored_inv :: "('x, 'db) task_env \<Rightarrow> ('x, 'db) task \<Rightarrow> bool" where
  "stored_inv E t =
     (let c = te_client E; ct = te_contract E; l = te_listener E in
      contract_found c (ln_contract l) (ln_eventSig l) (ln_chainID l) ct (cs_db (tk_st t)) \<and>
      log_key_of c ct ` set (ch_buf (tk_events t) @ sending (tk_phase t)) \<subseteq> known_keys (cl_store c) (cs_db (tk_st t)))"

lemma task_store_okD:
  assumes "task_store_ok E"
  shows "log_store_ok (cl_store (te_client E))"
    and "\<forall>k d db. fst (st_CreateLog (cl_store (te_client E)) k d db) = None"
    and "\<forall>n. is_ok (cl_block_time (te_client E) n)"
    and "is_ok (st_FindLog (cl_store (te_client E)) k db) \<Longrightarrow> is_ok (te_find E (snd k) db)"
  using assms unfolding task_store_ok_def Let_def by blast+

lemma worker_event_skips:
  assumes "task_store_ok E" and "log_key_of (te_client E) (te_contract E) l \<in> known_keys (cl_store (te_client E)) db"
  shows "worker_event (te_find E) (te_client E) (te_contract E) sig l db = (Skipped, db)"
proof -
  have "is_ok (te_find E (snd (log_key_of (te_client E) (te_contract E) l)) db)"
    using task_store_okD(4) [OF assms(1)] assms(2) by (simp add: known_keys_def)
  then show ?thesis by (simp add: worker_event_def Let_def)
qed

text \<open>What a fetch keeps and adds.\<close>

lemma task_filter_stores:
  assumes S: "task_store_ok E" and node: "node_safe (te_node E)" and i: "stored_inv E t"
    and f: "task_filter E t = Goes (res, st)"
  shows "contract_found (te_client E) (ln_contract (te_listener E)) (ln_eventSig (te_listener E))
      (ln_chainID (te_listener E)) (te_contract E) (cs_db st)"
    and "log_key_of (te_client E) (te_contract E) `
      set (ch_buf (tk_events t) @ (case res of Inl err \<Rightarrow> [] | Inr logs \<Rightarrow> logs)) \<subseteq> known_keys (cl_store (te_client E)) (cs_db st)"
proof -
  have cf: "contract_found (te_client E) (ln_contract (te_listener E)) (ln_eventSig (te_listener E))
      (ln_chainID (te_listener E)) (te_contract E) (cs_db (tk_st t))"
    and k: "log_key_of (te_client E) (te_contract E) ` set (ch_buf (tk_events t)) \<subseteq>
      known_keys (cl_store (te_client E)) (cs_db (tk_st t))"
    using i by (auto simp: stored_inv_def Let_def)
  note F = FilterLogs_stores [OF task_store_okD(1-3) [OF S] node cf f [unfolded task_filter_def]]
  show "contract_found (te_client E) (ln_contract (te_listener E)) (ln_eventSig (te_listener E))
      (ln_chainID (te_listener E)) (te_contract E) (cs_db st)" using F by blast
  show "log_key_of (te_client E) (te_contract E) `
      set (ch_buf (tk_events t) @ (case res of Inl err \<Rightarrow> [] | Inr logs \<Rightarrow> logs)) \<subseteq> known_keys (cl_store (te_client E)) (cs_db st)"
    using F k by (cases res) auto
qed

lemma stored_step:
  assumes S: "task_store_ok E" and node: "node_safe (te_node E)"
  shows "task_step E t t' \<Longrightarrow> stored_inv E t \<Longrightarrow> stored_inv E t'"
proof (induction rule: task_step.induct)
  case (fetch t logs st)
  show ?case using task_filter_stores [OF S node fetch(5,4)] by (simp add: stored_inv_def Let_def)
next
  case (fetch_error t err st)
  show ?case using task_filter_stores [OF S node fetch_error(5,4)] by (simp add: stored_inv_def Let_def)
next
  case (handler_event t l ch out db)
  have b: "ch_buf (tk_events t) = l # ch_buf ch" using handler_event(2)
    by (auto simp: chan_recv_def split: list.splits if_splits)
  then have "log_key_of (te_client E) (te_contract E) l \<in> known_keys (cl_store (te_client E)) (cs_db (tk_st t))"
    using handler_event(4) by (auto simp: stored_inv_def Let_def)
  then have "db = cs_db (tk_st t)" using worker_event_skips [OF S] handler_event(3) by fastforce
  then show ?case using handler_event(4) b by (auto simp: stored_inv_def Let_def)
next
  case (send t l ls to ch)
  then have "ch_buf ch = ch_buf (tk_events t) @ [l]" by (auto simp: chan_send_def split: if_splits)
  then show ?case using send(1,3) by (simp add: stored_inv_def Let_def image_subset_iff ball_Un)
next
  case (finish t ch)
  then show ?case by (auto simp: stored_inv_def chan_close_def Let_def split: if_splits)
qed (auto simp: stored_inv_def Let_def)

lemma stored_run:
  assumes "task_store_ok E" "node_safe (te_node E)" "task_run E t0 t" "stored_inv E t0"
  shows "stored_inv E t"
  using assms(3,4) by (induction rule: task_run.induct) (use stored_step [OF assms(1,2)] in blast)+



section \<open>The task's context\<close>

text \<open>A check leaves a contract that has an entry alone.\<close>

lemma check_keeps:
  assumes "map_of (mn_monitors m) k = Some i"
  shows "map_of (mn_monitors (checkForNewContracts ctx r m)) k = Some i \<and>
    filter (\<lambda>g. ct_ID (fst g) = k) (mn_spawned (checkForNewContracts ctx r m)) =
      filter (\<lambda>g. ct_ID (fst g) = k) (mn_spawned m) \<and>
    cx_cancelled (mn_contexts (checkForNewContracts ctx r m)) = cx_cancelled (mn_contexts m)"
proof -
  have one: "map_of (mn_monitors (check_contract ctx c m)) k = Some i \<and>
      filter (\<lambda>g. ct_ID (fst g) = k) (mn_spawned (check_contract ctx c m)) =
        filter (\<lambda>g. ct_ID (fst g) = k) (mn_spawned m) \<and>
      cx_cancelled (mn_contexts (check_contract ctx c m)) = cx_cancelled (mn_contexts m)"
    if "map_of (mn_monitors m) k = Some i" for c m
    using that
    by (auto simp: check_contract_def RegisterContract_def watch_contract_def with_cancel_def Let_def update_conv')
  have "map_of (mn_monitors (fold (check_contract ctx) cs m)) k = Some i \<and>
      filter (\<lambda>g. ct_ID (fst g) = k) (mn_spawned (fold (check_contract ctx) cs m)) =
        filter (\<lambda>g. ct_ID (fst g) = k) (mn_spawned m) \<and>
      cx_cancelled (mn_contexts (fold (check_contract ctx) cs m)) = cx_cancelled (mn_contexts m)" for cs
    using assms
  proof (induction cs arbitrary: m)
    case (Cons c cs)
    show ?case using Cons.IH [of "check_contract ctx c m"] one [OF Cons.prems, of c] by simp
  qed simp
  then show ?thesis using assms by (simp add: checkForNewContracts_def split: sum.splits)
qed


definition sample_payload :: backfill_payload where
  "sample_payload = \<lparr>bp_ChainID = 39, bp_ContractAddr = hex_EncodeToHex (replicate 20 1),
     bp_EventSig = hex_EncodeToHex (replicate 32 7), bp_StartBlock = 10\<rparr>"


end
