(* ===== verification/Interleaving.thy ===== *)
theory Interleaving
  imports Go_Prelude
begin

text \<open>
  Goroutines that share a state: each is a local state with a deterministic turn (one critical
  section, or one action outside of any), and a run lets them take their turns in any order, with
  changes by others in between. The locale \<open>rely_guarantee\<close> is the contract under which what holds
  of each goroutine alone holds of all of them together: a turn changes no more than it
  guarantees, and what a goroutine relies on is stable under what the goroutines apart from it
  guarantee.
\<close>

inductive interleaved ::
  "('l \<Rightarrow> 's \<Rightarrow> 'l \<times> 's) \<Rightarrow> ('s \<Rightarrow> 's \<Rightarrow> bool) \<Rightarrow> 'l list \<Rightarrow> 's \<Rightarrow> 'l list \<Rightarrow> 's \<Rightarrow> bool" for turn env ls s where
  start: "interleaved turn env ls s ls s"
| turn: "interleaved turn env ls s ks t \<Longrightarrow> i < length ks \<Longrightarrow> turn (ks ! i) t = (k', t') \<Longrightarrow>
    interleaved turn env ls s (ks[i := k']) t'"
| outside: "interleaved turn env ls s ks t \<Longrightarrow> env t t' \<Longrightarrow> interleaved turn env ls s ks t'"

text \<open>The run that a schedule of indices describes.\<close>

fun play :: "('l \<Rightarrow> 's \<Rightarrow> 'l \<times> 's) \<Rightarrow> nat list \<Rightarrow> 'l list \<Rightarrow> 's \<Rightarrow> 'l list \<times> 's" where
  "play turn [] ls s = (ls, s)"
| "play turn (i # is) ls s = (let (l', s') = turn (ls ! i) s in play turn is (ls[i := l']) s')"

lemma play_append: "play turn (is @ js) ls s = (let (ks, t) = play turn is ls s in play turn js ks t)"
  by (induction "is" arbitrary: ls s) (simp_all add: Let_def split: prod.split)

lemma play_interleaved:
  assumes "play turn is ls s = (ks, t)" and "\<forall>i \<in> set is. i < length ls"
  shows "interleaved turn env ls s ks t"
  using assms
proof (induction "is" arbitrary: ks t rule: rev_induct)
  case Nil
  then show ?case by (auto intro: interleaved.start)
next
  case (snoc i js)
  obtain ms u where p: "play turn js ls s = (ms, u)" by fastforce
  have len: "length ms = length ls"
    using p by (induction js arbitrary: ls s) (auto simp: Let_def split: prod.splits)
  obtain k' t' where q: "turn (ms ! i) u = (k', t')" by fastforce
  have "interleaved turn env ls s ms u" using snoc.IH [OF p] snoc.prems(2) by simp
  then have "interleaved turn env ls s (ms[i := k']) t'"
    using q snoc.prems(2) len by (intro interleaved.turn) auto
  then show ?case using snoc.prems(1) p q by (simp add: play_append)
qed

text \<open>Some turns of one goroutine in a row.\<close>

lemma play_replicate:
  assumes "i < length ls"
  shows "play turn (replicate n i) ls s =
    (let (l', s') = ((\<lambda>(l, s). turn l s) ^^ n) (ls ! i, s) in (ls[i := l'], s'))"
  using assms
proof (induction n arbitrary: ls s)
  case (Suc n)
  obtain l' s' where "turn (ls ! i) s = (l', s')" by fastforce
  then show ?case using Suc by (simp add: funpow_Suc_right del: funpow.simps split: prod.split)
qed simp

locale rely_guarantee =
  fixes turn :: "'l \<Rightarrow> 's \<Rightarrow> 'l \<times> 's" and env :: "'s \<Rightarrow> 's \<Rightarrow> bool"
    and inv :: "'s \<Rightarrow> bool" and ok :: "'l \<Rightarrow> 's \<Rightarrow> bool"
    and guar :: "'l \<Rightarrow> 's \<Rightarrow> 's \<Rightarrow> bool" and apart :: "'l \<Rightarrow> 'l \<Rightarrow> bool"
  assumes turn_ok: "inv s \<Longrightarrow> ok l s \<Longrightarrow> turn l s = (l', s') \<Longrightarrow> inv s' \<and> ok l' s' \<and> guar l s s'"
    and stable: "apart l k \<Longrightarrow> ok k s \<Longrightarrow> guar l s s' \<Longrightarrow> ok k s'"
    and apart_turn: "apart l k \<Longrightarrow> turn l s = (l', s') \<Longrightarrow> apart l' k"
    and apart_sym: "apart l k \<Longrightarrow> apart k l"
    and outside_ok: "env s s' \<Longrightarrow> inv s \<Longrightarrow> inv s' \<and> (ok l s \<longrightarrow> ok l s')"
begin

definition all_ok :: "'l list \<Rightarrow> 's \<Rightarrow> bool" where
  "all_ok ls s = (inv s \<and> (\<forall>i < length ls. ok (ls ! i) s) \<and>
     (\<forall>i < length ls. \<forall>j < length ls. i \<noteq> j \<longrightarrow> apart (ls ! i) (ls ! j)))"

lemma all_ok_turn:
  assumes "all_ok ls s" and "i < length ls" and "turn (ls ! i) s = (l', s')"
  shows "all_ok (ls[i := l']) s'"
proof -
  have t: "inv s'" "ok l' s'" "guar (ls ! i) s s'"
    using turn_ok assms by (simp_all add: all_ok_def) blast+
  have "ok (ls[i := l'] ! j) s'" if "j < length ls" for j
    using that t(2,3) stable [of "ls ! i" "ls ! j" s s'] assms(1,2) by (cases "j = i") (simp_all add: all_ok_def)
  moreover have "apart (ls[i := l'] ! a) (ls[i := l'] ! b)" if "a < length ls" "b < length ls" "a \<noteq> b" for a b
    using that assms apart_turn [OF _ assms(3)] apart_sym by (auto simp: all_ok_def nth_list_update)
  ultimately show ?thesis using t(1) by (simp add: all_ok_def)
qed

lemma all_ok_interleaved: "interleaved turn env ls s ks t \<Longrightarrow> all_ok ls s \<Longrightarrow> all_ok ks t"
proof (induction rule: interleaved.induct)
  case (turn ks t i k' t')
  then show ?case using all_ok_turn by blast
next
  case (outside ks t t')
  then show ?case using outside_ok [OF outside.hyps(2)] by (auto simp: all_ok_def)
qed

end

end
