(* ===== verification/Registration_Races.thy ===== *)
theory Registration_Races
  imports Worker Interleaving
begin

text \<open>
  The registration of a contract with the monitor, one critical section at a time. \<open>Start\<close>, the
  check for new contracts and the backfill task (\<open>internal/monitor/monitor.go\<close>,
  \<open>internal/worker/worker.go\<close>) each go through the same sections: a guard, the write of the ready
  mark, a new context, the write of its cancel function, the goroutine. The mutex is released in
  between, so that other goroutines take their turns there. A registrar is a goroutine with the
  contracts it still has to register; \<open>registrar_turn\<close> is what it does while it holds the mutex
  once (or between two of its sections).
\<close>

section \<open>Registrars\<close>

datatype registering = Starter | Checker | Task

datatype reg_pc = AtBackfilling | AtGuard | AtRunning | AtReady | AtContext | AtStore ctx nat | AtSpawn ctx | AtMark

record registrar =
  rg_kind :: registering
  rg_ctx :: ctx
  rg_todo :: "contract list"
  rg_pc :: reg_pc

text \<open>Where each begins with a contract: \<open>Start\<close> has no guard, the task first asks for the backfill.\<close>

fun first_pc :: "registering \<Rightarrow> reg_pc" where
  "first_pc Starter = AtReady"
| "first_pc Checker = AtGuard"
| "first_pc Task = AtBackfilling"

definition new_registrar :: "registering \<Rightarrow> ctx \<Rightarrow> contract list \<Rightarrow> registrar" where
  "new_registrar kind ctx cs = \<lparr>rg_kind = kind, rg_ctx = ctx, rg_todo = cs, rg_pc = first_pc kind\<rparr>"

definition registrar_next :: "registrar \<Rightarrow> registrar" where
  "registrar_next r = r\<lparr>rg_todo := tl (rg_todo r), rg_pc := first_pc (rg_kind r)\<rparr>"

text \<open>After the registration, or without it, the task marks the contract; the others go on.\<close>

definition registrar_end :: "registrar \<Rightarrow> registrar" where
  "registrar_end r = (if rg_kind r = Task then r\<lparr>rg_pc := AtMark\<rparr> else registrar_next r)"

text \<open>The guard: an entry in the monitors map for the check, the ready mark for the task.\<close>

fun registration_skipped :: "registering \<Rightarrow> string \<Rightarrow> mon \<Rightarrow> bool" where
  "registration_skipped Starter i m = False"
| "registration_skipped Checker i m = (map_of (mn_monitors m) i \<noteq> None)"
| "registration_skipped Task i m = IsContractReadyForMonitoring i m"

definition registrar_section :: "contract \<Rightarrow> registrar \<Rightarrow> mon \<Rightarrow> registrar \<times> mon" where
  "registrar_section c r m =
     (case rg_pc r of
        AtBackfilling \<Rightarrow>
          if IsContractBackfilling (ct_ID c) m then (registrar_next r, m) else (r\<lparr>rg_pc := AtGuard\<rparr>, m)
      | AtGuard \<Rightarrow>
          if registration_skipped (rg_kind r) (ct_ID c) m then (registrar_end r, m) else (r\<lparr>rg_pc := AtRunning\<rparr>, m)
      | AtRunning \<Rightarrow> if IsRunning m then (r\<lparr>rg_pc := AtReady\<rparr>, m) else (registrar_end r, m)
      | AtReady \<Rightarrow> (r\<lparr>rg_pc := AtContext\<rparr>, m\<lparr>mn_ready := AList.update (ct_ID c) True (mn_ready m)\<rparr>)
      | AtContext \<Rightarrow>
          let ((cctx, i), cs) = with_cancel (rg_ctx r) (mn_contexts m)
          in (r\<lparr>rg_pc := AtStore cctx i\<rparr>, m\<lparr>mn_contexts := cs\<rparr>)
      | AtStore cctx i \<Rightarrow>
          (r\<lparr>rg_pc := AtSpawn cctx\<rparr>, m\<lparr>mn_monitors := AList.update (ct_ID c) i (mn_monitors m)\<rparr>)
      | AtSpawn cctx \<Rightarrow> (registrar_end r, m\<lparr>mn_spawned := mn_spawned m @ [(c, cctx)]\<rparr>)
      | AtMark \<Rightarrow> (registrar_next r, MarkContractBackfilling (ct_ID c) m))"

definition registrar_turn :: "registrar \<Rightarrow> mon \<Rightarrow> registrar \<times> mon" where
  "registrar_turn r m = (case rg_todo r of [] \<Rightarrow> (r, m) | c # cs \<Rightarrow> registrar_section c r m)"

lemma registrar_turn_Nil [simp]: "rg_todo r = [] \<Longrightarrow> registrar_turn r m = (r, m)"
  by (simp add: registrar_turn_def)

lemma registrar_turn_Cons [simp]: "rg_todo r = c # cs \<Longrightarrow> registrar_turn r m = registrar_section c r m"
  by (simp add: registrar_turn_def)

section \<open>Without others in between\<close>

text \<open>What a registrar does for one contract when nobody else takes a turn.\<close>

fun registers :: "registering \<Rightarrow> ctx \<Rightarrow> contract \<Rightarrow> mon \<Rightarrow> mon" where
  "registers Starter ctx c m = watch_contract ctx c m"
| "registers Checker ctx c m = check_contract ctx c m"
| "registers Task ctx c m = (if IsContractBackfilling (ct_ID c) m then m else begin_monitor ctx c m)"

abbreviation registrar_turns :: "nat \<Rightarrow> registrar \<times> mon \<Rightarrow> registrar \<times> mon" where
  "registrar_turns n \<equiv> (\<lambda>(r, m). registrar_turn r m) ^^ n"

lemma turns_Suc: "registrar_turns (Suc n) (r, m) = registrar_turns n (registrar_turn r m)"
  by (simp add: funpow_Suc_right del: funpow.simps)

lemma turns_numeral: "registrar_turns (numeral k) (r, m) = registrar_turns (pred_numeral k) (registrar_turn r m)"
  by (simp only: numeral_eq_Suc turns_Suc)

lemmas turns_simps = turns_Suc turns_numeral registrar_section_def registrar_end_def registrar_next_def

text \<open>From the write of the ready mark on, four turns watch the contract.\<close>

lemma four_turns:
  assumes "rg_todo r = c # cs" and "rg_pc r = AtReady"
  shows "registrar_turns 4 (r, m) = (registrar_end r, watch_contract (rg_ctx r) c m)"
  using assms by (cases r) (simp add: turns_simps watch_contract_def with_cancel_def Let_def)

lemma turns_add: "registrar_turns (k + n) (r, m) = registrar_turns k (registrar_turns n (r, m))"
  by (simp add: funpow_add)

lemma ready_turns:
  assumes "rg_todo r = c # cs" and "registrar_turns n (r, m) = (r\<lparr>rg_pc := AtReady\<rparr>, m)"
  shows "registrar_turns (4 + n) (r, m) = (registrar_end r, watch_contract (rg_ctx r) c m)"
  using four_turns [of "r\<lparr>rg_pc := AtReady\<rparr>" c cs m] assms
  by (simp only: turns_add) (simp add: registrar_end_def registrar_next_def)

lemma checker_alone:
  assumes "rg_todo r = c # cs" and "rg_pc r = AtGuard" and "rg_kind r = Checker"
  shows "\<exists>n. registrar_turns n (r, m) = (registrar_next r, check_contract (rg_ctx r) c m)"
proof -
  consider "map_of (mn_monitors m) (ct_ID c) \<noteq> None" | "map_of (mn_monitors m) (ct_ID c) = None" "\<not> mn_running m"
    | "map_of (mn_monitors m) (ct_ID c) = None" "mn_running m" by blast
  then show ?thesis
  proof cases
    case 1
    then have "registrar_turns 1 (r, m) = (registrar_next r, m)"
      using assms by (simp add: registrar_section_def registrar_end_def)
    then show ?thesis using 1 by (auto simp: check_contract_def intro: exI [of _ 1])
  next
    case 2
    then have "registrar_turns 2 (r, m) = (registrar_next r, m)"
      using assms by (simp add: turns_simps IsRunning_def)
    then show ?thesis using 2
      by (auto simp: check_contract_def RegisterContract_def IsRunning_def intro: exI [of _ 2])
  next
    case 3
    then have "registrar_turns 2 (r, m) = (r\<lparr>rg_pc := AtReady\<rparr>, m)"
      using assms by (simp add: turns_simps IsRunning_def)
    from ready_turns [OF assms(1) this] show ?thesis using 3 assms(3)
      by (auto simp: check_contract_def RegisterContract_def IsRunning_def registrar_end_def)
  qed
qed

lemma task_alone:
  assumes "rg_todo r = c # cs" and "rg_pc r = AtBackfilling" and "rg_kind r = Task"
  shows "\<exists>n. registrar_turns n (r, m) = (registrar_next r, registers Task (rg_ctx r) c m)"
proof -
  consider "IsContractBackfilling (ct_ID c) m"
    | "\<not> IsContractBackfilling (ct_ID c) m" "IsContractReadyForMonitoring (ct_ID c) m \<or> \<not> mn_running m"
    | "\<not> IsContractBackfilling (ct_ID c) m" "\<not> IsContractReadyForMonitoring (ct_ID c) m" "mn_running m" by blast
  then show ?thesis
  proof cases
    case 1
    then have "registrar_turns 1 (r, m) = (registrar_next r, m)" using assms by (simp add: registrar_section_def)
    then show ?thesis using 1 by (auto intro: exI [of _ 1])
  next
    case 2
    then have "registrar_turns (if IsContractReadyForMonitoring (ct_ID c) m then 3 else 4) (r, m) =
        (registrar_next r, MarkContractBackfilling (ct_ID c) m)"
      using assms by (auto simp: turns_simps IsRunning_def)
    then show ?thesis using 2 by (auto simp: begin_monitor_def RegisterContract_def IsRunning_def)
  next
    case 3
    then have "registrar_turns 3 (r, m) = (r\<lparr>rg_pc := AtReady\<rparr>, m)"
      using assms by (simp add: turns_simps IsRunning_def)
    from ready_turns [OF assms(1) this]
    have "registrar_turns (1 + (4 + 3)) (r, m) =
        (registrar_next r, MarkContractBackfilling (ct_ID c) (watch_contract (rg_ctx r) c m))"
      using assms by (simp only: turns_add) (simp add: turns_simps)
    then show ?thesis using 3
      by (auto simp: begin_monitor_def RegisterContract_def IsRunning_def intro: exI [of _ 8])
  qed
qed

lemma registers_alone:
  assumes "rg_todo r = c # cs" and "rg_pc r = first_pc (rg_kind r)"
  shows "\<exists>n. registrar_turns n (r, m) = (registrar_next r, registers (rg_kind r) (rg_ctx r) c m)"
proof (cases "rg_kind r")
  case Starter
  then have "registrar_turns 0 (r, m) = (r\<lparr>rg_pc := AtReady\<rparr>, m)" using assms by (cases r) simp
  from ready_turns [OF assms(1) this] show ?thesis using Starter by (auto simp: registrar_end_def)
next
  case Checker
  then show ?thesis using checker_alone [OF assms(1), of m] assms(2) by simp
next
  case Task
  then show ?thesis using task_alone [OF assms(1), of m] assms(2) by simp
qed

lemma all_registered:
  "\<exists>n. registrar_turns n (new_registrar kind ctx cs, m) = (new_registrar kind ctx [], fold (registers kind ctx) cs m)"
proof (induction cs arbitrary: m)
  case Nil
  show ?case by (auto intro: exI [of _ 0])
next
  case (Cons c cs)
  let ?r = "new_registrar kind ctx (c # cs)" and ?m = "registers kind ctx c m"
  obtain n where n: "registrar_turns n (?r, m) = (registrar_next ?r, ?m)"
    using registers_alone [of ?r c cs m] by (auto simp: new_registrar_def)
  have nxt: "registrar_next ?r = new_registrar kind ctx cs" by (simp add: registrar_next_def new_registrar_def)
  obtain k where "registrar_turns k (new_registrar kind ctx cs, ?m) =
      (new_registrar kind ctx [], fold (registers kind ctx) cs ?m)" using Cons.IH by blast
  then have "registrar_turns (k + n) (?r, m) = (new_registrar kind ctx [], fold (registers kind ctx) (c # cs) m)"
    using n by (simp only: turns_add nxt) simp
  then show ?case by blast
qed

text \<open>
  When nobody else takes a turn, the sections one by one are the operations as a whole: a
  registrar of the check for new contracts ends with what \<open>checkForNewContracts\<close> gives, one of
  \<open>Start\<close> with the monitor that \<open>Start\<close> returns, and one of a backfill task with the monitor
  that the beginning of its handler leaves.
\<close>

theorem registration_in_sections:
  "(mn_running m \<longrightarrow> (\<exists>n. registrar_turns n (new_registrar Checker ctx cs, m) =
      (new_registrar Checker ctx [], checkForNewContracts ctx (Inr cs) m)))
    \<and> (\<not> mn_running m \<longrightarrow> (\<exists>n. registrar_turns n (new_registrar Starter ctx cs, init_blocks heads (m\<lparr>mn_running := True\<rparr>)) =
      (new_registrar Starter ctx [], snd (monitor_Start ctx (Inr cs) heads m))))
    \<and> (handleBackfill_begin pl clients ctx db (Some m) = (Runs ct, Some m') \<longrightarrow>
      (\<exists>n. registrar_turns n (new_registrar Task ctx [ct], m) = (new_registrar Task ctx [], m')))"
proof -
  have k: "registers Checker ctx = check_contract ctx" "registers Starter ctx = watch_contract ctx"
    by (simp_all add: fun_eq_iff)
  have "registers Task ctx ct m = m'" if "handleBackfill_begin pl clients ctx db (Some m) = (Runs ct, Some m')"
    using that by (auto simp: handleBackfill_begin_def split: sum.splits option.splits if_splits)
  then show ?thesis
    using all_registered [of Checker ctx cs m] all_registered [of Task ctx "[ct]" m]
      all_registered [of Starter ctx cs "init_blocks heads (m\<lparr>mn_running := True\<rparr>)"]
    by (auto simp: k checkForNewContracts_def monitor_Start_def)
qed

theorem registration_in_sections_witness:
  "\<exists>n m'. registrar_turns n (new_registrar Checker [] [sample_contract], NewMonitor\<lparr>mn_running := True\<rparr>) =
    (new_registrar Checker [] [], m') \<and> map fst (mn_spawned m') = [sample_contract]"
proof -
  have "mn_running (NewMonitor\<lparr>mn_running := True\<rparr>)" by simp
  then obtain n where "registrar_turns n (new_registrar Checker [] [sample_contract], NewMonitor\<lparr>mn_running := True\<rparr>) =
      (new_registrar Checker [] [], checkForNewContracts [] (Inr [sample_contract]) (NewMonitor\<lparr>mn_running := True\<rparr>))"
    using registration_in_sections [where m = "NewMonitor\<lparr>mn_running := True\<rparr>" and ctx = "[]"
        and cs = "[sample_contract]", THEN conjunct1] by blast
  moreover have "map fst (mn_spawned (checkForNewContracts [] (Inr [sample_contract]) (NewMonitor\<lparr>mn_running := True\<rparr>))) =
      [sample_contract]"
    by (simp add: checkForNewContracts_def check_contract_def RegisterContract_def IsRunning_def NewMonitor_def
        watch_contract_sel)
  ultimately show ?thesis by (intro exI conjI)
qed

section \<open>Two registrars of one contract\<close>

text \<open>The turns up to the write of the ready mark, and from there to the end.\<close>

fun guard_turns :: "registering \<Rightarrow> nat" where
  "guard_turns Starter = 0" | "guard_turns Checker = 2" | "guard_turns Task = 3"

fun write_turns :: "registering \<Rightarrow> nat" where
  "write_turns Task = 5" | "write_turns k = 4"

fun written :: "registering \<Rightarrow> ctx \<Rightarrow> contract \<Rightarrow> mon \<Rightarrow> mon" where
  "written Task p c m = MarkContractBackfilling (ct_ID c) (watch_contract p c m)"
| "written k p c m = watch_contract p c m"

definition unregistered :: "contract \<Rightarrow> mon \<Rightarrow> bool" where
  "unregistered c m = (mn_running m \<and> map_of (mn_monitors m) (ct_ID c) = None \<and>
     \<not> IsContractReadyForMonitoring (ct_ID c) m \<and> \<not> IsContractBackfilling (ct_ID c) m)"

abbreviation writing_registrar :: "registering \<Rightarrow> ctx \<Rightarrow> contract \<Rightarrow> registrar" where
  "writing_registrar k p c \<equiv> \<lparr>rg_kind = k, rg_ctx = p, rg_todo = [c], rg_pc = AtReady\<rparr>"

lemma passes_guard:
  assumes "unregistered c m"
  shows "registrar_turns (guard_turns k) (new_registrar k p [c], m) = (writing_registrar k p c, m)"
  using assms by (cases k) (simp_all add: turns_simps new_registrar_def unregistered_def IsRunning_def)

lemma writes_all:
  "registrar_turns (write_turns k) (writing_registrar k p c, m) = (new_registrar k p [], written k p c m)"
proof -
  have "registrar_turns 4 (writing_registrar k p c, m) = (registrar_end (writing_registrar k p c), watch_contract p c m)"
    using four_turns [of "writing_registrar k p c" c "[]" m] by simp
  moreover have "write_turns Task = 1 + 4" by simp
  ultimately show ?thesis
    by (cases k) (simp_all only: write_turns.simps turns_add, simp_all add: turns_simps new_registrar_def)
qed

lemma written_sel:
  "mn_monitors (written k p c m) = AList.update (ct_ID c) (cx_next (mn_contexts m)) (mn_monitors m)"
  "mn_spawned (written k p c m) = mn_spawned m @ [(c, cx_next (mn_contexts m) # p)]"
  "mn_running (written k p c m) = mn_running m"
  "cx_next (mn_contexts (written k p c m)) = cx_next (mn_contexts m) + 1"
  "ctx_done (mn_contexts (written k p c m)) x = ctx_done (mn_contexts m) x"
  by (cases k; simp add: MarkContractBackfilling_def watch_contract_sel)+

lemma update_new: "map_of xs k = None \<Longrightarrow> AList.update k v xs = xs @ [(k, v)]"
  by (induction xs) (auto split: if_splits)

lemma update_last: "map_of xs k = None \<Longrightarrow> AList.update k v (xs @ [(k, u)]) = xs @ [(k, v)]"
  by (induction xs) (auto split: if_splits)

lemma Stop_done:
  "ctx_done (mn_contexts (monitor_Stop m)) x =
    (ctx_done (mn_contexts m) x \<or> mn_running m \<and> (\<exists>i \<in> set x. i \<in> snd ` set (mn_monitors m)))"
  by (auto simp: monitor_Stop_def ctx_done_def fold_cancel)

text \<open>
  C22. The guard of a registration and its writes are in different critical sections. When two
  registrars (a task, the check for new contracts, \<open>Start\<close>, in any combination) both pass the
  guard for a contract before one of them writes, two goroutines poll the contract, although one
  entry is counted; the first one's cancel function is lost, so that \<open>Stop\<close> ends the second and
  the first goes on.
\<close>

theorem registrations_race:
  assumes "mon_reach m" and "unregistered c m"
    and "\<not> ctx_done (mn_contexts m) p" and "\<not> ctx_done (mn_contexts m) q"
    and "\<forall>i \<in> set p \<union> set q \<union> set (cx_cancelled (mn_contexts m)). i < cx_next (mn_contexts m)"
    and "set p \<inter> snd ` set (mn_monitors m) = {}"
  shows "\<exists>sched m' g g'. play registrar_turn sched [new_registrar j p [c], new_registrar k q [c]] m =
        ([new_registrar j p [], new_registrar k q []], m')
    \<and> mn_spawned m' = mn_spawned m @ [(c, g), (c, g')]
    \<and> \<not> ctx_done (mn_contexts m') g \<and> \<not> ctx_done (mn_contexts m') g'
    \<and> GetActiveContractCount m' = GetActiveContractCount m + 1
    \<and> ctx_done (mn_contexts (monitor_Stop m')) g' \<and> \<not> ctx_done (mn_contexts (monitor_Stop m')) g"
proof -
  let ?n = "cx_next (mn_contexts m)"
  let ?sched = "replicate (guard_turns j) 0 @ replicate (guard_turns k) 1 @
    replicate (write_turns j) 0 @ replicate (write_turns k) 1"
  define m' where "m' = written k q c (written j p c m)"
  have play: "play registrar_turn ?sched [new_registrar j p [c], new_registrar k q [c]] m =
      ([new_registrar j p [], new_registrar k q []], m')"
    by (simp add: play_append play_replicate passes_guard [OF assms(2)] writes_all m'_def)
  have inv: "mon_inv m" and none: "map_of (mn_monitors m) (ct_ID c) = None" and run: "mn_running m"
    using assms(2) mon_reach_inv [OF assms(1)] by (auto simp: unregistered_def)
  have old: "i < ?n" if "(x, i) \<in> set (mn_monitors m)" for x i
    using that inv by (force simp: mon_inv_def)
  have mons: "mn_monitors m' = mn_monitors m @ [(ct_ID c, Suc ?n)]"
    using none by (simp add: m'_def written_sel update_new update_last)
  have dn: "ctx_done (mn_contexts m') x = ctx_done (mn_contexts m) x" for x by (simp add: m'_def written_sel)
  have "\<forall>i \<in> set (cx_cancelled (mn_contexts m)). i < ?n" using assms(5) by blast
  then have fresh: "\<not> ctx_done (mn_contexts m) (i # x)" if "?n \<le> i" "\<not> ctx_done (mn_contexts m) x" for i x
    using that by (auto simp: ctx_done_def dest: bspec)
  have stop: "ctx_done (mn_contexts (monitor_Stop m')) x =
      (ctx_done (mn_contexts m) x \<or> Suc ?n \<in> set x \<or> (\<exists>i \<in> set x. i \<in> snd ` set (mn_monitors m)))" for x
  proof -
    have "mn_running m'" using run by (simp add: m'_def written_sel)
    then show ?thesis by (auto simp: Stop_done dn mons)
  qed
  have "?n \<notin> snd ` set (mn_monitors m)" using old less_irrefl by fastforce
  then have p: "\<forall>i \<in> set (?n # p). i \<notin> snd ` set (mn_monitors m)" using assms(6) by auto
  have "\<forall>i \<in> set p. i < ?n" using assms(5) by blast
  then have "Suc ?n \<notin> set (?n # p)" by fastforce
  note p = p this
  have "\<not> ctx_done (mn_contexts (monitor_Stop m')) (?n # p)"
    unfolding stop using p fresh [OF order_refl assms(3)] by blast
  moreover have "ctx_done (mn_contexts (monitor_Stop m')) (Suc ?n # q)" by (simp add: stop)
  moreover have "mn_spawned m' = mn_spawned m @ [(c, ?n # p), (c, Suc ?n # q)]" by (simp add: m'_def written_sel)
  ultimately show ?thesis
    using play fresh [of ?n p] fresh [of "Suc ?n" q] assms(3,4)
    by (intro exI [of _ ?sched] exI [of _ m'] exI [of _ "?n # p"] exI [of _ "Suc ?n # q"])
      (simp add: dn GetActiveContractCount_def mons)
qed

definition idle_monitor :: mon where
  "idle_monitor = snd (monitor_Start [] (Inr []) [] NewMonitor)"

lemma idle_monitor:
  "mon_reach idle_monitor" "unregistered c idle_monitor"
  "mn_contexts idle_monitor = new_contexts" "mn_monitors idle_monitor = []" "mn_spawned idle_monitor = []"
  unfolding idle_monitor_def
  by (intro mon_reach.start mon_reach.new, simp)
    (simp_all add: unregistered_def monitor_Start_def init_blocks_def NewMonitor_def IsContractReadyForMonitoring_def
      IsContractBackfilling_def)

theorem registrations_race_witness:
  "\<exists>sched m' g g'. play registrar_turn sched
      [new_registrar Checker [] [sample_contract], new_registrar Task [] [sample_contract]] idle_monitor =
    ([new_registrar Checker [] [], new_registrar Task [] []], m') \<and>
    mn_spawned m' = [(sample_contract, g), (sample_contract, g')] \<and>
    \<not> ctx_done (mn_contexts (monitor_Stop m')) g"
  using registrations_race [where m = idle_monitor and p = "[]" and q = "[]" and j = Checker
      and k = Task and c = sample_contract, OF idle_monitor(1,2)]
  by (auto simp: idle_monitor(3-5) ctx_done_def new_contexts_def)

section \<open>Stopping in the middle\<close>

lemma set_update: "distinct (map fst xs) \<Longrightarrow> set (AList.update k v xs) = insert (k, v) {x \<in> set xs. fst x \<noteq> k}"
  by (induction xs) (auto simp: image_iff)

text \<open>Once every contract with an old cancel function has been started again, all are new.\<close>

lemma restarted_new:
  "distinct (map fst (mn_monitors m)) \<Longrightarrow> N \<le> cx_next (mn_contexts m) \<Longrightarrow>
   \<forall>(k, i) \<in> set (mn_monitors m). k \<in> ct_ID ` set cs \<or> N \<le> i \<Longrightarrow>
   \<forall>(k, i) \<in> set (mn_monitors (fold (watch_contract ctx) cs m)). N \<le> i"
proof (induction cs arbitrary: m)
  case (Cons c cs)
  let ?m = "watch_contract ctx c m"
  have "\<forall>(k, i) \<in> set (mn_monitors ?m). k \<in> ct_ID ` set cs \<or> N \<le> i"
    using Cons.prems by (auto simp: watch_contract_sel set_update)
  moreover have "distinct (map fst (mn_monitors ?m))" "N \<le> cx_next (mn_contexts ?m)"
    using Cons.prems by (simp_all add: watch_contract_sel distinct_update)
  ultimately show ?case using Cons.IH [of ?m] by simp
qed simp

lemma started_sel:
  assumes "\<not> mn_running m"
  shows "ctx_done (mn_contexts (snd (monitor_Start ctx (Inr cs) heads m))) x = ctx_done (mn_contexts m) x"
    and "mn_monitors (snd (monitor_Start ctx (Inr cs) heads m)) =
      mn_monitors (fold (watch_contract ctx) cs (init_blocks heads (m\<lparr>mn_running := True\<rparr>)))"
proof -
  have "ctx_done (mn_contexts (fold (watch_contract ctx) cs m)) x = ctx_done (mn_contexts m) x" for m
    by (induction cs arbitrary: m) (simp_all add: watch_contract_sel)
  then show "ctx_done (mn_contexts (snd (monitor_Start ctx (Inr cs) heads m))) x = ctx_done (mn_contexts m) x"
    using assms by (simp add: monitor_Start_def Let_def init_blocks_sel)
qed (use assms in \<open>simp add: monitor_Start_def Let_def\<close>)

text \<open>
  C23. Whoever registers a contract - \<open>Start\<close>, the check for new contracts or a backfill task - can
  be overtaken by a \<open>Stop\<close> after its tests and before its writes: it then starts its goroutine on
  the stopped monitor and leaves an entry there that counts as active. A further \<open>Stop\<close> does
  nothing, and when the monitor is started again with the contract in its table, the entry is
  overwritten, so that the next \<open>Stop\<close> does not end the goroutine either. (The context it
  registers under is alive and is not one of those that \<open>Stop\<close> cancels.)
\<close>

theorem stop_misses_registration:
  assumes "unregistered c m" and "\<not> ctx_done (mn_contexts m) p"
    and "\<forall>i \<in> set p \<union> set (cx_cancelled (mn_contexts m)) \<union> snd ` set (mn_monitors m). i < cx_next (mn_contexts m)"
    and "set p \<inter> snd ` set (mn_monitors m) = {}"
  shows "\<exists>i r n m' g. registrar_turns i (new_registrar k p [c], m) = (r, m)
    \<and> registrar_turns n (r, monitor_Stop m) = (new_registrar k p [], m')
    \<and> \<not> mn_running m' \<and> GetActiveContractCount m' = 1 \<and> (c, g) \<in> set (mn_spawned m')
    \<and> \<not> ctx_done (mn_contexts m') g \<and> monitor_Stop m' = m'
    \<and> (c \<in> set cs \<longrightarrow>
        \<not> ctx_done (mn_contexts (monitor_Stop (snd (monitor_Start ctx (Inr cs) heads m')))) g)"
proof -
  let ?n = "cx_next (mn_contexts m)" and ?s = "monitor_Stop m"
  define m' where "m' = written k p c ?s"
  have s: "mn_monitors ?s = []" "\<not> mn_running ?s" "cx_next (mn_contexts ?s) = ?n"
    using assms(1) by (simp_all add: unregistered_def monitor_Stop_def fold_cancel)
  have turns: "registrar_turns (write_turns k) (writing_registrar k p c, ?s) = (new_registrar k p [], m')"
    by (simp add: writes_all m'_def)
  have m': "\<not> mn_running m'" "mn_monitors m' = [(ct_ID c, ?n)]" "(c, ?n # p) \<in> set (mn_spawned m')"
    "cx_next (mn_contexts m') = Suc ?n"
    by (simp_all add: m'_def written_sel s)
  have "?n \<notin> set (cx_cancelled (mn_contexts m))" "?n \<notin> snd ` set (mn_monitors m)"
    using assms(3) by (meson UnI1 UnI2 less_irrefl)+
  then have g: "\<not> ctx_done (mn_contexts m') (?n # p)"
    using assms(2,4) by (auto simp: m'_def written_sel Stop_done) (auto simp: ctx_done_def)
  have "\<not> ctx_done (mn_contexts (monitor_Stop (snd (monitor_Start ctx (Inr cs) heads m')))) (?n # p)"
    if c: "c \<in> set cs"
  proof -
    let ?m = "init_blocks heads (m'\<lparr>mn_running := True\<rparr>)"
    have "\<forall>(k, i) \<in> set (mn_monitors (fold (watch_contract ctx) cs ?m)). Suc ?n \<le> i"
      using c by (intro restarted_new) (auto simp: init_blocks_sel m')
    moreover have "\<forall>i \<in> set (?n # p). i < Suc ?n" using assms(3) by (auto simp: less_Suc_eq)
    ultimately show ?thesis
      using g by (fastforce simp: Stop_done started_sel [OF m'(1)])
  qed
  moreover have "monitor_Stop m' = m'" using m'(1) by (simp add: monitor_Stop_def)
  ultimately have W: "\<exists>g. \<not> mn_running m' \<and> GetActiveContractCount m' = 1 \<and> (c, g) \<in> set (mn_spawned m')
    \<and> \<not> ctx_done (mn_contexts m') g \<and> monitor_Stop m' = m'
    \<and> (c \<in> set cs \<longrightarrow> \<not> ctx_done (mn_contexts (monitor_Stop (snd (monitor_Start ctx (Inr cs) heads m')))) g)"
    using m' g by (fastforce simp: GetActiveContractCount_def)
  from W passes_guard [OF assms(1)] turns show ?thesis by blast
qed

theorem stop_misses_registration_witness:
  "\<exists>i r n m' g. registrar_turns i (new_registrar Checker [] [sample_contract], idle_monitor) = (r, idle_monitor) \<and>
    registrar_turns n (r, monitor_Stop idle_monitor) = (new_registrar Checker [] [], m') \<and> (sample_contract, g) \<in> set (mn_spawned m') \<and>
    \<not> ctx_done (mn_contexts (monitor_Stop (snd (monitor_Start [] (Inr [sample_contract]) [] m')))) g"
proof -
  from stop_misses_registration [where m = idle_monitor and p = "[]" and k = Checker and c = sample_contract
      and cs = "[sample_contract]" and ctx = "[]" and heads = "[]", OF idle_monitor(2)]
  obtain i r n m' g where "registrar_turns i (new_registrar Checker [] [sample_contract], idle_monitor) = (r, idle_monitor)"
    "registrar_turns n (r, monitor_Stop idle_monitor) = (new_registrar Checker [] [], m')"
    "(sample_contract, g) \<in> set (mn_spawned m')"
    "\<not> ctx_done (mn_contexts (monitor_Stop (snd (monitor_Start [] (Inr [sample_contract]) [] m')))) g"
    by (auto simp: idle_monitor(3-5) ctx_done_def new_contexts_def)
  then show ?thesis by blast
qed

section \<open>Registrars of different contracts\<close>

text \<open>The goroutines of a contract that have not been told to end.\<close>

definition live :: "string \<Rightarrow> mon \<Rightarrow> (contract \<times> ctx) list" where
  "live k m = filter (\<lambda>g. ct_ID (fst g) = k \<and> \<not> ctx_done (mn_contexts m) (snd g)) (mn_spawned m)"

definition shared_inv :: "mon \<Rightarrow> bool" where
  "shared_inv m = (mn_running m \<and> (\<forall>k. length (live k m) \<le> 1) \<and>
     (\<forall>g \<in> set (mn_spawned m). tracked m g \<and> snd g \<noteq> []) \<and>
     (\<forall>k. map_of (mn_monitors m) k \<noteq> None \<longrightarrow> IsContractReadyForMonitoring k m))"

text \<open>What a registrar knows of its contract at each section.\<close>

fun section_ok :: "reg_pc \<Rightarrow> registering \<Rightarrow> string \<Rightarrow> mon \<Rightarrow> bool" where
  "section_ok AtBackfilling kind k m = (kind = Task)"
| "section_ok AtGuard kind k m = (kind \<noteq> Starter)"
| "section_ok AtRunning kind k m = (map_of (mn_monitors m) k = None)"
| "section_ok AtReady kind k m = (map_of (mn_monitors m) k = None)"
| "section_ok AtContext kind k m = (map_of (mn_monitors m) k = None \<and> IsContractReadyForMonitoring k m)"
| "section_ok (AtStore cctx i) kind k m =
     (map_of (mn_monitors m) k = None \<and> IsContractReadyForMonitoring k m \<and> (\<exists>p. cctx = i # p))"
| "section_ok (AtSpawn cctx) kind k m =
     (live k m = [] \<and> map_of (mn_monitors m) k = Some (hd cctx) \<and> cctx \<noteq> [])"
| "section_ok AtMark kind k m = (kind = Task)"

definition registrar_ok :: "registrar \<Rightarrow> mon \<Rightarrow> bool" where
  "registrar_ok r m = (case rg_todo r of [] \<Rightarrow> True | c # cs \<Rightarrow>
     distinct (map ct_ID (rg_todo r)) \<and> section_ok (rg_pc r) (rg_kind r) (ct_ID c) m \<and>
     (rg_kind r = Starter \<longrightarrow> (\<forall>x \<in> set cs. map_of (mn_monitors m) (ct_ID x) = None)))"

text \<open>A turn leaves the contracts alone that it is not about.\<close>

definition same_for :: "string \<Rightarrow> mon \<Rightarrow> mon \<Rightarrow> bool" where
  "same_for k m m' = (map_of (mn_monitors m') k = map_of (mn_monitors m) k \<and>
     IsContractReadyForMonitoring k m' = IsContractReadyForMonitoring k m \<and> live k m' = live k m)"

definition registrar_guar :: "registrar \<Rightarrow> mon \<Rightarrow> mon \<Rightarrow> bool" where
  "registrar_guar r m m' = (\<forall>k. k \<notin> ct_ID ` set (rg_todo r) \<longrightarrow> same_for k m m')"

definition apart_registrars :: "registrar \<Rightarrow> registrar \<Rightarrow> bool" where
  "apart_registrars r s = (ct_ID ` set (rg_todo r) \<inter> ct_ID ` set (rg_todo s) = {})"

text \<open>What the rest of the program does to the monitor meanwhile.\<close>

inductive other_step :: "mon \<Rightarrow> mon \<Rightarrow> bool" where
  cancelled: "other_step m (m\<lparr>mn_contexts := cancel_ctx i (mn_contexts m)\<rparr>)"
| new_context: "other_step m (m\<lparr>mn_contexts := snd (with_cancel p (mn_contexts m))\<rparr>)"
| completed: "other_step m (MarkContractBackfillComplete k m)"
| polled: "other_step m (m\<lparr>mn_lastBlocks := bs\<rparr>)"

lemma section_ok_same: "same_for k m m' \<Longrightarrow> section_ok pc kind k m' = section_ok pc kind k m"
  by (cases pc) (simp_all add: same_for_def)

lemma live_watch [simp]:
  "live k (m\<lparr>mn_ready := x\<rparr>) = live k m" "live k (m\<lparr>mn_monitors := y\<rparr>) = live k m"
  "live k (m\<lparr>mn_lastBlocks := z\<rparr>) = live k m"
  "live k (MarkContractBackfilling i m) = live k m" "live k (MarkContractBackfillComplete i m) = live k m"
  by (simp_all add: live_def MarkContractBackfilling_def MarkContractBackfillComplete_def)

lemma live_context [simp]: "live k (m\<lparr>mn_contexts := snd (with_cancel p (mn_contexts m))\<rparr>) = live k m"
  by (simp add: live_def with_cancel_def Let_def ctx_done_def)

lemma ready_update [simp]:
  "IsContractReadyForMonitoring k (m\<lparr>mn_ready := AList.update i True (mn_ready m)\<rparr>) =
     (k = i \<or> IsContractReadyForMonitoring k m)"
  "IsContractReadyForMonitoring k (m\<lparr>mn_monitors := y\<rparr>) = IsContractReadyForMonitoring k m"
  "IsContractReadyForMonitoring k (m\<lparr>mn_contexts := z\<rparr>) = IsContractReadyForMonitoring k m"
  "IsContractReadyForMonitoring k (m\<lparr>mn_spawned := w\<rparr>) = IsContractReadyForMonitoring k m"
  "IsContractReadyForMonitoring k (m\<lparr>mn_lastBlocks := v\<rparr>) = IsContractReadyForMonitoring k m"
  "IsContractReadyForMonitoring k (MarkContractBackfilling i m) = (k = i \<or> IsContractReadyForMonitoring k m)"
  "IsContractReadyForMonitoring k (MarkContractBackfillComplete i m) = (k = i \<or> IsContractReadyForMonitoring k m)"
  by (auto simp: IsContractReadyForMonitoring_def MarkContractBackfilling_def MarkContractBackfillComplete_def update_conv')

lemma tracked_simps [simp]:
  "tracked (m\<lparr>mn_ready := x\<rparr>) = tracked m" "tracked (m\<lparr>mn_spawned := y\<rparr>) = tracked m"
  "tracked (m\<lparr>mn_lastBlocks := z\<rparr>) = tracked m" "tracked (MarkContractBackfilling i m) = tracked m"
  "tracked (MarkContractBackfillComplete i m) = tracked m"
  "tracked (m\<lparr>mn_contexts := snd (with_cancel p (mn_contexts m))\<rparr>) = tracked m"
  by (rule ext; simp add: tracked_def MarkContractBackfilling_def MarkContractBackfillComplete_def with_cancel_def
      Let_def ctx_done_def)+

lemma mark_sel [simp]:
  "mn_running (MarkContractBackfilling i m) = mn_running m" "mn_monitors (MarkContractBackfilling i m) = mn_monitors m"
  "mn_spawned (MarkContractBackfilling i m) = mn_spawned m"
  "mn_running (MarkContractBackfillComplete i m) = mn_running m"
  "mn_monitors (MarkContractBackfillComplete i m) = mn_monitors m"
  "mn_spawned (MarkContractBackfillComplete i m) = mn_spawned m"
  by (simp_all add: MarkContractBackfilling_def MarkContractBackfillComplete_def)

lemma next_ok:
  assumes "rg_todo r = c # cs" and "distinct (map ct_ID (c # cs))"
    and "rg_kind r = Starter \<Longrightarrow> \<forall>x \<in> set cs. map_of (mn_monitors m) (ct_ID x) = None"
  shows "registrar_ok (registrar_next r) m" and "registrar_ok (registrar_end r) m"
proof -
  show n: "registrar_ok (registrar_next r) m"
    using assms by (cases "rg_kind r"; cases cs) (auto simp: registrar_ok_def registrar_next_def)
  show "registrar_ok (registrar_end r) m" using n assms by (auto simp: registrar_end_def registrar_ok_def)
qed

text \<open>Storing the cancel function: no goroutine of the contract is live, since it had no entry.\<close>

lemma no_entry_no_live: "shared_inv m \<Longrightarrow> map_of (mn_monitors m) k = None \<Longrightarrow> live k m = []"
  by (auto simp: shared_inv_def live_def tracked_def filter_empty_conv)

lemma store_keeps:
  assumes "shared_inv m" and "map_of (mn_monitors m) k = None" and "IsContractReadyForMonitoring k m"
  shows "shared_inv (m\<lparr>mn_monitors := AList.update k i (mn_monitors m)\<rparr>)"
proof -
  have "tracked (m\<lparr>mn_monitors := AList.update k i (mn_monitors m)\<rparr>) g" if "g \<in> set (mn_spawned m)" for g
    using assms(1,2) that by (auto simp: shared_inv_def tracked_def update_conv')
  then show ?thesis using assms by (auto simp: shared_inv_def update_conv')
qed

lemma spawn_keeps:
  assumes "shared_inv m" and "live (ct_ID c) m = []" and "map_of (mn_monitors m) (ct_ID c) = Some (hd cctx)" "cctx \<noteq> []"
  shows "shared_inv (m\<lparr>mn_spawned := mn_spawned m @ [(c, cctx)]\<rparr>)"
    and "k \<noteq> ct_ID c \<Longrightarrow> live k (m\<lparr>mn_spawned := mn_spawned m @ [(c, cctx)]\<rparr>) = live k m"
proof -
  have l: "live k (m\<lparr>mn_spawned := mn_spawned m @ [(c, cctx)]\<rparr>) =
      live k m @ (if ct_ID c = k \<and> \<not> ctx_done (mn_contexts m) cctx then [(c, cctx)] else [])" for k
    by (simp add: live_def)
  have "length (live k (m\<lparr>mn_spawned := mn_spawned m @ [(c, cctx)]\<rparr>)) \<le> 1" for k
    using assms(1,2) by (cases "ct_ID c = k") (auto simp: l shared_inv_def)
  then show "shared_inv (m\<lparr>mn_spawned := mn_spawned m @ [(c, cctx)]\<rparr>)"
    using assms by (auto simp: shared_inv_def tracked_def)
  show "k \<noteq> ct_ID c \<Longrightarrow> live k (m\<lparr>mn_spawned := mn_spawned m @ [(c, cctx)]\<rparr>) = live k m" by (simp add: l)
qed

lemma section_keeps:
  assumes todo: "rg_todo r = c # cs" and inv: "shared_inv m" and ok: "registrar_ok r m"
    and sec: "registrar_section c r m = (r', m')"
  shows "shared_inv m' \<and> registrar_ok r' m' \<and> registrar_guar r m m'"
proof -
  have d: "distinct (map ct_ID (c # cs))" and s: "section_ok (rg_pc r) (rg_kind r) (ct_ID c) m"
    and st: "rg_kind r = Starter \<Longrightarrow> \<forall>x \<in> set cs. map_of (mn_monitors m) (ct_ID x) = None"
    using ok todo by (auto simp: registrar_ok_def)
  note N = next_ok [OF todo d]
  have tails: "rg_kind r = Starter \<Longrightarrow> \<forall>x \<in> set cs. map_of (AList.update (ct_ID c) i (mn_monitors m)) (ct_ID x) = None" for i
    using st d by (auto simp: update_conv' image_iff)
  show ?thesis
  proof (cases "rg_pc r")
    case AtBackfilling
    then show ?thesis using sec inv s d st todo N(1) [OF st]
      by (auto simp: registrar_section_def registrar_guar_def same_for_def registrar_ok_def split: if_splits)
  next
    case AtGuard
    have "map_of (mn_monitors m) (ct_ID c) = None" if "\<not> registration_skipped (rg_kind r) (ct_ID c) m"
      using that s inv AtGuard by (cases "rg_kind r") (auto simp: shared_inv_def)
    then show ?thesis using AtGuard sec inv s d st todo N(2) [OF st]
      by (auto simp: registrar_section_def registrar_guar_def same_for_def registrar_ok_def split: if_splits)
  next
    case AtRunning
    then show ?thesis using sec inv s d st todo N(2) [OF st]
      by (auto simp: registrar_section_def registrar_guar_def same_for_def registrar_ok_def split: if_splits)
  next
    case AtReady
    then show ?thesis using sec inv s d st todo
      by (auto simp: registrar_section_def registrar_guar_def same_for_def registrar_ok_def shared_inv_def)
  next
    case AtContext
    then have "r' = r\<lparr>rg_pc := AtStore (cx_next (mn_contexts m) # rg_ctx r) (cx_next (mn_contexts m))\<rparr>"
      "m' = m\<lparr>mn_contexts := snd (with_cancel (rg_ctx r) (mn_contexts m))\<rparr>"
      using sec by (auto simp: registrar_section_def with_cancel_def Let_def)
    then show ?thesis using AtContext inv s d st todo
      by (auto simp: registrar_guar_def same_for_def registrar_ok_def shared_inv_def)
  next
    case (AtStore cctx i)
    have "live (ct_ID c) m = []" using no_entry_no_live [OF inv] s AtStore by simp
    then show ?thesis using AtStore sec s d tails todo store_keeps [OF inv, of "ct_ID c" i]
      by (auto simp: registrar_section_def registrar_guar_def same_for_def registrar_ok_def update_conv')
  next
    case (AtSpawn cctx)
    then have "r' = registrar_end r" "m' = m\<lparr>mn_spawned := mn_spawned m @ [(c, cctx)]\<rparr>"
      using sec by (auto simp: registrar_section_def)
    then show ?thesis using AtSpawn s st todo spawn_keeps [OF inv, of c cctx] N(2) [where m = m']
      by (auto simp: registrar_guar_def same_for_def)
  next
    case AtMark
    then have "r' = registrar_next r" "m' = MarkContractBackfilling (ct_ID c) m"
      using sec by (auto simp: registrar_section_def)
    then show ?thesis using inv st todo N(1) [where m = m']
      by (auto simp: registrar_guar_def same_for_def shared_inv_def)
  qed
qed

lemma registrar_ok_same:
  assumes "\<forall>x \<in> set (rg_todo r). same_for (ct_ID x) m m'"
  shows "registrar_ok r m' = registrar_ok r m"
proof (cases "rg_todo r")
  case (Cons c cs)
  have "section_ok (rg_pc r) (rg_kind r) (ct_ID c) m' = section_ok (rg_pc r) (rg_kind r) (ct_ID c) m"
    using assms Cons by (intro section_ok_same) simp
  moreover have "\<forall>x \<in> set cs. map_of (mn_monitors m') (ct_ID x) = map_of (mn_monitors m) (ct_ID x)"
    using assms Cons by (simp add: same_for_def)
  ultimately show ?thesis using Cons by (simp add: registrar_ok_def)
qed (simp add: registrar_ok_def)

lemma registrar_turn_todo: "set (rg_todo (fst (registrar_turn r m))) \<subseteq> set (rg_todo r)"
proof (cases "rg_todo r")
  case (Cons c cs)
  have "set (rg_todo (registrar_next r)) \<subseteq> set (rg_todo r)" "set (rg_todo (registrar_end r)) \<subseteq> set (rg_todo r)"
    using Cons by (auto simp: registrar_end_def registrar_next_def)
  then show ?thesis
    unfolding registrar_turn_Cons [OF Cons]
    by (cases "rg_pc r") (simp_all add: registrar_section_def with_cancel_def Let_def)
qed simp

lemma other_step_keeps:
  assumes "other_step m m'" and "shared_inv m"
  shows "shared_inv m' \<and> (registrar_ok r m \<longrightarrow> registrar_ok r m')"
  using assms(1)
proof cases
  case (cancelled i)
  have t: "tracked m' g" if "tracked m g" for g using that by (auto simp: cancelled tracked_def ctx_done_cancel)
  have l: "length (live k m') \<le> length (live k m) \<and> (live k m = [] \<longrightarrow> live k m' = [])" for k
  proof -
    have "live k m' = filter (\<lambda>g. i \<notin> set (snd g)) (live k m)"
      by (simp add: live_def cancelled ctx_done_cancel conj_ac)
    then show ?thesis by simp
  qed
  have "length (live k m') \<le> 1" for k using assms(2) l [of k] by (auto simp: shared_inv_def intro: le_trans)
  then have "shared_inv m'" using assms(2) t by (simp add: shared_inv_def cancelled)
  moreover have "section_ok (rg_pc r) (rg_kind r) k m \<longrightarrow> section_ok (rg_pc r) (rg_kind r) k m'" for k
    using l [of k] by (cases "rg_pc r") (auto simp: cancelled)
  ultimately show ?thesis by (auto simp: registrar_ok_def cancelled split: list.splits)
next
  case (new_context p)
  then have "same_for k m m'" for k by (simp add: same_for_def)
  then have "registrar_ok r m' = registrar_ok r m" by (intro registrar_ok_same) blast
  then show ?thesis using assms(2) new_context by (simp add: shared_inv_def)
next
  case (completed k)
  have "section_ok (rg_pc r) (rg_kind r) i m \<longrightarrow> section_ok (rg_pc r) (rg_kind r) i m'" for i
    by (cases "rg_pc r") (auto simp: completed)
  then show ?thesis using assms(2) completed by (auto simp: registrar_ok_def shared_inv_def split: list.splits)
next
  case (polled bs)
  then have "same_for k m m'" for k by (simp add: same_for_def)
  then have "registrar_ok r m' = registrar_ok r m" by (intro registrar_ok_same) blast
  then show ?thesis using assms(2) polled by (simp add: shared_inv_def)
qed

interpretation registrars: rely_guarantee registrar_turn other_step shared_inv registrar_ok registrar_guar apart_registrars
proof (unfold_locales, goal_cases)
  case (1 m r r' m')
  show ?case
  proof (cases "rg_todo r")
    case Nil
    then show ?thesis using 1 by (simp add: registrar_guar_def same_for_def)
  next
    case (Cons c cs)
    then show ?thesis using section_keeps [OF Cons 1(1,2)] 1(3) by simp
  qed
next
  case (2 r k m m')
  have "\<forall>x \<in> set (rg_todo k). same_for (ct_ID x) m m'"
    using 2(1,3) unfolding apart_registrars_def registrar_guar_def by blast
  then show ?case using 2(2) registrar_ok_same by blast
next
  case (3 r k m r' m')
  have "set (rg_todo r') \<subseteq> set (rg_todo r)" using registrar_turn_todo [of r m] 3(2) by simp
  then show ?case using 3(1) by (auto simp: apart_registrars_def)
next
  case (4 r k)
  then show ?case by (auto simp: apart_registrars_def)
next
  case (5 m m' r)
  then show ?case by (rule other_step_keeps)
qed

lemma shared_inv_reach:
  assumes "mon_reach m" and "mn_running m"
  shows "shared_inv m"
proof -
  have I: "mon_inv m" by (rule mon_reach_inv [OF assms(1)])
  have "length (live k m) \<le> 1" for k
  proof -
    have h: "map_of (mn_monitors m) k = Some (hd (snd g))" if "g \<in> set (live k m)" for g
      using that I by (auto simp: live_def mon_inv_def tracked_def)
    have "distinct (map (\<lambda>g. hd (snd g)) (live k m))"
      using I unfolding live_def mon_inv_def by (simp add: distinct_map_filter)
    then have "card ((\<lambda>g. hd (snd g)) ` set (live k m)) = length (live k m)"
      by (metis distinct_card length_map set_map)
    moreover have "(\<lambda>g. hd (snd g)) ` set (live k m) \<subseteq> {the (map_of (mn_monitors m) k)}" using h by force
    ultimately show ?thesis by (metis card_mono card.empty card_insert_disjoint empty_iff finite.emptyI finite_insert One_nat_def)
  qed
  then show ?thesis using I assms(2) by (auto simp: shared_inv_def mon_inv_def)
qed

lemma distinct_concat_nth:
  "distinct (concat xss) \<Longrightarrow> i < length xss \<Longrightarrow> distinct (xss ! i) \<and>
   (j < length xss \<longrightarrow> i \<noteq> j \<longrightarrow> set (xss ! i) \<inter> set (xss ! j) = {})"
proof (induction xss arbitrary: i j)
  case (Cons xs xss)
  have d: "distinct xs" "distinct (concat xss)" "set xs \<inter> (\<Union>ys \<in> set xss. set ys) = {}" using Cons.prems(1) by auto
  have "set xs \<inter> set (xss ! n) = {}" if "n < length xss" for n using d(3) that nth_mem by fastforce
  then show ?case using Cons.IH [OF d(2)] d(1) Cons.prems(2) by (cases i; cases j) (auto simp: Int_commute)
qed simp

lemma calls_ok:
  assumes "\<forall>(kind, ctx, cs) \<in> set calls. kind = Starter \<longrightarrow> (\<forall>c \<in> set cs. map_of (mn_monitors m) (ct_ID c) = None)"
    and "distinct (concat (map (\<lambda>(kind, ctx, cs). map ct_ID cs) calls))" and "shared_inv m"
  shows "registrars.all_ok (map (\<lambda>(kind, ctx, cs). new_registrar kind ctx cs) calls) m"
proof -
  let ?todo = "\<lambda>(kind, ctx, cs). map ct_ID cs" and ?new = "\<lambda>(kind, ctx, cs). new_registrar kind ctx cs"
  have todo: "map ct_ID (rg_todo (?new x)) = ?todo x" for x by (cases x) (simp add: new_registrar_def)
  have "registrar_ok (?new (calls ! i)) m" if "i < length calls" for i
  proof -
    obtain kind ctx cs where c: "calls ! i = (kind, ctx, cs)" by (cases "calls ! i")
    have "distinct (map ct_ID cs)" using distinct_concat_nth [OF assms(2), of i] that c by simp
    moreover have "kind = Starter \<Longrightarrow> \<forall>c \<in> set cs. map_of (mn_monitors m) (ct_ID c) = None"
      using assms(1) c nth_mem [OF that] by fastforce
    ultimately show ?thesis by (cases kind; cases cs) (auto simp: c registrar_ok_def new_registrar_def)
  qed
  moreover have "apart_registrars (?new (calls ! i)) (?new (calls ! j))"
    if "i < length calls" "j < length calls" "i \<noteq> j" for i j
    using distinct_concat_nth [OF assms(2), of i j] that
    unfolding apart_registrars_def by (simp flip: todo)
  ultimately show ?thesis using assms(3) by (simp add: registrars.all_ok_def)
qed

text \<open>
  C21. Registrars of different contracts (those of \<open>Start\<close> with contracts that have no entry yet) do
  not disturb each other, whatever the order in which their critical sections run, and whatever contexts end and backfills complete in between: at
  every moment at most one goroutine per contract has not been told to end, and \<open>Stop\<close> tells
  all that were started.
\<close>

theorem different_contracts_are_safe:
  assumes "mon_reach m" and "mn_running m"
    and "distinct (concat (map (\<lambda>(kind, ctx, cs). map ct_ID cs) calls))"
    and "\<forall>(kind, ctx, cs) \<in> set calls. kind = Starter \<longrightarrow> (\<forall>c \<in> set cs. map_of (mn_monitors m) (ct_ID c) = None)"
    and "interleaved registrar_turn other_step (map (\<lambda>(kind, ctx, cs). new_registrar kind ctx cs) calls) m rs m'"
  shows "length (live k m') \<le> 1
    \<and> (\<forall>g \<in> set (mn_spawned m'). ctx_done (mn_contexts (monitor_Stop m')) (snd g))"
proof -
  from registrars.all_ok_interleaved [OF assms(5) calls_ok [OF assms(4,3) shared_inv_reach [OF assms(1,2)]]]
  have inv: "shared_inv m'" by (simp add: registrars.all_ok_def)
  have "ctx_done (mn_contexts (monitor_Stop m')) (snd g)" if "g \<in> set (mn_spawned m')" for g
  proof (cases "ctx_done (mn_contexts m') (snd g)")
    case False
    then have "map_of (mn_monitors m') (ct_ID (fst g)) = Some (hd (snd g))" "snd g \<noteq> []" "mn_running m'"
      using inv that by (auto simp: shared_inv_def tracked_def)
    then have "hd (snd g) \<in> set (snd g)" "hd (snd g) \<in> snd ` set (mn_monitors m')" "mn_running m'"
      by (auto dest: map_of_SomeD simp: image_iff intro: bexI [rotated])
    then show ?thesis unfolding Stop_done by blast
  qed (simp add: Stop_done)
  then show ?thesis using inv by (simp add: shared_inv_def)
qed

definition other_contract :: contract where
  "other_contract = sample_contract\<lparr>ct_ID := ''other''\<rparr>"

theorem different_contracts_are_safe_witness:
  "\<exists>m'. play registrar_turn [0, 1, 1, 0, 1, 0, 1, 0, 0, 1, 1, 0, 1, 1]
      [new_registrar Checker [] [sample_contract], new_registrar Task [] [other_contract]] idle_monitor =
      ([new_registrar Checker [] [], new_registrar Task [] []], m') \<and>
    map fst (mn_spawned m') = [sample_contract, other_contract] \<and> (\<forall>k. length (live k m') \<le> 1) \<and>
    (\<forall>g \<in> set (mn_spawned m'). ctx_done (mn_contexts (monitor_Stop m')) (snd g))"
proof -
  let ?calls = "[(Checker, [], [sample_contract]), (Task, [], [other_contract])]"
  let ?rs = "map (\<lambda>(kind, ctx, cs). new_registrar kind ctx cs) ?calls"
  have ne: "''other'' \<noteq> ct_ID sample_contract" "ct_ID other_contract = ''other''"
    by (simp_all add: sample_contract_def other_contract_def)
  have u: "unregistered c idle_monitor" for c by (rule idle_monitor(2))
  define s where "s = play registrar_turn [0, 1, 1, 0, 1, 0, 1, 0, 0, 1, 1, 0, 1, 1] ?rs idle_monitor"
  have s: "fst s = [new_registrar Checker [] [], new_registrar Task [] []]"
    "map fst (mn_spawned (snd s)) = [sample_contract, other_contract]"
    by (simp_all add: s_def new_registrar_def registrar_turn_def registrar_section_def registrar_end_def
        registrar_next_def IsRunning_def IsContractBackfilling_def IsContractReadyForMonitoring_def with_cancel_def
        new_contexts_def MarkContractBackfilling_def idle_monitor_def monitor_Start_def init_blocks_def NewMonitor_def
        other_contract_def sample_contract_def Let_def)
  have "interleaved registrar_turn other_step ?rs idle_monitor (fst s) (snd s)"
    by (rule play_interleaved [of _ "[0, 1, 1, 0, 1, 0, 1, 0, 0, 1, 1, 0, 1, 1]"]) (simp_all add: s_def)
  from different_contracts_are_safe [OF idle_monitor(1) _ _ _ this] u
  have "(\<forall>k. length (live k (snd s)) \<le> 1) \<and>
      (\<forall>g \<in> set (mn_spawned (snd s)). ctx_done (mn_contexts (monitor_Stop (snd s))) (snd g))"
    using ne by (simp add: unregistered_def)
  moreover have "play registrar_turn [0, 1, 1, 0, 1, 0, 1, 0, 0, 1, 1, 0, 1, 1]
      [new_registrar Checker [] [sample_contract], new_registrar Task [] [other_contract]] idle_monitor = s"
    unfolding s_def by (simp only: list.map prod.case)
  moreover have "s = ([new_registrar Checker [] [], new_registrar Task [] []], snd s)"
    using s(1) by (simp add: prod_eq_iff)
  ultimately show ?thesis using s(2) by metis
qed

end
