(* ===== verification/Monitor_Life.thy ===== *)
theory Monitor_Life
  imports Registration_Races
begin

text \<open>
  The whole life of a monitor (\<open>internal/monitor/monitor.go\<close>), one critical section at a time: it is
  started and stopped, any number of times, and registrations begin and take their turns in any
  order. Two conditions are made on when things happen, since the code does not ensure them and
  fails without them (\<open>registrations_race\<close>, \<open>stop_misses_registration\<close>): no two registrations of
  one contract are under way at once, and \<open>Start\<close> and \<open>Stop\<close> find none under way.
\<close>

section \<open>Lives\<close>

definition all_idle :: "registrar list \<Rightarrow> bool" where
  "all_idle rs = (\<forall>r \<in> set rs. rg_todo r = [])"

text \<open>
  \<open>starts\<close> is \<open>Start\<close> up to its loop over the contracts, which is the registrar it leaves; a \<open>Start\<close>
  that cannot read the contracts sets the flag and resets it.
\<close>

inductive mon_life :: "registrar list \<Rightarrow> mon \<Rightarrow> bool" where
  new: "mon_life [] NewMonitor"
| begins: "mon_life rs m \<Longrightarrow> kind \<noteq> Starter \<Longrightarrow> distinct (map ct_ID cs) \<Longrightarrow>
    \<forall>r \<in> set rs. apart_registrars (new_registrar kind ctx cs) r \<Longrightarrow> mon_life (rs @ [new_registrar kind ctx cs]) m"
| turn: "mon_life rs m \<Longrightarrow> i < length rs \<Longrightarrow> registrar_turn (rs ! i) m = (r', m') \<Longrightarrow> mon_life (rs[i := r']) m'"
| others: "mon_life rs m \<Longrightarrow> other_step m m' \<Longrightarrow> mon_life rs m'"
| starts: "mon_life rs m \<Longrightarrow> all_idle rs \<Longrightarrow> \<not> mn_running m \<Longrightarrow> distinct (map ct_ID cs) \<Longrightarrow>
    mon_life (rs @ [new_registrar Starter ctx cs]) (init_blocks heads (m\<lparr>mn_running := True\<rparr>))"
| stops: "mon_life rs m \<Longrightarrow> all_idle rs \<Longrightarrow> mon_life rs (monitor_Stop m)"

section \<open>The invariant\<close>

text \<open>
  A monitor that does not run has no entries and no goroutine that goes on, and a registration
  under way has not passed its test for a running monitor.
\<close>

definition stopped_inv :: "mon \<Rightarrow> bool" where
  "stopped_inv m = (\<not> mn_running m \<and> mn_monitors m = [] \<and>
     (\<forall>g \<in> set (mn_spawned m). ctx_done (mn_contexts m) (snd g) \<and> snd g \<noteq> []))"

definition waiting :: "registrar \<Rightarrow> bool" where
  "waiting r = (rg_todo r \<noteq> [] \<longrightarrow> rg_kind r \<noteq> Starter \<and> rg_pc r \<in> {AtBackfilling, AtGuard, AtRunning, AtMark})"

definition life_inv :: "registrar list \<Rightarrow> mon \<Rightarrow> bool" where
  "life_inv rs m = (if mn_running m then registrars.all_ok rs m else stopped_inv m \<and> (\<forall>r \<in> set rs. waiting r))"

lemma turn_running: "registrar_turn r m = (r', m') \<Longrightarrow> mn_running m' = mn_running m"
  by (cases "rg_todo r"; cases "rg_pc r")
    (auto simp: registrar_section_def with_cancel_def Let_def split: if_splits)

lemma other_running: "other_step m m' \<Longrightarrow> mn_running m' = mn_running m"
  by (auto elim: other_step.cases)

lemma stopped_registrar_turn:
  assumes "stopped_inv m" and "waiting r" and "registrar_turn r m = (r', m')"
  shows "stopped_inv m' \<and> waiting r'"
proof (cases "rg_todo r")
  case Nil
  then show ?thesis using assms by simp
next
  case (Cons c cs)
  then have sec: "registrar_section c r m = (r', m')" and k: "rg_kind r \<noteq> Starter"
    and pc: "rg_pc r \<in> {AtBackfilling, AtGuard, AtRunning, AtMark}"
    using assms(2,3) by (simp_all add: waiting_def)
  have run: "\<not> IsRunning m" using assms(1) by (simp add: stopped_inv_def IsRunning_def)
  have ends: "waiting (registrar_next r)" "waiting (registrar_end r)"
    using k by (cases "rg_kind r"; simp add: waiting_def registrar_next_def registrar_end_def)+
  have "stopped_inv (MarkContractBackfilling (ct_ID c) m)"
    using assms(1) by (simp add: stopped_inv_def MarkContractBackfilling_def)
  moreover have "waiting (r\<lparr>rg_pc := AtGuard\<rparr>)" "waiting (r\<lparr>rg_pc := AtRunning\<rparr>)" using k by (simp_all add: waiting_def)
  moreover have "registrar_section c r m \<in> {(registrar_next r, m), (registrar_end r, m), (r\<lparr>rg_pc := AtGuard\<rparr>, m),
      (r\<lparr>rg_pc := AtRunning\<rparr>, m), (registrar_next r, MarkContractBackfilling (ct_ID c) m)}"
    using pc by (elim insertE emptyE) (simp_all add: registrar_section_def run)
  ultimately show ?thesis using ends assms(1) unfolding sec by (elim insertE emptyE) simp_all
qed

lemma stopped_other: "stopped_inv m \<Longrightarrow> other_step m m' \<Longrightarrow> stopped_inv m'"
  by (erule other_step.cases)
    (auto simp: stopped_inv_def MarkContractBackfillComplete_def ctx_done_def cancel_ctx_def with_cancel_def Let_def)

text \<open>\<open>Stop\<close> tells every goroutine that has been started, and leaves a stopped monitor.\<close>

lemma shared_Stop:
  assumes "shared_inv m"
  shows "stopped_inv (monitor_Stop m)"
proof -
  have "ctx_done (mn_contexts (monitor_Stop m)) (snd g)" if g: "g \<in> set (mn_spawned m)" for g
  proof (cases "ctx_done (mn_contexts m) (snd g)")
    case False
    then have "map_of (mn_monitors m) (ct_ID (fst g)) = Some (hd (snd g))" "snd g \<noteq> []" "mn_running m"
      using assms g by (auto simp: shared_inv_def tracked_def)
    then have "hd (snd g) \<in> set (snd g)" "hd (snd g) \<in> snd ` set (mn_monitors m)" "mn_running m"
      by (auto dest: map_of_SomeD simp: image_iff intro: bexI [rotated])
    then show ?thesis unfolding Stop_done by blast
  qed (simp add: Stop_done)
  then show ?thesis using assms by (auto simp: stopped_inv_def shared_inv_def monitor_Stop_def)
qed

lemma stopped_Start:
  assumes "stopped_inv m"
  shows "shared_inv (init_blocks heads (m\<lparr>mn_running := True\<rparr>))"
proof -
  let ?m = "init_blocks heads (m\<lparr>mn_running := True\<rparr>)"
  have "live k ?m = []" for k using assms by (auto simp: live_def stopped_inv_def init_blocks_sel filter_empty_conv)
  then show ?thesis using assms by (simp add: shared_inv_def stopped_inv_def init_blocks_sel tracked_def)
qed

lemma idle_ok: "rg_todo r = [] \<Longrightarrow> registrar_ok r m" "rg_todo r = [] \<Longrightarrow> apart_registrars r s \<and> apart_registrars s r"
  by (simp_all add: registrar_ok_def apart_registrars_def)

lemma new_registrar_sel [simp]: "rg_todo (new_registrar kind ctx cs) = cs" "rg_kind (new_registrar kind ctx cs) = kind"
  by (simp_all add: new_registrar_def)

lemma all_ok_snoc:
  assumes "registrars.all_ok rs m" and "registrar_ok r m" and "\<forall>x \<in> set rs. apart_registrars r x"
  shows "registrars.all_ok (rs @ [r]) m"
proof -
  have "apart_registrars x r" if "x \<in> set rs" for x using assms(3) that by (auto simp: apart_registrars_def)
  then show ?thesis using assms by (auto simp: registrars.all_ok_def nth_append less_Suc_eq)
qed

lemma mon_life_inv: "mon_life rs m \<Longrightarrow> life_inv rs m"
proof (induction rule: mon_life.induct)
  case new
  then show ?case by (simp add: life_inv_def stopped_inv_def NewMonitor_def)
next
  case (begins rs m kind cs ctx)
  let ?r = "new_registrar kind ctx cs"
  have "registrar_ok ?r m" using begins(2,3) by (cases kind; cases cs) (simp_all add: registrar_ok_def new_registrar_def)
  moreover have "waiting ?r" using begins(2) by (cases kind) (simp_all add: waiting_def new_registrar_def)
  ultimately show ?case using begins.IH all_ok_snoc begins(4) by (auto simp: life_inv_def)
next
  case (turn rs m i r' m')
  note R = turn_running [OF turn(3)]
  show ?case
  proof (cases "mn_running m")
    case True
    then show ?thesis using registrars.all_ok_turn [OF _ turn(2,3)] turn.IH R by (simp add: life_inv_def)
  next
    case False
    then have "stopped_inv m' \<and> waiting r'" using stopped_registrar_turn [OF _ _ turn(3)] turn.IH turn(2) by (simp add: life_inv_def)
    then show ?thesis using False turn.IH R turn(2) by (auto simp: life_inv_def dest!: set_update_subset_insert [THEN subsetD])
  qed
next
  case (others rs m m')
  then show ?case
    using other_running [OF others(2)] stopped_other [OF _ others(2)] other_step_keeps [OF others(2)]
    by (auto simp: life_inv_def registrars.all_ok_def)
next
  case (starts rs m cs ctx heads)
  let ?r = "new_registrar Starter ctx cs" and ?m = "init_blocks heads (m\<lparr>mn_running := True\<rparr>)"
  have st: "stopped_inv m" using starts by (simp add: life_inv_def)
  have idle: "rg_todo x = []" if "x \<in> set rs" for x using starts(2) that by (simp add: all_idle_def)
  have "registrars.all_ok rs ?m" using stopped_Start [OF st] idle idle_ok by (simp add: registrars.all_ok_def)
  moreover have "registrar_ok ?r ?m"
    using st starts(4) by (cases cs) (simp_all add: registrar_ok_def new_registrar_def stopped_inv_def init_blocks_sel)
  moreover have "\<forall>x \<in> set rs. apart_registrars ?r x" using idle idle_ok by blast
  ultimately show ?case using all_ok_snoc by (simp add: life_inv_def init_blocks_sel)
next
  case (stops rs m)
  have w: "\<forall>r \<in> set rs. waiting r" using stops(2) by (simp add: all_idle_def waiting_def)
  show ?case
  proof (cases "mn_running m")
    case True
    then have "stopped_inv (monitor_Stop m)" using stops.IH shared_Stop by (simp add: life_inv_def registrars.all_ok_def)
    then show ?thesis using w by (simp add: life_inv_def stopped_inv_def)
  next
    case False
    then show ?thesis using stops.IH by (simp add: monitor_Stop_def)
  qed
qed

lemma mon_life_cases:
  assumes "mon_life rs m"
  obtains "mn_running m" "shared_inv m" | "\<not> mn_running m" "stopped_inv m"
  using mon_life_inv [OF assms] by (auto simp: life_inv_def registrars.all_ok_def split: if_splits)

lemma life_Stop:
  assumes "mon_life rs m"
  shows "stopped_inv (monitor_Stop m)"
  using assms
proof (cases rule: mon_life_cases)
  case 2
  then show ?thesis by (simp add: monitor_Stop_def)
qed (rule shared_Stop)

section \<open>A start that nothing interrupts\<close>

lemma life_alone:
  "mon_life (rs @ [r]) m \<Longrightarrow> registrar_turns n (r, m) = (r', m') \<Longrightarrow> mon_life (rs @ [r']) m'"
proof (induction n arbitrary: r m)
  case (Suc n)
  obtain r1 m1 where t: "registrar_turn r m = (r1, m1)" by fastforce
  have "mon_life ((rs @ [r])[length rs := r1]) m1" by (rule mon_life.turn [OF Suc.prems(1)]) (simp_all add: t)
  then show ?case using Suc.IH Suc.prems(2) t by (simp add: turns_Suc del: funpow.simps)
qed simp

lemma life_Start:
  assumes "mon_life rs m" and "all_idle rs" and "\<not> mn_running m" and "distinct (map ct_ID cs)"
  shows "mon_life (rs @ [new_registrar Starter ctx []]) (snd (monitor_Start ctx (Inr cs) heads m))"
proof -
  let ?m = "init_blocks heads (m\<lparr>mn_running := True\<rparr>)"
  have "registers Starter ctx = watch_contract ctx" by (simp add: fun_eq_iff)
  then obtain n where n: "registrar_turns n (new_registrar Starter ctx cs, ?m) =
      (new_registrar Starter ctx [], fold (watch_contract ctx) cs ?m)"
    using all_registered [of Starter ctx cs ?m] by auto
  from life_alone [OF mon_life.starts [OF assms] this] show ?thesis
    using assms(3) by (simp add: monitor_Start_def Let_def)
qed

section \<open>At most one goroutine for a contract\<close>

text \<open>
  C10. Over the whole life of a monitor, started and stopped any number of times, with the
  critical sections of its registrations in any order, as long as no two registrations of one
  contract are under way at the same time and \<open>Start\<close> and \<open>Stop\<close> find none under way: at every
  moment at most one goroutine per contract has not been told to end; a \<open>Stop\<close> at that moment
  would tell all that were started; and a monitor that does not run counts no contract and has
  told all of them, while starting one that runs is refused and changes nothing.
\<close>

theorem one_goroutine_per_contract:
  assumes "mon_life rs m"
  shows "length (filter (\<lambda>g. ct_ID (fst g) = k \<and> \<not> ctx_done (mn_contexts m) (snd g)) (mn_spawned m)) \<le> 1
    \<and> (\<forall>g \<in> set (mn_spawned m). ctx_done (mn_contexts (monitor_Stop m)) (snd g))
    \<and> (if IsRunning m then monitor_Start ctx contracts heads m = (Some ''monitor is already running'', m)
       else GetActiveContractCount m = 0 \<and> (\<forall>g \<in> set (mn_spawned m). ctx_done (mn_contexts m) (snd g)))"
proof -
  have s: "mn_spawned (monitor_Stop m) = mn_spawned m" by (simp add: monitor_Stop_def)
  have stop: "\<forall>g \<in> set (mn_spawned m). ctx_done (mn_contexts (monitor_Stop m)) (snd g)"
    using life_Stop [OF assms] s by (auto simp: stopped_inv_def)
  from assms show ?thesis
  proof (cases rule: mon_life_cases)
    case 1
    then show ?thesis using stop
      by (simp add: shared_inv_def live_def IsRunning_def monitor_Start_def)
  next
    case 2
    then have "filter (\<lambda>g. ct_ID (fst g) = k \<and> \<not> ctx_done (mn_contexts m) (snd g)) (mn_spawned m) = []"
      by (auto simp: stopped_inv_def filter_empty_conv)
    with 2 stop show ?thesis by (simp add: stopped_inv_def IsRunning_def GetActiveContractCount_def)
  qed
qed

text \<open>Started with a contract, stopped, and started again with it.\<close>

lemma restarted_life:
  obtains rs m where "mon_life rs m" "mn_running m" "map fst (mn_spawned m) = [sample_contract, sample_contract]"
proof -
  define m1 where "m1 = snd (monitor_Start [] (Inr [sample_contract]) [] NewMonitor)"
  define m2 where "m2 = monitor_Stop m1"
  define m3 where "m3 = snd (monitor_Start [] (Inr [sample_contract]) [] m2)"
  have l1: "mon_life [new_registrar Starter [] []] m1"
    unfolding m1_def using life_Start [OF mon_life.new, of "[sample_contract]" "[]" "[]"]
    by (simp add: all_idle_def NewMonitor_def)
  have l2: "mon_life [new_registrar Starter [] []] m2"
    unfolding m2_def by (rule mon_life.stops [OF l1]) (simp add: all_idle_def)
  have r: "\<not> mn_running m2" by (simp add: m2_def monitor_Stop_def)
  have l3: "mon_life [new_registrar Starter [] [], new_registrar Starter [] []] m3"
    unfolding m3_def using life_Start [OF l2 _ r, of "[sample_contract]" "[]" "[]"] by (simp add: all_idle_def)
  have "mn_running m3" "map fst (mn_spawned m3) = [sample_contract, sample_contract]"
    using r by (simp_all add: m3_def m2_def m1_def monitor_Start_def monitor_Stop_def NewMonitor_def init_blocks_def
        watch_contract_sel Let_def)
  then show thesis by (rule that [OF l3])
qed

theorem one_goroutine_per_contract_witness:
  "\<exists>rs m. mon_life rs m \<and> length (mn_spawned m) = 2 \<and>
    length (filter (\<lambda>g. ct_ID (fst g) = ct_ID sample_contract \<and> \<not> ctx_done (mn_contexts m) (snd g)) (mn_spawned m)) \<le> 1"
proof (rule restarted_life)
  fix rs m assume m: "mon_life rs m" "map fst (mn_spawned m) = [sample_contract, sample_contract]"
  have "length (mn_spawned m) = 2" using arg_cong [OF m(2), of length] by simp
  with m(1) show ?thesis using one_goroutine_per_contract [OF m(1)] by blast
qed

end
