(* ===== verification/Http.thy ===== *)
theory Http
  imports Jwt_Auth Go_Strconv
begin

text \<open>
  What the HTTP API uses of \<open>net/http\<close> and Redis, and its middleware: \<open>internal/api/server.go\<close>
  (CORS, authentication) and \<open>internal/api/rate_limit.go\<close>. A response's header map is sent as it
  stands when the status is written; later changes have no effect. The state of a request has the
  response, Redis and the clock, and room for more.
\<close>

section \<open>Responses\<close>

text \<open>
  \<open>rp_capture\<close> is the \<open>statusCode\<close> of the \<open>statusResponseWriter\<close> around the writer, when there
  is one. Status 0: nothing written yet.
\<close>

record resp =
  rp_header :: "string \<rightharpoonup> string"
  rp_status :: nat
  rp_sent :: "string \<rightharpoonup> string"
  rp_body :: string
  rp_capture :: "nat option"

definition blank_resp :: resp where
  "blank_resp = \<lparr>rp_header = Map.empty, rp_status = 0, rp_sent = Map.empty, rp_body = [], rp_capture = None\<rparr>"

definition header_Set :: "string \<Rightarrow> string \<Rightarrow> resp \<Rightarrow> resp" where
  "header_Set k v w = w\<lparr>rp_header := (rp_header w)(k \<mapsto> v)\<rparr>"

text \<open>The server's own writer: the first status counts.\<close>

definition raw_WriteHeader :: "nat \<Rightarrow> resp \<Rightarrow> resp" where
  "raw_WriteHeader code w = (if rp_status w = 0 then w\<lparr>rp_status := code, rp_sent := rp_header w\<rparr> else w)"

definition raw_Write :: "string \<Rightarrow> resp \<Rightarrow> resp" where
  "raw_Write data w = (let w1 = (if rp_status w = 0 then raw_WriteHeader 200 w else w)
     in w1\<lparr>rp_body := rp_body w1 @ data\<rparr>)"

text \<open>The writer a handler sees, which may be the wrapper.\<close>

definition http_WriteHeader :: "nat \<Rightarrow> resp \<Rightarrow> resp" where
  "http_WriteHeader code w =
     raw_WriteHeader code (if rp_capture w = None then w else w\<lparr>rp_capture := Some code\<rparr>)"

definition http_Write :: "string \<Rightarrow> resp \<Rightarrow> resp" where
  "http_Write data w = raw_Write data (if rp_capture w = Some 0 then w\<lparr>rp_capture := Some 200\<rparr> else w)"

definition http_Error :: "string \<Rightarrow> nat \<Rightarrow> resp \<Rightarrow> resp" where
  "http_Error msg code w =
     http_Write (msg @ [CHR 0x0A])
       (http_WriteHeader code
         (header_Set ''X-Content-Type-Options'' ''nosniff''
           (header_Set ''Content-Type'' ''text/plain; charset=utf-8'' w)))"

named_theorems resp_simps \<open>evaluation of response writers\<close>

lemmas [resp_simps] = blank_resp_def header_Set_def raw_WriteHeader_def raw_Write_def http_WriteHeader_def
  http_Write_def http_Error_def

section \<open>Requests and their state\<close>

record request =
  rq_method :: string
  rq_headers :: "string \<Rightarrow> string"
  rq_query :: "string \<Rightarrow> string"
  rq_address :: "string option"

record web =
  wb_resp :: resp
  wb_now :: int
  wb_count :: "string \<Rightarrow> int"
  wb_expiry :: "string \<Rightarrow> int"
  wb_get_ok :: bool
  wb_pipe_ok :: bool

definition on_resp :: "(resp \<Rightarrow> resp) \<Rightarrow> 'a web_scheme \<Rightarrow> 'a web_scheme" where
  "on_resp f s = s\<lparr>wb_resp := f (wb_resp s)\<rparr>"

text \<open>A counter in Redis: absent (0) once its expiry has passed. A failing call changes nothing.\<close>

definition redis_count :: "string \<Rightarrow> 'a web_scheme \<Rightarrow> int" where
  "redis_count key s = (if wb_now s < wb_expiry s key then wb_count s key else 0)"

definition redis_incr_expire :: "string \<Rightarrow> int \<Rightarrow> 'a web_scheme \<Rightarrow> 'a web_scheme" where
  "redis_incr_expire key window s =
     (if wb_pipe_ok s
      then s\<lparr>wb_count := (wb_count s)(key := redis_count key s + 1), wb_expiry := (wb_expiry s)(key := wb_now s + window)\<rparr>
      else s)"

type_synonym 'a http_handler = "(request, 'a web_scheme, 'a web_scheme) handler"

section \<open>CORS and authentication\<close>

definition cors_headers :: "resp \<Rightarrow> resp" where
  "cors_headers w =
     header_Set ''Access-Control-Allow-Headers'' ''Content-Type, Authorization''
       (header_Set ''Access-Control-Allow-Methods'' ''GET, POST, OPTIONS, PUT, DELETE''
         (header_Set ''Access-Control-Allow-Origin'' ''*'' w))"

definition allowCORS :: "'a http_handler \<Rightarrow> 'a http_handler" where
  "allowCORS h r s =
     (let s1 = on_resp cors_headers s in if rq_method r = ''OPTIONS'' then s1 else h r s1)"

definition authMiddleware :: "jwt_lib \<Rightarrow> string \<Rightarrow> 'a http_handler \<Rightarrow> 'a http_handler" where
  "authMiddleware J jwtSecret next r s =
     (let authHeader = rq_headers r ''Authorization'' in
      if authHeader = [] then on_resp (http_Error ''Authorization header required'' 401) s
      else case jwt_ValidateJWT J (wb_now s) jwtSecret authHeader None of
          Inl err \<Rightarrow> on_resp (http_Error ''Invalid token'' 401) s
        | Inr claims \<Rightarrow> next (r\<lparr>rq_address := Some (to_lower (jc_Address claims))\<rparr>) s)"

definition secretMiddleware :: "string \<Rightarrow> 'a http_handler \<Rightarrow> 'a http_handler" where
  "secretMiddleware secret next r s =
     (let authHeader = rq_headers r ''Authorization'' in
      if authHeader = [] then on_resp (http_Error ''Authorization header required'' 401) s
      else let authHeader' = (if has_prefix authHeader ''Bearer '' then trim_prefix authHeader ''Bearer '' else authHeader)
        in if authHeader' \<noteq> secret then on_resp (http_Error ''Invalid secret'' 401) s else next r s)"

text \<open>Who is let through, and what the others get.\<close>

definition auth_ok :: "jwt_lib \<Rightarrow> string \<Rightarrow> request \<Rightarrow> 'a web_scheme \<Rightarrow> bool" where
  "auth_ok J jwtSecret r s = (rq_headers r ''Authorization'' \<noteq> [] \<and>
     is_ok (jwt_ValidateJWT J (wb_now s) jwtSecret (rq_headers r ''Authorization'') None))"

definition auth_claims :: "jwt_lib \<Rightarrow> string \<Rightarrow> request \<Rightarrow> 'a web_scheme \<Rightarrow> jwt_claims" where
  "auth_claims J jwtSecret r s =
     projr (jwt_ValidateJWT J (wb_now s) jwtSecret (rq_headers r ''Authorization'') None)"

definition auth_deny :: "request \<Rightarrow> 'a web_scheme \<Rightarrow> 'a web_scheme" where
  "auth_deny r = on_resp (http_Error
     (if rq_headers r ''Authorization'' = [] then ''Authorization header required'' else ''Invalid token'') 401)"

definition secret_deny :: "request \<Rightarrow> 'a web_scheme \<Rightarrow> 'a web_scheme" where
  "secret_deny r = on_resp (http_Error
     (if rq_headers r ''Authorization'' = [] then ''Authorization header required'' else ''Invalid secret'') 401)"

interpretation cors: gate allowCORS "\<lambda>r s. rq_method r \<noteq> ''OPTIONS''" "\<lambda>r s. r" "\<lambda>r. on_resp cors_headers"
  "\<lambda>r s s'. s'" "\<lambda>r. on_resp cors_headers"
  by unfold_locales (simp add: allowCORS_def Let_def)

interpretation auth: gate "authMiddleware J jwtSecret" "auth_ok J jwtSecret"
  "\<lambda>r s. r\<lparr>rq_address := Some (to_lower (jc_Address (auth_claims J jwtSecret r s)))\<rparr>" "\<lambda>r s. s"
  "\<lambda>r s s'. s'" auth_deny for J jwtSecret
  by unfold_locales
    (auto simp: authMiddleware_def auth_ok_def auth_claims_def auth_deny_def Let_def is_ok_iff split: sum.splits)

interpretation secret: gate "secretMiddleware secret"
  "\<lambda>r s. rq_headers r ''Authorization'' \<noteq> [] \<and> strip_bearer (rq_headers r ''Authorization'') = secret"
  "\<lambda>r s. r" "\<lambda>r s. s" "\<lambda>r s s'. s'" secret_deny for secret
  by unfold_locales (auto simp: secretMiddleware_def secret_deny_def strip_bearer_def Let_def)

end
