(* ===== verification/Rate_Limit.thy ===== *)
theory Rate_Limit
  imports Http
begin

text \<open>
  \<open>internal/api/rate_limit.go\<close>: the counters per address in Redis. Only the middleware that
  counts successful requests is on a route; the other two are alternatives the file offers.
\<close>

section \<open>The middleware\<close>

definition limit_key :: "string \<Rightarrow> string" where
  "limit_key address = ''rate_limit:'' @ address"

definition reset_text :: "int \<Rightarrow> 'a web_scheme \<Rightarrow> string" where
  "reset_text window s = fmt_d ((wb_now s + window) div second_ns)"

definition too_many :: "int \<Rightarrow> int \<Rightarrow> 'a web_scheme \<Rightarrow> 'a web_scheme" where
  "too_many limit window s =
     on_resp (\<lambda>w. http_Error ''Rate limit exceeded'' 429
       (header_Set ''X-RateLimit-Reset'' (reset_text window s)
         (header_Set ''X-RateLimit-Remaining'' ''0''
           (header_Set ''X-RateLimit-Limit'' (fmt_d limit) w)))) s"

definition rateLimitMiddleware :: "int \<Rightarrow> int \<Rightarrow> 'a http_handler \<Rightarrow> 'a http_handler" where
  "rateLimitMiddleware limit window next r s =
     (case rq_address r of
        None \<Rightarrow> on_resp (http_Error ''Unauthorized'' 401) s
      | Some address \<Rightarrow>
          let key = limit_key address; count = redis_count key s in
          if \<not> wb_get_ok s then on_resp (http_Error ''Internal server error'' 500) s
          else if count \<ge> limit then too_many limit window s
          else if \<not> wb_pipe_ok s then on_resp (http_Error ''Internal server error'' 500) s
          else next r
            (on_resp (\<lambda>w. header_Set ''X-RateLimit-Reset'' (reset_text window s)
               (header_Set ''X-RateLimit-Remaining'' (fmt_d (limit - count - 1))
                 (header_Set ''X-RateLimit-Limit'' (fmt_d limit) w)))
              (redis_incr_expire key window s)))"

definition day_window :: int where
  "day_window = 24 * 3600 * 1000000000"

definition queryCounterMiddleware :: "'a http_handler \<Rightarrow> 'a http_handler" where
  "queryCounterMiddleware next r s =
     (case rq_address r of
        None \<Rightarrow> on_resp (http_Error ''Unauthorized'' 401) s
      | Some address \<Rightarrow>
          let key = ''query_count:'' @ address; s1 = redis_incr_expire key day_window s in
          next r (if wb_pipe_ok s then on_resp (header_Set ''X-Query-Count'' (fmt_d (redis_count key s1))) s1 else s1))"

text \<open>Around the handler: the headers and the wrapper before, the count after.\<close>

definition limit_enter :: "int \<Rightarrow> request \<Rightarrow> 'a web_scheme \<Rightarrow> 'a web_scheme" where
  "limit_enter limit r s =
     on_resp (\<lambda>w. (header_Set ''X-RateLimit-Remaining'' (fmt_d (limit - redis_count (limit_key (the (rq_address r))) s))
       (header_Set ''X-RateLimit-Limit'' (fmt_d limit) w))\<lparr>rp_capture := Some 0\<rparr>) s"

definition count_success :: "int \<Rightarrow> int \<Rightarrow> request \<Rightarrow> 'a web_scheme \<Rightarrow> 'a web_scheme \<Rightarrow> 'a web_scheme" where
  "count_success limit window r s s2 =
     (let key = limit_key (the (rq_address r)); count = redis_count key s;
          statusCode = (case rp_capture (wb_resp s2) of None \<Rightarrow> 0 | Some c \<Rightarrow> c);
          s3 = on_resp (\<lambda>w. w\<lparr>rp_capture := rp_capture (wb_resp s)\<rparr>) s2
      in if statusCode \<ge> 200 \<and> statusCode < 300
         then on_resp (header_Set ''X-RateLimit-Remaining'' (fmt_d (limit - count - 1))) (redis_incr_expire key window s3)
         else s3)"

definition successBasedRateLimitMiddleware :: "int \<Rightarrow> int \<Rightarrow> 'a http_handler \<Rightarrow> 'a http_handler" where
  "successBasedRateLimitMiddleware limit window next r s =
     (case rq_address r of
        None \<Rightarrow> on_resp (http_Error ''Unauthorized'' 401) s
      | Some address \<Rightarrow>
          if \<not> wb_get_ok s then on_resp (http_Error ''Internal server error'' 500) s
          else if redis_count (limit_key address) s \<ge> limit then too_many limit window s
          else count_success limit window r s (next r (limit_enter limit r s)))"

section \<open>Gates\<close>

definition limit_ok :: "int \<Rightarrow> request \<Rightarrow> 'a web_scheme \<Rightarrow> bool" where
  "limit_ok limit r s =
     (case rq_address r of None \<Rightarrow> False | Some a \<Rightarrow> wb_get_ok s \<and> redis_count (limit_key a) s < limit)"

definition limit_deny :: "int \<Rightarrow> int \<Rightarrow> request \<Rightarrow> 'a web_scheme \<Rightarrow> 'a web_scheme" where
  "limit_deny limit window r s =
     (if rq_address r = None then on_resp (http_Error ''Unauthorized'' 401) s
      else if \<not> wb_get_ok s then on_resp (http_Error ''Internal server error'' 500) s
      else too_many limit window s)"

interpretation limited: gate "successBasedRateLimitMiddleware limit window" "limit_ok limit" "\<lambda>r s. r"
  "limit_enter limit" "count_success limit window" "limit_deny limit window" for limit window
  by unfold_locales
    (auto simp: successBasedRateLimitMiddleware_def limit_ok_def limit_deny_def split: option.splits)

interpretation counted: gate "rateLimitMiddleware limit window" "\<lambda>r s. limit_ok limit r s \<and> wb_pipe_ok s" "\<lambda>r s. r"
  "\<lambda>r s. on_resp (\<lambda>w. header_Set ''X-RateLimit-Reset'' (reset_text window s)
     (header_Set ''X-RateLimit-Remaining'' (fmt_d (limit - redis_count (limit_key (the (rq_address r))) s - 1))
       (header_Set ''X-RateLimit-Limit'' (fmt_d limit) w)))
     (redis_incr_expire (limit_key (the (rq_address r))) window s)"
  "\<lambda>r s s'. s'"
  "\<lambda>r s. if limit_ok limit r s then on_resp (http_Error ''Internal server error'' 500) s else limit_deny limit window r s"
  for limit window
  by unfold_locales
    (auto simp: rateLimitMiddleware_def limit_ok_def limit_deny_def Let_def split: option.splits)

interpretation query_counter: gate queryCounterMiddleware "\<lambda>r s. rq_address r \<noteq> None" "\<lambda>r s. r"
  "\<lambda>r s. let key = ''query_count:'' @ the (rq_address r); s1 = redis_incr_expire key day_window s in
     if wb_pipe_ok s then on_resp (header_Set ''X-Query-Count'' (fmt_d (redis_count key s1))) s1 else s1"
  "\<lambda>r s s'. s'" "\<lambda>r. on_resp (http_Error ''Unauthorized'' 401)"
  by unfold_locales (auto simp: queryCounterMiddleware_def Let_def split: option.splits)

text \<open>The route of the events: authentication, then 100000 successful requests per hour.\<close>

definition events_route :: "jwt_lib \<Rightarrow> string \<Rightarrow> 'a http_handler \<Rightarrow> 'a http_handler" where
  "events_route J jwtSecret h =
     authMiddleware J jwtSecret (successBasedRateLimitMiddleware 100000 (3600 * second_ns) h)"

interpretation events: gate_chain "authMiddleware J jwtSecret" "auth_ok J jwtSecret"
  "\<lambda>r s. r\<lparr>rq_address := Some (to_lower (jc_Address (auth_claims J jwtSecret r s)))\<rparr>" "\<lambda>r s. s"
  "\<lambda>r s s'. s'" auth_deny
  "successBasedRateLimitMiddleware limit window" "limit_ok limit" "\<lambda>r s. r"
  "limit_enter limit" "count_success limit window" "limit_deny limit window" for J jwtSecret limit window
  by unfold_locales

definition caller :: "jwt_lib \<Rightarrow> string \<Rightarrow> request \<Rightarrow> 'a web_scheme \<Rightarrow> string" where
  "caller J jwtSecret r s = to_lower (jc_Address (auth_claims J jwtSecret r s))"

lemma on_resp_sel [simp]:
  "wb_resp (on_resp f s) = f (wb_resp s)" "wb_now (on_resp f s) = wb_now s" "wb_count (on_resp f s) = wb_count s"
  "wb_expiry (on_resp f s) = wb_expiry s" "wb_get_ok (on_resp f s) = wb_get_ok s" "wb_pipe_ok (on_resp f s) = wb_pipe_ok s"
  "redis_count k (on_resp f s) = redis_count k s"
  by (simp_all add: on_resp_def redis_count_def)

lemma redis_count_incr: "redis_count k (redis_incr_expire key window s) =
    (if k = key \<and> wb_pipe_ok s then (if 0 < window then redis_count key s + 1 else 0) else redis_count k s)"
  by (simp add: redis_incr_expire_def redis_count_def)

lemma redis_count_now: "redis_count k (s\<lparr>wb_now := t, wb_resp := w\<rparr>) = (if t < wb_expiry s k then wb_count s k else 0)"
    "redis_count k (s\<lparr>wb_now := t\<rparr>) = (if t < wb_expiry s k then wb_count s k else 0)"
  by (simp_all add: redis_count_def)

lemma redis_incr_sel [simp]:
  "wb_resp (redis_incr_expire key window s) = wb_resp s" "wb_now (redis_incr_expire key window s) = wb_now s"
  by (simp_all add: redis_incr_expire_def)

section \<open>The route of the events\<close>

text \<open>
  C18. The handler of the events runs exactly for a request with a valid token whose address has
  not reached the limit while Redis answers: it then runs once, sees the address of the token in
  lower case, and its result is counted. Every other request gets the same answer whatever the
  handler is - 401 without a valid token, 500 when Redis fails, 429 at the limit - and moves no
  counter.
\<close>

theorem events_route_guarded:
  "let a = caller J sec r s; r1 = r\<lparr>rq_address := Some a\<rparr> in
    if auth_ok J sec r s \<and> wb_get_ok s \<and> redis_count (limit_key a) s < 100000
    then events_route J sec h r s = count_success 100000 (3600 * second_ns) r1 s (h r1 (limit_enter 100000 r1 s))
    else events_route J sec h r s = events_route J sec h' r s \<and>
      wb_count (events_route J sec h r s) = wb_count s \<and> wb_expiry (events_route J sec h r s) = wb_expiry s \<and>
      rp_status (wb_resp (events_route J sec h r (s\<lparr>wb_resp := blank_resp\<rparr>))) =
        (if \<not> auth_ok J sec r s then 401 else if \<not> wb_get_ok s then 500 else 429)"
proof -
  let ?a = "caller J sec r s" and ?s = "s\<lparr>wb_resp := blank_resp\<rparr>" and ?w = "3600 * second_ns"
  let ?r1 = "r\<lparr>rq_address := Some ?a\<rparr>"
  let ?ok = "auth_ok J sec r s \<and> wb_get_ok s \<and> redis_count (limit_key ?a) s < 100000"
  have al: "(auth_ok J sec r s \<and> limit_ok 100000 ?r1 s) = ?ok" by (auto simp: limit_ok_def)
  have same: "auth_ok J sec r ?s = auth_ok J sec r s" "auth_claims J sec r ?s = auth_claims J sec r s"
    "limit_ok 100000 ?r1 ?s = limit_ok 100000 ?r1 s"
    by (simp_all add: auth_ok_def auth_claims_def limit_ok_def redis_count_def)
  show ?thesis
  proof (cases ?ok)
    case True
    then show ?thesis
      using events.chain.run [of J sec r s 100000 ?w h] al by (simp add: events_route_def Let_def caller_def)
  next
    case False
    then have n: "\<not> (auth_ok J sec r s \<and> limit_ok 100000 ?r1 s)" using al by blast
    have d: "events_route J sec g r x =
        (if auth_ok J sec r x then limit_deny 100000 ?w ?r1 x else auth_deny r x)" if "x = s \<or> x = ?s" for g x
      using events.chain.denied [of J sec r x 100000 ?w g] n that same
      by (auto simp: events_route_def caller_def)
    have deny: "wb_count (limit_deny 100000 ?w ?r1 x) = wb_count x" "wb_expiry (limit_deny 100000 ?w ?r1 x) = wb_expiry x"
      "wb_count (auth_deny r x) = wb_count x" "wb_expiry (auth_deny r x) = wb_expiry x" for x :: "'a web_scheme"
      by (simp_all add: limit_deny_def auth_deny_def too_many_def)
    have "rp_status (wb_resp (limit_deny 100000 ?w ?r1 ?s)) = (if wb_get_ok s then 429 else 500)"
      "rp_status (wb_resp (auth_deny r ?s)) = 401"
      by (simp_all add: limit_deny_def auth_deny_def too_many_def resp_simps)
    then show ?thesis using False d [of s h] d [of s h'] d [of ?s h] deny same
      by (auto simp: Let_def)
  qed
qed

section \<open>What is counted and what is told\<close>

text \<open>A handler that answers with a status and a body.\<close>

definition answers :: "nat \<Rightarrow> string \<Rightarrow> 'a http_handler" where
  "answers code body r = on_resp (\<lambda>w. http_Write body (http_WriteHeader code w))"

text \<open>
  Below the limit a successful answer moves the caller's counter by one and any other answer
  does not. But the success-based limit tells the client the remaining number before counting:
  the header it sends is one too high, because the correction after the request comes when the
  headers are already out. The plain limit sends the right number (and counts every request).
\<close>

theorem remaining_header_is_stale:
  assumes "limit_ok limit r s" and "wb_pipe_ok s" and "0 < window" and "wb_resp s = blank_resp"
    and "rq_address r = Some a" and "code \<noteq> 0"
  shows "let s' = successBasedRateLimitMiddleware limit window (answers code body) r s;
      s'' = rateLimitMiddleware limit window (answers code body) r s; count = redis_count (limit_key a) s in
    redis_count (limit_key a) s' = (if 200 \<le> code \<and> code < 300 then count + 1 else count)
    \<and> rp_sent (wb_resp s') ''X-RateLimit-Remaining'' = Some (fmt_d (limit - count))
    \<and> redis_count (limit_key a) s'' = count + 1
    \<and> rp_sent (wb_resp s'') ''X-RateLimit-Remaining'' = Some (fmt_d (limit - (count + 1)))
    \<and> rp_status (wb_resp s') = code \<and> rp_status (wb_resp s'') = code"
proof -
  have pipe: "wb_pipe_ok (limit_enter limit r s) = wb_pipe_ok s" "redis_count k (limit_enter limit r s) = redis_count k s" for k
    by (simp_all add: limit_enter_def)
  have r: "successBasedRateLimitMiddleware limit window (answers code body) r s =
      count_success limit window r s (answers code body r (limit_enter limit r s))"
    by (rule limited.run [OF assms(1)])
  have "limit_ok limit r s \<and> wb_pipe_ok s" using assms by blast
  note r' = counted.run [OF this, of window "answers code body"]
  show ?thesis
    unfolding Let_def r r'
    using assms(2-6)
    by (simp add: count_success_def answers_def limit_enter_def redis_count_incr resp_simps Let_def algebra_simps)
qed

definition sample_request :: request where
  "sample_request = \<lparr>rq_method = ''GET'', rq_headers = (\<lambda>_. []), rq_query = (\<lambda>_. []), rq_address = Some ''0xab''\<rparr>"

definition sample_web :: web where
  "sample_web = \<lparr>wb_resp = blank_resp, wb_now = 0, wb_count = (\<lambda>_. 0), wb_expiry = (\<lambda>_. 0), wb_get_ok = True,
     wb_pipe_ok = True\<rparr>"

theorem remaining_header_is_stale_witness:
  "rp_sent (wb_resp (successBasedRateLimitMiddleware 10 5 (answers 200 ''ok'') sample_request sample_web))
     ''X-RateLimit-Remaining'' = Some (fmt_d 10)"
  using remaining_header_is_stale [of 10 sample_request sample_web 5 "''0xab''" 200 "''ok''"]
  by (simp add: limit_ok_def sample_request_def sample_web_def redis_count_def Let_def)

section \<open>The window\<close>

text \<open>The same request, every \<open>d\<close> nanoseconds, each with a fresh response.\<close>

fun steady :: "int \<Rightarrow> int \<Rightarrow> int \<Rightarrow> request \<Rightarrow> int \<Rightarrow> nat \<Rightarrow> web \<Rightarrow> web" where
  "steady limit window d r t0 0 s = s"
| "steady limit window d r t0 (Suc k) s =
     successBasedRateLimitMiddleware limit window (answers 200 ''ok'') r
       ((steady limit window d r t0 k s)\<lparr>wb_now := t0 + int k * d, wb_resp := blank_resp\<rparr>)"

lemma steady_count:
  assumes "rq_address r = Some a" "0 < d" "d < window" "wb_get_ok s" "wb_pipe_ok s"
    and "redis_count (limit_key a) (s\<lparr>wb_now := t0\<rparr>) = 0" and "int k \<le> limit"
  shows "wb_get_ok (steady limit window d r t0 k s) \<and> wb_pipe_ok (steady limit window d r t0 k s) \<and>
    (0 < k \<longrightarrow> wb_count (steady limit window d r t0 k s) (limit_key a) = int k \<and>
      wb_expiry (steady limit window d r t0 k s) (limit_key a) = t0 + (int k - 1) * d + window)"
  using assms(7)
proof (induction k)
  case (Suc k)
  let ?s = "steady limit window d r t0 k s"
  let ?x = "?s\<lparr>wb_now := t0 + int k * d, wb_resp := blank_resp\<rparr>"
  have IH: "wb_get_ok ?s" "wb_pipe_ok ?s" "0 < k \<Longrightarrow> wb_count ?s (limit_key a) = int k"
    "0 < k \<Longrightarrow> wb_expiry ?s (limit_key a) = t0 + (int k - 1) * d + window"
    using Suc by auto
  have c: "redis_count (limit_key a) ?x = int k"
  proof (cases k)
    case 0
    then show ?thesis using assms(6) by (simp add: redis_count_now)
  next
    case (Suc j)
    have "t0 + int k * d < t0 + (int k - 1) * d + window" using assms(3) by (simp add: algebra_simps)
    then show ?thesis using IH(3,4) Suc by (simp add: redis_count_def)
  qed
  then have "limit_ok limit r ?x" using assms(1) IH(1) Suc.prems by (simp add: limit_ok_def)
  note r = limited.run [OF this, of window "answers 200 ''ok''"]
  have cx: "wb_count (redis_incr_expire k w y) = (if wb_pipe_ok y then (wb_count y)(k := redis_count k y + 1) else wb_count y)"
    "wb_expiry (redis_incr_expire k w y) = (if wb_pipe_ok y then (wb_expiry y)(k := wb_now y + w) else wb_expiry y)"
    "wb_get_ok (redis_incr_expire k w y) = wb_get_ok y" "wb_pipe_ok (redis_incr_expire k w y) = wb_pipe_ok y" for k w and y :: web
    by (simp_all add: redis_incr_expire_def)
  show ?case
    unfolding steady.simps r
    using IH(1,2) c assms(1)
    by (simp add: count_success_def answers_def limit_enter_def resp_simps Let_def cx)
qed (use assms(4,5) in simp)

text \<open>
  The limit is not a number of requests per window: each success renews the counter's expiry,
  so it only starts again after a whole window without a success. A client that sends one request
  every \<open>d\<close>, for any \<open>d\<close> below the window, is answered until the limit and refused at the next
  request, however few requests any one window holds.
\<close>

theorem limit_is_not_per_window:
  assumes "rq_address r = Some a" and "0 < d" and "d < window" and "wb_get_ok s" and "wb_pipe_ok s"
    and "redis_count (limit_key a) (s\<lparr>wb_now := t0\<rparr>) = 0" and "0 < n"
  shows "(\<forall>k < n. rp_status (wb_resp (steady (int n) window d r t0 (Suc k) s)) = 200)
    \<and> rp_status (wb_resp (steady (int n) window d r t0 (Suc n) s)) = 429"
proof -
  have ready: "redis_count (limit_key a) ((steady (int n) window d r t0 k s)\<lparr>wb_now := t0 + int k * d, wb_resp := blank_resp\<rparr>) = int k
      \<and> wb_get_ok (steady (int n) window d r t0 k s)" if "k \<le> n" for k
  proof (cases k)
    case 0
    then show ?thesis using assms(4,6) by (simp add: redis_count_now)
  next
    case (Suc j)
    have "t0 + int k * d < t0 + (int k - 1) * d + window" using assms(3) by (simp add: algebra_simps)
    then show ?thesis
      using steady_count [OF assms(1-6), of k "int n"] that Suc by (auto simp: redis_count_def)
  qed
  have "rp_status (wb_resp (steady (int n) window d r t0 (Suc k) s)) = 200" if "k < n" for k
  proof -
    have "limit_ok (int n) r ((steady (int n) window d r t0 k s)\<lparr>wb_now := t0 + int k * d, wb_resp := blank_resp\<rparr>)"
      using ready [of k] that assms(1) by (simp add: limit_ok_def)
    note r = limited.run [OF this, of window "answers 200 ''ok''"]
    show ?thesis unfolding steady.simps r
      by (simp add: count_success_def answers_def limit_enter_def resp_simps Let_def)
  qed
  moreover have "rp_status (wb_resp (steady (int n) window d r t0 (Suc n) s)) = 429"
  proof -
    have "\<not> limit_ok (int n) r ((steady (int n) window d r t0 n s)\<lparr>wb_now := t0 + int n * d, wb_resp := blank_resp\<rparr>)"
      using ready [of n] assms(1) by (simp add: limit_ok_def)
    note r = limited.denied [OF this, of window "answers 200 ''ok''"]
    show ?thesis unfolding steady.simps r
      using ready [of n] assms(1) by (simp add: limit_deny_def too_many_def resp_simps)
  qed
  ultimately show ?thesis by blast
qed

theorem limit_is_not_per_window_witness:
  "rp_status (wb_resp (steady 2 3600 1800 sample_request 0 3 sample_web)) = 429"
proof -
  have "redis_count (limit_key ''0xab'') (sample_web\<lparr>wb_now := 0\<rparr>) = 0"
    by (simp add: redis_count_def sample_web_def)
  from limit_is_not_per_window [of sample_request "''0xab''" 1800 3600 sample_web 0 2, OF _ _ _ _ _ this]
  show ?thesis by (simp add: sample_request_def sample_web_def numeral_3_eq_3)
qed

end
