(* ===== verification/Go_Json.thy ===== *)
theory Go_Json
  imports Go_Strconv
begin

text \<open>
  What \<open>json.NewEncoder(w).Encode\<close> writes for the values the service answers with: strings,
  numbers, lists and objects, with a line feed at the end. The keys of an object are listed in
  the order they are written: the order of the fields of a struct, sorted for a map. Strings are
  byte sequences in valid UTF-8 without the two line separators that Go escapes.
\<close>

datatype json = JNull | JStr string | JNum int | JArr "json list" | JObj "(string \<times> json) list"

definition json_hex4 :: "nat \<Rightarrow> string" where
  "json_hex4 n = ''u00'' @ [digit_char (n div 16), digit_char (n mod 16)]"

definition backslash :: char where
  "backslash = CHR 0x5C"

definition quote_char :: char where
  "quote_char = CHR 0x22"

definition json_char :: "char \<Rightarrow> string" where
  "json_char c = (let n = of_char c :: nat in
     if c = quote_char \<or> c = backslash then [backslash, c]
     else if n = 8 then [backslash, CHR ''b''] else if n = 9 then [backslash, CHR ''t'']
     else if n = 10 then [backslash, CHR ''n''] else if n = 12 then [backslash, CHR ''f'']
     else if n = 13 then [backslash, CHR ''r'']
     else if n < 32 \<or> c \<in> {CHR ''<'', CHR ''>'', CHR ''&''} then backslash # json_hex4 n
     else [c])"

definition json_string :: "string \<Rightarrow> string" where
  "json_string s = quote_char # concat (map json_char s) @ [quote_char]"

definition comma_sep :: "string list \<Rightarrow> string" where
  "comma_sep xs = (case xs of [] \<Rightarrow> [] | y # ys \<Rightarrow> y @ concat (map (\<lambda>z. CHR '','' # z) ys))"

fun json_text :: "json \<Rightarrow> string" where
  "json_text JNull = ''null''"
| "json_text (JStr s) = json_string s"
| "json_text (JNum i) = fmt_d i"
| "json_text (JArr xs) = ''['' @ comma_sep (map json_text xs) @ '']''"
| "json_text (JObj kvs) =
     CHR 0x7B # comma_sep (map (\<lambda>(k, v). json_string k @ CHR '':'' # json_text v) kvs) @ [CHR 0x7D]"

definition json_Encode :: "json \<Rightarrow> string" where
  "json_Encode j = json_text j @ [CHR 0x0A]"

end
