(* ===== verification/Contract_Api.thy ===== *)
theory Contract_Api
  imports Rate_Limit Worker Go_Json
begin

text \<open>
  \<open>internal/api/contract.go\<close> and the event query of \<open>pkg/grpc/server.go\<close>: registering a
  contract's events, listing contracts, querying events over HTTP and gRPC. The queries are the
  fields of a record; the locale \<open>contract_rows\<close> states what they promise, among it the two
  unique indexes of \<open>prisma/schema.prisma\<close>. The decoded request body is an argument.
\<close>

section \<open>The queries\<close>

datatype contract_filter = ChainIs int | AddressIs string | SignatureIs string | NameIs string

datatype event_filter = OfContract string | TxIs string

fun filter_holds :: "contract \<Rightarrow> contract_filter \<Rightarrow> bool" where
  "filter_holds c (ChainIs n) = (ct_ChainID c = n)"
| "filter_holds c (AddressIs a) = (ct_Address c = a)"
| "filter_holds c (SignatureIs s) = (ct_EventSignature c = s)"
| "filter_holds c (NameIs n) = (ct_EventName c = n)"

fun event_holds :: "event_row \<Rightarrow> event_filter \<Rightarrow> bool" where
  "event_holds e (OfContract i) = (er_ContractID e = i)"
| "event_holds e (TxIs t) = (er_TxHash e = t)"

definition matches :: "contract_filter list \<Rightarrow> contract \<Rightarrow> bool" where
  "matches fs c = list_all (filter_holds c) fs"

record 'db api_store =
  as_Create :: "contract \<Rightarrow> 'db \<Rightarrow> (db_error + contract) \<times> 'db"
  as_FindFirst :: "contract_filter list \<Rightarrow> 'db \<Rightarrow> db_error + contract"
  as_FindMany :: "contract_filter list \<Rightarrow> 'db \<Rightarrow> db_error + contract list"
  as_FindEvents :: "event_filter list \<Rightarrow> int \<Rightarrow> int \<Rightarrow> 'db \<Rightarrow> db_error + event_row list"
  as_contracts :: "'db \<Rightarrow> contract list"
  as_events :: "'db \<Rightarrow> event_row list"

text \<open>The two unique indexes: the same chain and address, and the same signature or name.\<close>

definition clash :: "contract \<Rightarrow> contract \<Rightarrow> bool" where
  "clash c d = (ct_ChainID c = ct_ChainID d \<and> ct_Address c = ct_Address d \<and>
     (ct_EventSignature c = ct_EventSignature d \<or> ct_EventName c = ct_EventName d))"

text \<open>
  A created row has the fields it was asked for and an id of its own, and clashes with no other;
  a refused one changes nothing. A query answers rows that satisfy its filters, \<open>FindFirst\<close>
  answers \<open>ErrNotFound\<close> only when there is none, \<open>FindMany\<close> answers all.
\<close>

locale contract_rows =
  fixes A :: "'db api_store"
  assumes create_ok: "as_Create A c db = (Inr ct, db') \<Longrightarrow>
      as_contracts A db' = as_contracts A db @ [ct] \<and> as_events A db' = as_events A db \<and>
      (\<exists>i. ct = c\<lparr>ct_ID := i\<rparr> \<and> i \<notin> ct_ID ` set (as_contracts A db)) \<and>
      (\<forall>d \<in> set (as_contracts A db). \<not> clash c d)"
    and create_err: "as_Create A c db = (Inl e, db') \<Longrightarrow> db' = db"
    and first_ok: "as_FindFirst A fs db = Inr ct \<Longrightarrow> ct \<in> set (as_contracts A db) \<and> matches fs ct"
    and first_none: "as_FindFirst A fs db = Inl ErrNotFound \<Longrightarrow> \<not> (\<exists>ct \<in> set (as_contracts A db). matches fs ct)"
    and many_ok: "as_FindMany A fs db = Inr cts \<Longrightarrow> cts = filter (matches fs) (as_contracts A db)"
    and events_ok: "as_FindEvents A efs skip n db = Inr rows \<Longrightarrow>
      set rows \<subseteq> {e \<in> set (as_events A db). list_all (event_holds e) efs} \<and> length rows \<le> nat n"
begin

text \<open>A row that clashes with a present one is refused, and nothing changes.\<close>

lemma clash_refused: "d \<in> set (as_contracts A db) \<Longrightarrow> clash c d \<Longrightarrow> \<exists>e. as_Create A c db = (Inl e, db)"
proof (cases "as_Create A c db")
  case (Pair r db')
  assume "d \<in> set (as_contracts A db)" "clash c d"
  then show ?thesis using Pair create_ok [of c db _ db'] create_err [of c db _ db'] by (cases r) auto
qed

end

section \<open>The state and the environment of the handlers\<close>

record ('x, 'db) api = web +
  ap_db :: 'db
  ap_clients :: "int \<rightharpoonup> ('x, 'db) client"
  ap_queue :: "(string \<times> backfill_payload) list"

text \<open>
  The configured chains, the task queue's answer, the text of a database error, and how the
  generated model types print: contracts, events with their contract, and the time of a row.
\<close>

record 'db api_env =
  av_chains :: "int \<Rightarrow> bool"
  av_geth :: geth
  av_store :: "'db api_store"
  av_enqueue :: "string \<Rightarrow> backfill_payload \<Rightarrow> (string \<times> backfill_payload) list \<Rightarrow> string option"
  av_err :: "db_error \<Rightarrow> string"
  av_contracts_json :: "contract list \<Rightarrow> json"
  av_events_json :: "'db \<Rightarrow> event_row list \<Rightarrow> json"
  av_contract_of :: "'db \<Rightarrow> event_row \<Rightarrow> contract"
  av_created :: "event_row \<Rightarrow> string"

definition fail_with :: "string \<Rightarrow> nat \<Rightarrow> ('x, 'db) api \<Rightarrow> ('x, 'db) api" where
  "fail_with msg code = on_resp (http_Error msg code)"

definition send_json :: "json \<Rightarrow> ('x, 'db) api \<Rightarrow> ('x, 'db) api" where
  "send_json j = on_resp (http_Write (json_Encode j))"

definition set_json_type :: "('x, 'db) api \<Rightarrow> ('x, 'db) api" where
  "set_json_type = on_resp (header_Set ''Content-Type'' ''application/json'')"

section \<open>Registering\<close>

record register_request =
  rr_ChainID :: int
  rr_ContractAddr :: string
  rr_EventSignatures :: "string list"
  rr_EventABI :: string
  rr_StartBlock :: int

text \<open>All signatures, with the names of the events, before anything is written.\<close>

fun parse_events :: "geth \<Rightarrow> string list \<Rightarrow> (string \<times> string) list res" where
  "parse_events G [] = Inr []"
| "parse_events G (sig # sigs) =
     bind_res (ParseEventSignature G sig) (\<lambda>eventSig.
       bind_res (ExtractEventName sig) (\<lambda>eventName.
         map_res ((#) (eventSig, eventName)) (parse_events G sigs)))"

definition wanted_row :: "register_request \<Rightarrow> string \<times> string \<Rightarrow> contract" where
  "wanted_row req e = \<lparr>ct_ID = [], ct_ChainID = rr_ChainID req, ct_Address = to_lower (rr_ContractAddr req),
     ct_EventName = snd e, ct_EventSignature = fst e, ct_EventABI = rr_EventABI req,
     ct_StartBlock = rr_StartBlock req\<rparr>"

text \<open>
  The ABI goes to the decoder of the chain's client when one is given; an error of the
  registration is only logged, a missing client (\<open>None\<close>) ends the request.
\<close>

definition register_abi :: "register_request \<Rightarrow> string \<Rightarrow> ('x, 'db) api \<Rightarrow> ('x, 'db) api option" where
  "register_abi req eventSig s =
     (if rr_EventABI req = [] then Some s
      else case ap_clients s (rr_ChainID req) of
          None \<Rightarrow> None
        | Some c \<Rightarrow> Some (s\<lparr>ap_clients := (ap_clients s)(rr_ChainID req \<mapsto>
            snd (RegisterEventABI eventSig (rr_EventABI req) c))\<rparr>))"

definition backfill_of :: "register_request \<Rightarrow> string \<Rightarrow> backfill_payload" where
  "backfill_of req eventSig = \<lparr>bp_ChainID = rr_ChainID req, bp_ContractAddr = rr_ContractAddr req,
     bp_EventSig = eventSig, bp_StartBlock = rr_StartBlock req\<rparr>"

definition TypeBackfill :: string where
  "TypeBackfill = ''backfill''"

text \<open>\<open>EnqueueTask\<close> of the worker: the task queue takes the task or answers an error.\<close>

definition EnqueueTask :: "'db api_env \<Rightarrow> string \<Rightarrow> backfill_payload \<Rightarrow> ('x, 'db) api \<Rightarrow> string option \<times> ('x, 'db) api" where
  "EnqueueTask E taskType p s =
     (case av_enqueue E taskType p (ap_queue s) of
        Some err \<Rightarrow> (Some (''failed to enqueue task: '' @ err), s)
      | None \<Rightarrow> (None, s\<lparr>ap_queue := ap_queue s @ [(taskType, p)]\<rparr>))"

fun register_events ::
  "'db api_env \<Rightarrow> register_request \<Rightarrow> (string \<times> string) list \<Rightarrow> string list \<Rightarrow> ('x, 'db) api \<Rightarrow> ('x, 'db) api" where
  "register_events E req [] ids s =
     send_json (JObj [(''ids'', JArr (map JStr ids))]) (set_json_type (on_resp (http_WriteHeader 201) s))"
| "register_events E req (e # es) ids s =
     (case as_Create (av_store E) (wanted_row req e) (ap_db s) of
        (Inl err, db) \<Rightarrow> fail_with (''Failed to create contract: '' @ av_err E err) 500 (s\<lparr>ap_db := db\<rparr>)
      | (Inr ct, db) \<Rightarrow>
          (case register_abi req (fst e) (s\<lparr>ap_db := db\<rparr>) of
             None \<Rightarrow> fail_with (''No Ethereum client found for chain ID '' @ fmt_d (rr_ChainID req)) 500 (s\<lparr>ap_db := db\<rparr>)
           | Some s1 \<Rightarrow>
               (case EnqueueTask E TypeBackfill (backfill_of req (fst e)) s1 of
                  (Some err, s2) \<Rightarrow> fail_with (''Failed to enqueue backfill task: '' @ err) 500 s2
                | (None, s2) \<Rightarrow> register_events E req es (ids @ [ct_ID ct]) s2)))"

definition api_RegisterContract ::
  "'db api_env \<Rightarrow> string + register_request \<Rightarrow> ('x, 'db) api \<Rightarrow> ('x, 'db) api" where
  "api_RegisterContract E body s =
     (case body of
        Inl err \<Rightarrow> fail_with ''Invalid request body'' 400 s
      | Inr req \<Rightarrow>
          if \<not> av_chains E (rr_ChainID req) then fail_with (''Unsupported chain ID: '' @ fmt_d (rr_ChainID req)) 400 s
          else if \<not> IsValidAddress (av_geth E) (rr_ContractAddr req)
            then fail_with ''Invalid contract address format'' 400 s
          else case parse_events (av_geth E) (rr_EventSignatures req) of
              Inl err \<Rightarrow> fail_with (''Invalid event signature format: '' @ err) 400 s
            | Inr es \<Rightarrow> register_events E req es [] s)"

section \<open>What a registration leaves\<close>

lemma on_resp_api [simp]:
  "ap_db (on_resp f s) = ap_db s" "ap_clients (on_resp f s) = ap_clients s" "ap_queue (on_resp f s) = ap_queue s"
  by (simp_all add: on_resp_def)

lemma api_sel [simp]:
  "ap_db (fail_with m c s) = ap_db s" "ap_queue (fail_with m c s) = ap_queue s"
  "ap_db (send_json j s) = ap_db s" "ap_queue (send_json j s) = ap_queue s"
  "ap_db (set_json_type s) = ap_db s" "ap_queue (set_json_type s) = ap_queue s"
  by (simp_all add: fail_with_def send_json_def set_json_type_def)

lemma fail_status [simp]: "rp_status (wb_resp s) = 0 \<Longrightarrow> 0 < code \<Longrightarrow> rp_status (wb_resp (fail_with msg code s)) = code"
  by (simp add: fail_with_def resp_simps)

lemma register_abi_sel:
  "register_abi req sig s = Some s1 \<Longrightarrow> ap_db s1 = ap_db s \<and> ap_queue s1 = ap_queue s \<and> wb_resp s1 = wb_resp s"
  by (auto simp: register_abi_def split: if_splits option.splits)

lemma EnqueueTask_cases:
  "EnqueueTask E ty p s = (Some err, s2) \<Longrightarrow> s2 = s"
  "EnqueueTask E ty p s = (None, s2) \<Longrightarrow> s2 = s\<lparr>ap_queue := ap_queue s @ [(ty, p)]\<rparr>"
  by (auto simp: EnqueueTask_def split: option.splits)

text \<open>The rows of some events of a request, in their order, each with an id.\<close>

definition rows_for :: "register_request \<Rightarrow> (string \<times> string) list \<Rightarrow> contract list \<Rightarrow> bool" where
  "rows_for req = list_all2 (\<lambda>e ct. \<exists>i. ct = (wanted_row req e)\<lparr>ct_ID := i\<rparr>)"

definition tasks_for :: "register_request \<Rightarrow> (string \<times> string) list \<Rightarrow> (string \<times> backfill_payload) list" where
  "tasks_for req = map (\<lambda>e. (TypeBackfill, backfill_of req (fst e)))"

lemma clash_ID [simp]: "clash c (d\<lparr>ct_ID := i\<rparr>) = clash c d"
  by (simp add: clash_def)

lemma clash_wanted: "clash (wanted_row req e) (wanted_row req d) = (fst e = fst d \<or> snd e = snd d)"
  by (simp add: clash_def wanted_row_def)

text \<open>
  What the loop over the events leaves: the rows of the first events, which clash with no row
  there was, and as many tasks, or one less. All events when it ends well.
\<close>

definition registered ::
  "'db api_env \<Rightarrow> register_request \<Rightarrow> (string \<times> string) list \<Rightarrow> string list \<Rightarrow> ('x, 'db) api \<Rightarrow> ('x, 'db) api \<Rightarrow> bool" where
  "registered E req es ids s s' =
     (\<exists>cts k. as_contracts (av_store E) (ap_db s') = as_contracts (av_store E) (ap_db s) @ cts \<and>
        as_events (av_store E) (ap_db s') = as_events (av_store E) (ap_db s) \<and>
        k \<le> length cts \<and> length cts \<le> Suc k \<and> k \<le> length es \<and>
        rows_for req (take (length cts) es) cts \<and>
        (\<forall>e \<in> set (take (length cts) es). \<forall>d \<in> set (as_contracts (av_store E) (ap_db s)). \<not> clash (wanted_row req e) d) \<and>
        distinct (map fst (take (length cts) es)) \<and> distinct (map snd (take (length cts) es)) \<and>
        ap_queue s' = ap_queue s @ tasks_for req (take k es) \<and>
        (if k = length es
         then rp_status (wb_resp s') = 201 \<and> rp_sent (wb_resp s') = rp_header (wb_resp s) \<and>
           rp_body (wb_resp s') = rp_body (wb_resp s) @ json_Encode (JObj [(''ids'', JArr (map JStr (ids @ map ct_ID cts)))]) \<and>
           length cts = k
         else rp_status (wb_resp s') = 500))"

lemma registered_stop:
  assumes "as_contracts (av_store E) (ap_db s') = as_contracts (av_store E) (ap_db s)"
    and "as_events (av_store E) (ap_db s') = as_events (av_store E) (ap_db s)"
    and "ap_queue s' = ap_queue s" and "rp_status (wb_resp s') = 500" and "es \<noteq> []"
  shows "registered E req es ids s s'"
  unfolding registered_def using assms by (intro exI [of _ "[]"] exI [of _ 0]) (simp add: rows_for_def tasks_for_def)

lemma registered_row:
  assumes "as_contracts (av_store E) (ap_db s') = as_contracts (av_store E) (ap_db s) @ [(wanted_row req e)\<lparr>ct_ID := i\<rparr>]"
    and "as_events (av_store E) (ap_db s') = as_events (av_store E) (ap_db s)"
    and "\<forall>d \<in> set (as_contracts (av_store E) (ap_db s)). \<not> clash (wanted_row req e) d"
    and "ap_queue s' = ap_queue s" and "rp_status (wb_resp s') = 500"
  shows "registered E req (e # es) ids s s'"
  unfolding registered_def using assms
  by (intro exI [of _ "[(wanted_row req e)\<lparr>ct_ID := i\<rparr>]"] exI [of _ 0]) (auto simp: rows_for_def tasks_for_def)

lemma registered_further:
  assumes "as_contracts (av_store E) (ap_db s1) = as_contracts (av_store E) (ap_db s) @ [(wanted_row req e)\<lparr>ct_ID := i\<rparr>]"
    and "as_events (av_store E) (ap_db s1) = as_events (av_store E) (ap_db s)"
    and "\<forall>d \<in> set (as_contracts (av_store E) (ap_db s)). \<not> clash (wanted_row req e) d"
    and "ap_queue s1 = ap_queue s @ [(TypeBackfill, backfill_of req (fst e))]" and "wb_resp s1 = wb_resp s"
    and "registered E req es (ids @ [i]) s1 s'"
  shows "registered E req (e # es) ids s s'"
proof -
  let ?ct = "(wanted_row req e)\<lparr>ct_ID := i\<rparr>"
  obtain cts k where K:
    "as_contracts (av_store E) (ap_db s') = as_contracts (av_store E) (ap_db s1) @ cts"
    "as_events (av_store E) (ap_db s') = as_events (av_store E) (ap_db s1)"
    "k \<le> length cts" "length cts \<le> Suc k" "k \<le> length es" "rows_for req (take (length cts) es) cts"
    "\<forall>e \<in> set (take (length cts) es). \<forall>d \<in> set (as_contracts (av_store E) (ap_db s1)). \<not> clash (wanted_row req e) d"
    "distinct (map fst (take (length cts) es))" "distinct (map snd (take (length cts) es))"
    "ap_queue s' = ap_queue s1 @ tasks_for req (take k es)"
    "if k = length es
     then rp_status (wb_resp s') = 201 \<and> rp_sent (wb_resp s') = rp_header (wb_resp s1) \<and>
       rp_body (wb_resp s') = rp_body (wb_resp s1) @ json_Encode (JObj [(''ids'', JArr (map JStr ((ids @ [i]) @ map ct_ID cts)))]) \<and>
       length cts = k
     else rp_status (wb_resp s') = 500"
    using assms(6) unfolding registered_def by blast
  have "\<forall>d \<in> set (take (length cts) es). fst d \<noteq> fst e \<and> snd d \<noteq> snd e"
    using K(7) assms(1) by (auto simp: clash_wanted)
  then have "fst e \<notin> fst ` set (take (length cts) es)" "snd e \<notin> snd ` set (take (length cts) es)" by force+
  then show ?thesis
    unfolding registered_def using K assms(1-5)
    by (intro exI [of _ "?ct # cts"] exI [of _ "Suc k"]) (auto simp: rows_for_def tasks_for_def)
qed

text \<open>One event: the loop stops, or goes on with the row and the task.\<close>

lemma register_event_cases:
  assumes "contract_rows (av_store E)" and "rp_status (wb_resp s) = 0"
  obtains (stops) "registered E req (e # es) ids s (register_events E req (e # es) ids s)"
  | (goes) i s2 where "register_events E req (e # es) ids s = register_events E req es (ids @ [i]) s2"
      "as_contracts (av_store E) (ap_db s2) = as_contracts (av_store E) (ap_db s) @ [(wanted_row req e)\<lparr>ct_ID := i\<rparr>]"
      "as_events (av_store E) (ap_db s2) = as_events (av_store E) (ap_db s)"
      "\<forall>d \<in> set (as_contracts (av_store E) (ap_db s)). \<not> clash (wanted_row req e) d"
      "ap_queue s2 = ap_queue s @ [(TypeBackfill, backfill_of req (fst e))]" "wb_resp s2 = wb_resp s"
proof (cases "as_Create (av_store E) (wanted_row req e) (ap_db s)")
  case (Pair r db)
  show ?thesis
  proof (cases r)
    case (Inl err)
    then have "db = ap_db s" using contract_rows.create_err [OF assms(1)] Pair by blast
    then show ?thesis using assms(2) Pair Inl by (intro stops registered_stop) simp_all
  next
    case (Inr ct)
    then have cr: "as_Create (av_store E) (wanted_row req e) (ap_db s) = (Inr ct, db)" using Pair by simp
    note C = contract_rows.create_ok [OF assms(1) cr]
    obtain i where ct: "ct = (wanted_row req e)\<lparr>ct_ID := i\<rparr>" using C by blast
    have rows: "as_contracts (av_store E) db = as_contracts (av_store E) (ap_db s) @ [(wanted_row req e)\<lparr>ct_ID := i\<rparr>]"
      using C ct by simp
    show ?thesis
    proof (cases "register_abi req (fst e) (s\<lparr>ap_db := db\<rparr>)")
      case None
      then show ?thesis using assms(2) C rows by (intro stops registered_row [where i = i]) (simp_all add: cr)
    next
      case abi: (Some s1)
      note s1 = register_abi_sel [OF abi]
      obtain oe s2 where q: "EnqueueTask E TypeBackfill (backfill_of req (fst e)) s1 = (oe, s2)" by fastforce
      show ?thesis
      proof (cases oe)
        case None
        then have s2: "s2 = s1\<lparr>ap_queue := ap_queue s1 @ [(TypeBackfill, backfill_of req (fst e))]\<rparr>"
          using EnqueueTask_cases(2) q by blast
        show ?thesis by (rule goes [of i s2]) (use None q C rows s1 in \<open>simp_all add: cr abi ct s2\<close>)
      next
        case (Some err)
        then have "s2 = s1" using EnqueueTask_cases(1) q by blast
        then show ?thesis using assms(2) C rows s1 q Some abi
          by (intro stops registered_row [where i = i]) (simp_all add: cr)
      qed
    qed
  qed
qed

lemma register_events_registered:
  assumes "contract_rows (av_store E)" and "rp_status (wb_resp s) = 0"
  shows "registered E req es ids s (register_events E req es ids s)"
  using assms(2)
proof (induction es arbitrary: ids s)
  case Nil
  then show ?case
    unfolding registered_def
    by (intro exI [of _ "[]"] exI [of _ 0])
      (simp add: rows_for_def tasks_for_def send_json_def set_json_type_def resp_simps)
next
  case (Cons e es)
  show ?case
  proof (cases rule: register_event_cases [OF assms(1) Cons.prems, of req e es ids])
    case (2 i s2)
    have "registered E req es (ids @ [i]) s2 (register_events E req es (ids @ [i]) s2)"
      by (rule Cons.IH) (use 2 Cons.prems in simp)
    then show ?thesis unfolding 2(1) by (rule registered_further [OF 2(2-6)])
  qed
qed

text \<open>The whole request: it is refused before anything is written, or the loop runs.\<close>

lemma registration_cases:
  fixes s :: "('x, 'db) api"
  assumes "rp_status (wb_resp s) = 0"
  obtains (refused) "rp_status (wb_resp (api_RegisterContract E body s)) = 400"
      "ap_db (api_RegisterContract E body s) = ap_db s" "ap_queue (api_RegisterContract E body s) = ap_queue s"
  | (runs) req es where "body = Inr req" "parse_events (av_geth E) (rr_EventSignatures req) = Inr es"
      "av_chains E (rr_ChainID req)" "IsValidAddress (av_geth E) (rr_ContractAddr req)"
      "\<And>t :: ('x, 'db) api. api_RegisterContract E body t = register_events E req es [] t"
proof (cases "\<exists>req es. body = Inr req \<and> parse_events (av_geth E) (rr_EventSignatures req) = Inr es \<and>
    av_chains E (rr_ChainID req) \<and> IsValidAddress (av_geth E) (rr_ContractAddr req)")
  case True
  then show ?thesis using runs by (force simp: api_RegisterContract_def)
next
  case False
  then have "\<exists>msg. api_RegisterContract E body s = fail_with msg 400 s"
    by (cases body) (auto simp: api_RegisterContract_def split: sum.split)
  then show ?thesis using refused assms by fastforce
qed

text \<open>
  C11. A registration answers 201, 400 or 500. With 400 (a body, chain, address or signature that
  is refused) nothing has been written. With 201 there is one new row per signature, in the
  order given, with the lower-case address and the parsed signature and name, one backfill task
  per row, and the answer lists the ids; no two signatures have the same hash or event name. With
  500 the rows and tasks of some first part of the signatures stay: at most one row more than
  tasks. The content type set after the status is not part of the answer's headers.
\<close>

theorem registration_outcome:
  assumes "contract_rows (av_store E)" and "rp_status (wb_resp s) = 0" and "s' = api_RegisterContract E body s"
  shows "(rp_status (wb_resp s') = 400 \<and> ap_db s' = ap_db s \<and> ap_queue s' = ap_queue s) \<or>
    (\<exists>req es cts k. body = Inr req \<and> parse_events (av_geth E) (rr_EventSignatures req) = Inr es \<and>
      as_contracts (av_store E) (ap_db s') = as_contracts (av_store E) (ap_db s) @ cts \<and>
      rows_for req (take (length cts) es) cts \<and> ap_queue s' = ap_queue s @ tasks_for req (take k es) \<and>
      (rp_status (wb_resp s') = 201 \<and> k = length es \<and> length cts = k \<and> distinct (map fst es) \<and> distinct (map snd es) \<and>
         rp_sent (wb_resp s') = rp_header (wb_resp s) \<and>
         rp_body (wb_resp s') = rp_body (wb_resp s) @ json_Encode (JObj [(''ids'', JArr (map (JStr \<circ> ct_ID) cts))])
       \<or> rp_status (wb_resp s') = 500 \<and> k < length es \<and> (length cts = k \<or> length cts = Suc k)))"
proof (cases rule: registration_cases [OF assms(2), of E body])
  case 1
  then show ?thesis using assms(3) by simp
next
  case (2 req es)
  have "registered E req es [] s s'"
    using register_events_registered [OF assms(1,2)] 2(5) assms(3) by simp
  then obtain cts k where K:
    "as_contracts (av_store E) (ap_db s') = as_contracts (av_store E) (ap_db s) @ cts"
    "k \<le> length cts" "length cts \<le> Suc k" "k \<le> length es" "rows_for req (take (length cts) es) cts"
    "distinct (map fst (take (length cts) es))" "distinct (map snd (take (length cts) es))"
    "ap_queue s' = ap_queue s @ tasks_for req (take k es)"
    "if k = length es
     then rp_status (wb_resp s') = 201 \<and> rp_sent (wb_resp s') = rp_header (wb_resp s) \<and>
       rp_body (wb_resp s') = rp_body (wb_resp s) @ json_Encode (JObj [(''ids'', JArr (map JStr ([] @ map ct_ID cts)))]) \<and>
       length cts = k
     else rp_status (wb_resp s') = 500"
    unfolding registered_def by blast
  then show ?thesis using 2(1,2)
    by (intro disjI2 exI [of _ req] exI [of _ es] exI [of _ cts] exI [of _ k])
      (auto split: if_splits)
qed

section \<open>The tables as lists\<close>

definition fresh_id :: "contract list \<Rightarrow> string" where
  "fresh_id cs = CHR ''c'' # concat (map ct_ID cs)"

definition table_api :: "tables api_store" where
  "table_api = \<lparr>
     as_Create = (\<lambda>c (cs, rows). if list_ex (clash c) cs then (Inl (DbError ''unique constraint''), (cs, rows))
       else let ct = c\<lparr>ct_ID := fresh_id cs\<rparr> in (Inr ct, (cs @ [ct], rows))),
     as_FindFirst = (\<lambda>fs (cs, rows). first_row (matches fs) cs),
     as_FindMany = (\<lambda>fs (cs, rows). Inr (filter (matches fs) cs)),
     as_FindEvents = (\<lambda>fs skip n (cs, rows).
       Inr (take (nat n) (drop (nat skip) (rev (sort_key er_BlockNumber (filter (\<lambda>e. list_all (event_holds e) fs) rows)))))),
     as_contracts = fst, as_events = snd\<rparr>"

lemma fresh_id_new: "fresh_id cs \<notin> ct_ID ` set cs"
proof
  assume "fresh_id cs \<in> ct_ID ` set cs"
  then obtain c where c: "c \<in> set cs" "ct_ID c = fresh_id cs" by auto
  have "length (ct_ID c) \<le> sum_list (map length (map ct_ID cs))"
    using c(1) by (intro member_le_sum_list) auto
  then show False using c(2) by (simp add: fresh_id_def length_concat)
qed

lemma first_row_Inr: "first_row P xs = Inr x \<Longrightarrow> x \<in> set xs \<and> P x"
  by (auto simp: first_row_def find_Some_iff split: option.splits)

lemma first_row_Inl: "first_row P xs = Inl e \<Longrightarrow> \<not> (\<exists>x \<in> set xs. P x)"
  by (auto simp: first_row_def find_None_iff split: option.splits)

interpretation tables: contract_rows table_api
proof
  show "as_Create table_api c db = (Inr ct, db') \<Longrightarrow>
      as_contracts table_api db' = as_contracts table_api db @ [ct] \<and> as_events table_api db' = as_events table_api db \<and>
      (\<exists>i. ct = c\<lparr>ct_ID := i\<rparr> \<and> i \<notin> ct_ID ` set (as_contracts table_api db)) \<and>
      (\<forall>d \<in> set (as_contracts table_api db). \<not> clash c d)" for c db ct db'
    using fresh_id_new by (cases db) (fastforce simp: table_api_def Let_def list_ex_iff split: if_splits)
  show "as_Create table_api c db = (Inl e, db') \<Longrightarrow> db' = db" for c db e db'
    by (cases db) (auto simp: table_api_def Let_def split: if_splits)
  show "as_FindFirst table_api fs db = Inr ct \<Longrightarrow> ct \<in> set (as_contracts table_api db) \<and> matches fs ct" for fs db ct
    by (cases db) (auto simp: table_api_def dest: first_row_Inr)
  show "as_FindFirst table_api fs db = Inl ErrNotFound \<Longrightarrow> \<not> (\<exists>ct \<in> set (as_contracts table_api db). matches fs ct)" for fs db
    by (cases db) (auto simp: table_api_def dest: first_row_Inl)
  show "as_FindMany table_api fs db = Inr cts \<Longrightarrow> cts = filter (matches fs) (as_contracts table_api db)" for fs db cts
    by (cases db) (auto simp: table_api_def)
  show "as_FindEvents table_api efs skip n db = Inr rows \<Longrightarrow>
      set rows \<subseteq> {e \<in> set (as_events table_api db). list_all (event_holds e) efs} \<and> length rows \<le> nat n" for efs skip n db rows
    by (cases db) (auto simp: table_api_def dest!: in_set_takeD in_set_dropD)
qed

text \<open>Functions that are quick to evaluate: a hash prints as its length.\<close>

definition short_geth :: geth where
  "short_geth = sample_geth\<lparr>g_IsHexAddress := \<lambda>s. True, g_Keccak256Hash := \<lambda>b. b,
     g_HashHex := \<lambda>b. fmt_d (int (length b))\<rparr>"

definition sample_env :: "tables api_env" where
  "sample_env = \<lparr>av_chains = (\<lambda>n. n = 39), av_geth = short_geth, av_store = table_api,
     av_enqueue = (\<lambda>ty p q. if length q < 2 then None else Some ''queue full''), av_err = (\<lambda>e. ''error''),
     av_contracts_json = (\<lambda>cs. JArr (map (JStr \<circ> ct_ID) cs)), av_events_json = (\<lambda>db es. JArr (map (JStr \<circ> er_ID) es)),
     av_contract_of = (\<lambda>db e. hd (fst db)), av_created = (\<lambda>e. [])\<rparr>"

definition sample_api :: "(unit, tables) api" where
  "sample_api = \<lparr>wb_resp = blank_resp, wb_now = 0, wb_count = \<lambda>_. 0, wb_expiry = \<lambda>_. 0, wb_get_ok = True, wb_pipe_ok = True,
     ap_db = ([], []), ap_clients = Map.empty, ap_queue = []\<rparr>"

definition sample_registration :: "string \<Rightarrow> string list \<Rightarrow> register_request" where
  "sample_registration a sigs = \<lparr>rr_ChainID = 39, rr_ContractAddr = a, rr_EventSignatures = sigs,
     rr_EventABI = [], rr_StartBlock = 10\<rparr>"

lemma sample_api_sel [simp]:
  "av_store sample_env = table_api" "av_geth sample_env = short_geth" "av_chains sample_env n = (n = 39)"
  "rp_status (wb_resp sample_api) = 0" "ap_db sample_api = ([], [])" "ap_queue sample_api = []"
  by (simp_all add: sample_env_def sample_api_def blank_resp_def)

lemma sample_sigs:
  "canonical_sig ''A(address)'' = Inr ''A(address)''" "canonical_sig ''BB(address)'' = Inr ''BB(address)''"
  "canonical_sig ''A(uint256)'' = Inr ''A(uint256)''"
  "ExtractEventName ''A(address)'' = Inr ''A''" "ExtractEventName ''BB(address)'' = Inr ''BB''"
  "ExtractEventName ''A(uint256)'' = Inr ''A''"
  by code_simp+

lemma short_sigs:
  "parse_events short_geth [''A(address)'', ''BB(address)''] = Inr [(fmt_d 10, ''A''), (fmt_d 11, ''BB'')]"
  "parse_events short_geth [''A(address)'', ''A(uint256)''] = Inr [(fmt_d 10, ''A''), (fmt_d 10, ''A'')]"
  "parse_events short_geth [''A(address)''] = Inr [(fmt_d 10, ''A'')]"
  by (simp_all add: ParseEventSignature_def sample_sigs short_geth_def ascii_bytes_def)

lemma sample_registration_runs:
  assumes "parse_events short_geth sigs = Inr es"
  shows "api_RegisterContract sample_env (Inr (sample_registration a sigs)) s =
    register_events sample_env (sample_registration a sigs) es [] s"
  using assms by (simp add: api_RegisterContract_def sample_registration_def IsValidAddress_def short_geth_def)

lemma sample_registered_two: "rp_status (wb_resp (api_RegisterContract sample_env
    (Inr (sample_registration ''0xAb'' [''A(address)'', ''BB(address)''])) sample_api)) = 201"
  unfolding sample_registration_runs [OF short_sigs(1)] by code_simp

theorem registration_outcome_witness:
  "\<exists>es cts. parse_events short_geth [''A(address)'', ''BB(address)''] = Inr es \<and> distinct (map snd es) \<and>
    as_contracts table_api (ap_db (api_RegisterContract sample_env
      (Inr (sample_registration ''0xAb'' [''A(address)'', ''BB(address)''])) sample_api)) = cts \<and> length cts = length es"
  using registration_outcome [of sample_env sample_api _ "Inr (sample_registration ''0xAb'' [''A(address)'', ''BB(address)''])", OF _ _ refl]
    sample_registered_two tables.contract_rows_axioms
  by (auto simp: table_api_def sample_registration_def)

section \<open>A registration that failed halfway\<close>

text \<open>
  A request that failed after it had created a row can never be completed by sending it
  again: its first signature is refused by the unique index, whatever has been added since, and
  nothing is written and no task is enqueued for the signatures that are still missing.
\<close>

theorem failed_registration_is_stuck:
  fixes s t :: "('x, 'db) api"
  assumes "contract_rows (av_store E)" and "rp_status (wb_resp s) = 0" and "s' = api_RegisterContract E body s"
    and "rp_status (wb_resp s') = 500" and "as_contracts (av_store E) (ap_db s') \<noteq> as_contracts (av_store E) (ap_db s)"
    and "rp_status (wb_resp t) = 0" and "set (as_contracts (av_store E) (ap_db s')) \<subseteq> set (as_contracts (av_store E) (ap_db t))"
  shows "rp_status (wb_resp (api_RegisterContract E body t)) = 500 \<and> ap_db (api_RegisterContract E body t) = ap_db t \<and>
    ap_queue (api_RegisterContract E body t) = ap_queue t"
proof (cases rule: registration_cases [OF assms(2), of E body])
  case 1
  then show ?thesis using assms(3,4) by simp
next
  case (2 req es)
  have "registered E req es [] s s'"
    using register_events_registered [OF assms(1,2)] 2(5) assms(3) by simp
  then obtain cts where cts: "as_contracts (av_store E) (ap_db s') = as_contracts (av_store E) (ap_db s) @ cts"
    "rows_for req (take (length cts) es) cts"
    unfolding registered_def by blast
  then obtain ct cts' where "cts = ct # cts'" using assms(5) by (cases cts) auto
  then obtain e es' i where e: "es = e # es'" "ct = (wanted_row req e)\<lparr>ct_ID := i\<rparr>"
    using cts(2) by (cases es) (auto simp: rows_for_def)
  have "ct \<in> set (as_contracts (av_store E) (ap_db t))" using assms(7) cts(1) \<open>cts = ct # cts'\<close> by auto
  moreover have "clash (wanted_row req e) ct" by (simp add: e clash_wanted)
  ultimately obtain err where "as_Create (av_store E) (wanted_row req e) (ap_db t) = (Inl err, ap_db t)"
    using contract_rows.clash_refused [OF assms(1)] by blast
  then show ?thesis using 2(5) [of t] assms(6) by (simp add: e(1))
qed

lemma sample_overloaded_fails: "rp_status (wb_resp (api_RegisterContract sample_env
    (Inr (sample_registration ''0xAb'' [''A(address)'', ''A(uint256)''])) sample_api)) = 500"
  unfolding sample_registration_runs [OF short_sigs(2)] by code_simp

lemma sample_overloaded_row: "length (as_contracts table_api (ap_db (api_RegisterContract sample_env
    (Inr (sample_registration ''0xAb'' [''A(address)'', ''A(uint256)''])) sample_api))) = 1"
  unfolding sample_registration_runs [OF short_sigs(2)] by code_simp

theorem failed_registration_is_stuck_witness:
  "let s' = api_RegisterContract sample_env (Inr (sample_registration ''0xAb'' [''A(address)'', ''A(uint256)''])) sample_api
   in rp_status (wb_resp (api_RegisterContract sample_env (Inr (sample_registration ''0xAb'' [''A(address)'', ''A(uint256)'']))
       (s'\<lparr>wb_resp := blank_resp\<rparr>))) = 500"
proof -
  let ?b = "Inr (sample_registration ''0xAb'' [''A(address)'', ''A(uint256)''])"
  let ?s' = "api_RegisterContract sample_env ?b sample_api"
  have "as_contracts table_api (ap_db ?s') \<noteq> as_contracts table_api (ap_db sample_api)"
    using sample_overloaded_row by (auto simp: table_api_def)
  then show ?thesis
    using failed_registration_is_stuck [of sample_env sample_api ?s' ?b "?s'\<lparr>wb_resp := blank_resp\<rparr>"]
      sample_overloaded_fails tables.contract_rows_axioms
    by (simp add: Let_def blank_resp_def)
qed

section \<open>Addresses without a prefix\<close>

lemma stored_addresses:
  assumes "registered E req es ids s s'" and "ct \<in> set (as_contracts (av_store E) (ap_db s'))"
  shows "ct \<in> set (as_contracts (av_store E) (ap_db s)) \<or> ct_Address ct = to_lower (rr_ContractAddr req)"
proof -
  obtain cts where cts: "as_contracts (av_store E) (ap_db s') = as_contracts (av_store E) (ap_db s) @ cts"
    "rows_for req (take (length cts) es) cts"
    using assms(1) unfolding registered_def by blast
  show ?thesis
  proof (cases "ct \<in> set cts")
    case True
    then obtain j where "j < length cts" "ct = cts ! j" by (auto simp: in_set_conv_nth)
    obtain i where "ct = (wanted_row req (take (length cts) es ! j))\<lparr>ct_ID := i\<rparr>"
      using list_all2_nthD2 [OF cts(2) [unfolded rows_for_def] \<open>j < length cts\<close>] \<open>ct = cts ! j\<close> by blast
    then show ?thesis by (simp add: wanted_row_def)
  qed (use assms(2) cts(1) in auto)
qed

text \<open>A client whose \<open>FindUnique\<close> reads the rows the API writes.\<close>

definition reads_rows :: "'db api_store \<Rightarrow> 'db store \<Rightarrow> bool" where
  "reads_rows A S = (\<forall>ch a sg db ct. st_FindContract S ch a sg db = Inr ct \<longrightarrow>
     ct \<in> set (as_contracts A db) \<and> ct_ChainID ct = ch \<and> ct_Address ct = a \<and> ct_EventSignature ct = sg)"

lemma lookup_fails_silently:
  assumes "\<not> is_ok (st_FindContract (cl_store c) chain (to_lower (g_AddressHex (cl_geth c) addr))
    (g_HashHex (cl_geth c) sig) (cs_db st))"
  shows "process_logs c addr sig chain logs st cache =
    Goes (replicate (length logs) (LogError ''error finding contract''), st)"
proof -
  obtain err where "st_FindContract (cl_store c) chain (to_lower (g_AddressHex (cl_geth c) addr))
      (g_HashHex (cl_geth c) sig) (cs_db st) = Inl err"
    using assms by (cases "st_FindContract (cl_store c) chain (to_lower (g_AddressHex (cl_geth c) addr))
      (g_HashHex (cl_geth c) sig) (cs_db st)") auto
  then have "processEventLog c addr sig chain l st cache = Goes (LogError ''error finding contract'', st, cache)" for l
    by (simp add: processEventLog_def contract_key_def)
  then show ?thesis by (induction logs) auto
qed

lemma FilterLogs_fails_silently:
  assumes "\<not> is_ok (st_FindContract (cl_store c) chain (to_lower (g_AddressHex (cl_geth c) addr))
    (g_HashHex (cl_geth c) sig) (cs_db st))"
  shows "FilterLogs c node addr sig fromBlock toBlock chain st =
    (case node \<lparr>fq_FromBlock = fromBlock, fq_ToBlock = toBlock, fq_Addresses = [addr], fq_Topics = [[sig]]\<rparr> of
       Inl err \<Rightarrow> Goes (Inl (''failed to filter logs: '' @ err), st)
     | Inr logs \<Rightarrow> Goes (Inr logs, st))"
  using lookup_fails_silently [OF assms] by (simp add: FilterLogs_def split: sum.split)

text \<open>
  An address is accepted without its \<open>0x\<close>, and then stored without it; so no row is found by the
  printed address, which has the prefix, unless it was registered before.
\<close>

lemma unprefixed_not_found:
  assumes "contract_rows (av_store E)" and "reads_rows (av_store E) (cl_store c)" and "geth_ok (cl_geth c)"
    and "rp_status (wb_resp s) = 0" and "\<not> has_prefix (to_lower (rr_ContractAddr req)) ''0x''"
    and "\<forall>ct \<in> set (as_contracts (av_store E) (ap_db s)). ct_Address ct \<noteq> to_lower (g_AddressHex (cl_geth c) addr)"
  shows "\<not> is_ok (st_FindContract (cl_store c) chain (to_lower (g_AddressHex (cl_geth c) addr)) sg
    (ap_db (api_RegisterContract E (Inr req) s)))"
proof -
  let ?a = "to_lower (g_AddressHex (cl_geth c) addr)" and ?db = "ap_db (api_RegisterContract E (Inr req) s)"
  have pre: "has_prefix ?a ''0x''" using geth_okD(4) [OF assms(3), of addr] by (simp add: has_prefix_def)
  have "ct_Address ct \<noteq> ?a" if "ct \<in> set (as_contracts (av_store E) ?db)" for ct
  proof (cases rule: registration_cases [OF assms(4), of E "Inr req"])
    case 1
    then show ?thesis using that assms(6) by simp
  next
    case (2 req' es)
    have "registered E req es [] s (api_RegisterContract E (Inr req) s)"
      using register_events_registered [OF assms(1,4)] 2(1,5) by simp
    then show ?thesis using stored_addresses that assms(5,6) pre by metis
  qed
  then show ?thesis using assms(2) by (fastforce simp: reads_rows_def is_ok_iff)
qed

definition unprefixed_request :: register_request where
  "unprefixed_request = sample_registration (hex_encode (replicate 20 1)) [''A(address)'']"

lemma unprefixed_accepted: "rp_status (wb_resp (api_RegisterContract sample_env (Inr unprefixed_request) sample_api)) = 201"
  unfolding unprefixed_request_def sample_registration_runs [OF short_sigs(3)]
  by (simp add: sample_registration_def sample_env_def sample_api_def table_api_def register_abi_def EnqueueTask_def
      send_json_def set_json_type_def resp_simps Let_def)

lemma unprefixed_addr: "HexToAddress sample_geth (rr_ContractAddr unprefixed_request) = replicate 20 1"
proof -
  have "\<not> has_prefix (hex_encode (replicate 20 1)) ''0x''" by code_simp
  moreover have "g_HexToAddress sample_geth (''0x'' @ hex_encode (replicate 20 1)) = replicate 20 1"
    using sample_geth_ok lower_hex_EncodeToHex [of "replicate 20 1"] by (simp add: geth_ok_def hex_EncodeToHex_def)
  ultimately show ?thesis by (simp add: HexToAddress_def unprefixed_request_def sample_registration_def)
qed

lemma tables_read: "reads_rows table_api table_store"
  by (auto simp: reads_rows_def table_store_def table_api_def dest: first_row_Inr)

end
