(* ===== verification/Api_Queries.thy ===== *)
theory Api_Queries
  imports Contract_Api
begin

text \<open>
  The queries of \<open>internal/api/contract.go\<close>, the routes of \<open>internal/api/server.go\<close> and the event
  query of \<open>pkg/grpc/server.go\<close>, over the state and the environment of \<open>Contract_Api\<close>.
\<close>

section \<open>Contracts\<close>

text \<open>A numeric parameter: the default when it is missing, nothing when it is refused.\<close>

definition int_param :: "string \<Rightarrow> int \<Rightarrow> (int \<Rightarrow> bool) \<Rightarrow> int option" where
  "int_param str def ok =
     (if str = [] then Some def
      else case atoi str of Inl err \<Rightarrow> None | Inr t \<Rightarrow> if ok t then Some t else None)"

definition api_GetContracts :: "'db api_env \<Rightarrow> request \<Rightarrow> ('x, 'db) api \<Rightarrow> ('x, 'db) api" where
  "api_GetContracts E r s =
     (let chainIDStr = rq_query r ''chainId''; address = rq_query r ''address''; eventSig = rq_query r ''eventSignature'';
          others = (if address \<noteq> [] then [AddressIs address] else []) @ (if eventSig \<noteq> [] then [SignatureIs eventSig] else []);
          answer = (\<lambda>filters. case as_FindMany (av_store E) filters (ap_db s) of
              Inl err \<Rightarrow> fail_with (''Failed to fetch contracts: '' @ av_err E err) 500 s
            | Inr contracts \<Rightarrow> send_json (av_contracts_json E contracts) (set_json_type s))
      in if chainIDStr = [] then answer others
         else case atoi chainIDStr of
             Inl err \<Rightarrow> fail_with ''Invalid chain ID'' 400 s
           | Inr chainID \<Rightarrow> answer (ChainIs chainID # others))"

section \<open>Events over HTTP\<close>

definition contract_filters :: "int \<Rightarrow> string \<Rightarrow> contract_filter list" where
  "contract_filters chainId contractAddress = [ChainIs chainId, AddressIs (to_lower contractAddress)]"

definition event_filters :: "contract \<Rightarrow> string \<Rightarrow> event_filter list" where
  "event_filters ct txHash = OfContract (ct_ID ct) # (if txHash \<noteq> [] then [TxIs (to_lower txHash)] else [])"

definition page_json :: "json \<Rightarrow> int \<Rightarrow> int \<Rightarrow> json" where
  "page_json data skip take' = JObj [(''data'', data), (''pagination'', JObj [(''skip'', JNum skip), (''take'', JNum take')])]"

definition api_GetEvents :: "'db api_env \<Rightarrow> request \<Rightarrow> ('x, 'db) api \<Rightarrow> ('x, 'db) api" where
  "api_GetEvents E r s =
     (if rq_query r ''contractAddress'' = [] then fail_with ''contractAddress is required'' 400 s
      else case int_param (rq_query r ''chainId'') 39 (\<lambda>c. True) of
        None \<Rightarrow> fail_with ''invalid chainId parameter'' 400 s
      | Some chainId \<Rightarrow> (case int_param (rq_query r ''take'') 10 (\<lambda>t. t > 0) of
          None \<Rightarrow> fail_with ''invalid page parameter'' 400 s
        | Some take' \<Rightarrow> (case int_param (rq_query r ''skip'') 0 (\<lambda>n. n \<ge> 0) of
            None \<Rightarrow> fail_with ''invalid skip parameter'' 400 s
          | Some skip \<Rightarrow>
              (case as_FindFirst (av_store E) (contract_filters chainId (rq_query r ''contractAddress'')) (ap_db s) of
                 Inl err \<Rightarrow> fail_with (''Failed to find contract: '' @ av_err E err) 500 s
               | Inr ct \<Rightarrow>
                   (case as_FindEvents (av_store E) (event_filters ct (rq_query r ''txHash'')) skip take' (ap_db s) of
                      Inl err \<Rightarrow> fail_with (''Failed to query events: '' @ av_err E err) 500 s
                    | Inr events \<Rightarrow> send_json (page_json (av_events_json E (ap_db s) events) skip take')
                        (on_resp (http_WriteHeader 200) (set_json_type s)))))))"

section \<open>Events over gRPC\<close>

record events_request =
  ge_ChainId :: int
  ge_ContractAddress :: string
  ge_TxHash :: string
  ge_Take :: int
  ge_Skip :: int

record event_data =
  ed_Id :: string
  ed_ContractAddress :: string
  ed_BlockNumber :: int
  ed_TxHash :: string
  ed_LogIndex :: int
  ed_Data :: string
  ed_CreatedAt :: string

record events_response =
  gr_Data :: "event_data list"
  gr_Skip :: int
  gr_Take :: int

definition event_data_of :: "'db api_env \<Rightarrow> 'db \<Rightarrow> event_row \<Rightarrow> event_data" where
  "event_data_of E db event =
     \<lparr>ed_Id = er_ID event, ed_ContractAddress = ct_Address (av_contract_of E db event),
      ed_BlockNumber = er_BlockNumber event, ed_TxHash = er_TxHash event,
      ed_LogIndex = int32_wrap (er_LogIndex event), ed_Data = er_Data event, ed_CreatedAt = av_created E event\<rparr>"

text \<open>The parameters, and the rows found with them.\<close>

definition grpc_params :: "events_request \<Rightarrow> int \<times> int \<times> int" where
  "grpc_params req =
     (if ge_ChainId req \<noteq> 0 then ge_ChainId req else 39,
      if ge_Take req > 0 then ge_Take req else 10,
      if ge_Skip req > 0 then ge_Skip req else 0)"

definition grpc_rows :: "'db api_env \<Rightarrow> 'db \<Rightarrow> events_request \<Rightarrow> event_row list res" where
  "grpc_rows E db req =
     (let (chainId, take', skip) = grpc_params req in
      case as_FindFirst (av_store E) (contract_filters chainId (ge_ContractAddress req)) db of
        Inl err \<Rightarrow> Inl (''failed to find contract: '' @ av_err E err)
      | Inr ct \<Rightarrow>
          (case as_FindEvents (av_store E) (event_filters ct (ge_TxHash req)) skip take' db of
             Inl err \<Rightarrow> Inl (''failed to query events: '' @ av_err E err)
           | Inr events \<Rightarrow> Inr events))"

definition grpc_GetEvents :: "'db api_env \<Rightarrow> 'db \<Rightarrow> events_request \<Rightarrow> events_response res" where
  "grpc_GetEvents E db req =
     (if ge_ContractAddress req = [] then Inl ''contractAddress is required''
      else let (chainId, take', skip) = grpc_params req in
        map_res (\<lambda>events. \<lparr>gr_Data = map (event_data_of E db) events, gr_Skip = int32_wrap skip, gr_Take = int32_wrap take'\<rparr>)
          (grpc_rows E db req))"

section \<open>Routes\<close>

definition bool_text :: "bool \<Rightarrow> string" where
  "bool_text b = (if b then ''true'' else ''false'')"

text \<open>A method called on a missing monitor locks a field of nothing and panics.\<close>

definition GetMonitorStatus :: "mon option \<Rightarrow> (bool \<times> nat \<times> int) go_step" where
  "GetMonitorStatus mo =
     (let running = (case mo of None \<Rightarrow> False | Some m \<Rightarrow> IsRunning m)
      in case mo of None \<Rightarrow> Panics | Some m \<Rightarrow> Goes (running, GetActiveContractCount m, GetLastBlock m))"

definition StartMonitor ::
  "db_error + contract list \<Rightarrow> (int \<times> u64 res) list \<Rightarrow> mon option \<Rightarrow> string option \<times> mon option" where
  "StartMonitor contracts heads mo =
     (case mo of
        None \<Rightarrow> (Some ''monitor not initialized'', None)
      | Some m \<Rightarrow> (let (err, m') = monitor_Start [] contracts heads m in (err, Some m')))"

definition monitor_status_route :: "mon option \<Rightarrow> request \<Rightarrow> ('x, 'db) api \<Rightarrow> ('x, 'db) api go_step" where
  "monitor_status_route mo r s =
     (if rq_method r \<noteq> ''GET'' then Goes (fail_with ''Method not allowed'' 405 s)
      else bind_step (GetMonitorStatus mo) (\<lambda>(running, active, block).
        Goes (on_resp (http_Write (''Monitor Status:'' @ [CHR 0x0A] @ ''Running: '' @ bool_text running @ [CHR 0x0A] @
          ''Active Contracts: '' @ fmt_d (int active) @ [CHR 0x0A] @ ''Last Block: '' @ fmt_d block @ [CHR 0x0A])) s)))"

record subscribe_request =
  sr_ChainID :: int
  sr_ContractAddr :: string
  sr_EventSignature :: string

definition subscribe_route ::
  "'db api_env \<Rightarrow> (request \<Rightarrow> string + subscribe_request) \<Rightarrow> request \<Rightarrow> ('x, 'db) api \<Rightarrow> ('x, 'db) api" where
  "subscribe_route E body r s =
     (if rq_method r \<noteq> ''POST'' then fail_with ''Method not allowed'' 405 s
      else case body r of
        Inl err \<Rightarrow> fail_with ''Invalid request body'' 400 s
      | Inr req \<Rightarrow>
          (case as_FindFirst (av_store E) [ChainIs (sr_ChainID req), AddressIs (to_lower (sr_ContractAddr req)),
                  SignatureIs (sr_EventSignature req)] (ap_db s) of
             Inl err \<Rightarrow> fail_with ''Contract not found'' 404 s
           | Inr ct \<Rightarrow> send_json (JObj [(''status'', JStr ''registered''),
                 (''topic'', JStr (''events/'' @ fmt_d (sr_ChainID req) @ ''/'' @ sr_ContractAddr req @ ''/'' @ sr_EventSignature req))])
               (on_resp (http_WriteHeader 200) s)))"

definition health_route :: "request \<Rightarrow> ('x, 'db) api \<Rightarrow> ('x, 'db) api" where
  "health_route r s = on_resp (http_Write ''ok'') (on_resp (http_WriteHeader 200) s)"

definition contracts_handler ::
  "'db api_env \<Rightarrow> (request \<Rightarrow> string + register_request) \<Rightarrow> request \<Rightarrow> ('x, 'db) api \<Rightarrow> ('x, 'db) api" where
  "contracts_handler E body r s =
     (if rq_method r = ''POST'' then api_RegisterContract E (body r) s
      else if rq_method r = ''GET'' then api_GetContracts E r s
      else fail_with ''Method not allowed'' 405 s)"

definition contracts_route ::
  "'db api_env \<Rightarrow> string \<Rightarrow> (request \<Rightarrow> string + register_request) \<Rightarrow> request \<Rightarrow> ('x, 'db) api \<Rightarrow> ('x, 'db) api" where
  "contracts_route E secret body = secretMiddleware secret (contracts_handler E body)"

section \<open>Numbers in the query string\<close>

lemma starts_absent: "c \<notin> set s \<Longrightarrow> \<not> has_prefix s [c]"
  by (cases s) (auto simp: has_prefix_def)

lemma parse_uint_nat: "n < 2 ^ 64 \<Longrightarrow> parse_uint 10 (digits 10 n) = Inr (of_nat n)"
  using parse_uint_digits [of 10 10 "of_nat n"] unat_of_nat_u64 [of n] by simp

text \<open>A printed number is read back.\<close>

lemma atoi_fmt_d:
  assumes "- (2 ^ 63) \<le> i" and "i < 2 ^ 63"
  shows "atoi (fmt_d i) = Inr i"
proof (cases "i < 0")
  case True
  have n: "nat (- i) \<le> 2 ^ 63" using assms(1) True by (simp add: nat_le_iff)
  then have "unat (of_nat (nat (- i)) :: u64) = nat (- i)" by (intro unat_of_nat_u64) simp
  then show ?thesis
    using True n parse_uint_nat [of "nat (- i)"]
    by (simp add: atoi_def parse_int_def fmt_d_def has_prefix_def)
next
  case False
  have n: "nat i < 2 ^ 63" using assms(2) False by (simp add: nat_less_iff)
  then have u: "unat (of_nat (nat i) :: u64) = nat i" by (intro unat_of_nat_u64) simp
  have "\<not> has_prefix (digits 10 (nat i)) ''-''" "\<not> has_prefix (digits 10 (nat i)) ''+''"
    using minus_digits [of 10] plus_digits [of 10] by (simp_all add: starts_absent)
  then show ?thesis
    using False n u parse_uint_nat [of "nat i"] by (simp add: atoi_def parse_int_def fmt_d_def)
qed

lemma fmt_d_not_Nil: "fmt_d i \<noteq> []"
  by (simp add: fmt_d_def)

lemma int_param_Nil: "int_param [] d ok = Some d"
  by (simp add: int_param_def)

lemma int_param_fmt_d: "- (2 ^ 63) \<le> i \<Longrightarrow> i < 2 ^ 63 \<Longrightarrow> int_param (fmt_d i) d ok = (if ok i then Some i else None)"
  using atoi_fmt_d [of i] fmt_d_not_Nil [of i] by (simp add: int_param_def)

section \<open>Both event queries are the same query\<close>

text \<open>A gRPC request as a query string: what is not set is left out.\<close>

definition query_of :: "events_request \<Rightarrow> string \<Rightarrow> string" where
  "query_of g = (\<lambda>_. [])(''contractAddress'' := ge_ContractAddress g, ''txHash'' := ge_TxHash g,
     ''chainId'' := (if ge_ChainId g = 0 then [] else fmt_d (ge_ChainId g)),
     ''take'' := (if ge_Take g > 0 then fmt_d (ge_Take g) else []),
     ''skip'' := (if ge_Skip g > 0 then fmt_d (ge_Skip g) else []))"

definition int32_range :: "int \<Rightarrow> bool" where
  "int32_range i = (- 2147483648 \<le> i \<and> i < 2147483648)"

lemma int32_wrap_id: "int32_range i \<Longrightarrow> int32_wrap i = i"
  by (simp add: int32_range_def int32_wrap_def)

lemma query_params:
  assumes "int32_range (ge_ChainId g)" "int32_range (ge_Take g)" "int32_range (ge_Skip g)"
  shows "int_param (query_of g ''chainId'') 39 (\<lambda>c. True) = Some (fst (grpc_params g))"
    "int_param (query_of g ''take'') 10 (\<lambda>t. t > 0) = Some (fst (snd (grpc_params g)))"
    "int_param (query_of g ''skip'') 0 (\<lambda>n. n \<ge> 0) = Some (snd (snd (grpc_params g)))"
    "query_of g ''contractAddress'' = ge_ContractAddress g" "query_of g ''txHash'' = ge_TxHash g"
proof -
  have "int_param (fmt_d i) d ok = (if ok i then Some i else None)" if "int32_range i" for i d ok
    using that by (intro int_param_fmt_d) (simp_all add: int32_range_def)
  then show "int_param (query_of g ''chainId'') 39 (\<lambda>c. True) = Some (fst (grpc_params g))"
    "int_param (query_of g ''take'') 10 (\<lambda>t. t > 0) = Some (fst (snd (grpc_params g)))"
    "int_param (query_of g ''skip'') 0 (\<lambda>n. n \<ge> 0) = Some (snd (snd (grpc_params g)))"
    using assms by (simp_all add: query_of_def grpc_params_def int_param_Nil)
qed (simp_all add: query_of_def)

lemma sent_page:
  assumes "rp_status (wb_resp s) = 0"
  shows "rp_status (wb_resp (send_json j (on_resp (http_WriteHeader 200) (set_json_type s)))) = 200"
    "rp_body (wb_resp (send_json j (on_resp (http_WriteHeader 200) (set_json_type s)))) = rp_body (wb_resp s) @ json_Encode j"
  using assms by (simp_all add: send_json_def set_json_type_def resp_simps)


definition sample_rows :: tables where
  "sample_rows = ([sample_contract\<lparr>ct_Address := ''0xab''\<rparr>, sample_contract\<lparr>ct_ID := ''c2'', ct_Address := ''0xab'', ct_EventName := ''B''\<rparr>],
     [\<lparr>er_ID = ''e1'', er_ContractID = ''c1'', er_BlockNumber = 5, er_TxHash = ''0x1'', er_LogIndex = 0, er_Data = ''d''\<rparr>,
      \<lparr>er_ID = ''e2'', er_ContractID = ''c2'', er_BlockNumber = 6, er_TxHash = ''0x2'', er_LogIndex = 1, er_Data = ''d''\<rparr>])"

definition sample_query :: events_request where
  "sample_query = \<lparr>ge_ChainId = 0, ge_ContractAddress = ''0xAB'', ge_TxHash = [], ge_Take = 0, ge_Skip = 0\<rparr>"

definition query_request :: "(string \<Rightarrow> string) \<Rightarrow> request" where
  "query_request q = \<lparr>rq_method = ''GET'', rq_headers = (\<lambda>_. []), rq_query = q, rq_address = None\<rparr>"

lemma sample_lower:
  "lower_char CHR ''0'' = CHR ''0''" "lower_char CHR ''x'' = CHR ''x''" "lower_char CHR ''a'' = CHR ''a''"
  "lower_char CHR ''b'' = CHR ''b''" "lower_char CHR ''A'' = CHR ''a''" "lower_char CHR ''B'' = CHR ''b''"
  by code_simp+

lemma sample_more [simp]:
  "av_contracts_json sample_env cs = JArr (map (JStr \<circ> ct_ID) cs)" "rp_body (wb_resp sample_api) = []"
  by (simp_all add: sample_env_def sample_api_def blank_resp_def)

lemma sample_first: "as_FindFirst table_api (contract_filters 39 ''0xAB'') sample_rows = Inr (sample_contract\<lparr>ct_Address := ''0xab''\<rparr>)"
  by (simp add: table_api_def sample_rows_def first_row_def contract_filters_def matches_def sample_contract_def sample_lower)

lemma sample_answer: "is_ok (grpc_GetEvents sample_env sample_rows sample_query)"
proof -
  obtain rows where "as_FindEvents table_api (event_filters (sample_contract\<lparr>ct_Address := ''0xab''\<rparr>) []) 0 10 sample_rows = Inr rows"
    by (simp add: table_api_def sample_rows_def)
  then show ?thesis
    using sample_first by (simp add: grpc_GetEvents_def grpc_rows_def grpc_params_def sample_query_def)
qed


section \<open>What the event query leaves out\<close>

text \<open>
  The query names no event: it takes the first contract row of the chain and address, and
  answers its logs only. When two events of one contract are registered, there is one of them
  whose logs no query for that contract ever returns, whatever its page or transaction.
\<close>

theorem one_event_per_address:
  assumes "contract_rows (av_store E)" and "ct_ID c1 \<noteq> ct_ID c2"
    and "ct_ChainID c1 = ct_ChainID c2" and "ct_Address c1 = ct_Address c2"
  shows "\<exists>c \<in> {c1, c2}. \<forall>g rows. fst (grpc_params g) = ct_ChainID c1 \<longrightarrow> to_lower (ge_ContractAddress g) = ct_Address c1 \<longrightarrow>
    grpc_rows E db g = Inr rows \<longrightarrow> (\<forall>e \<in> set rows. er_ContractID e \<noteq> ct_ID c)"
proof -
  let ?first = "as_FindFirst (av_store E) [ChainIs (ct_ChainID c1), AddressIs (ct_Address c1)] db"
  have only: "er_ContractID e = ct_ID (projr ?first)"
    if "fst (grpc_params g) = ct_ChainID c1" "to_lower (ge_ContractAddress g) = ct_Address c1"
      "grpc_rows E db g = Inr rows" "e \<in> set rows" for g rows e
    using that contract_rows.events_ok [OF assms(1)]
    by (fastforce simp: grpc_rows_def contract_filters_def event_filters_def case_prod_beta split: sum.splits)
  show ?thesis
  proof (cases "ct_ID (projr ?first) = ct_ID c1")
    case True
    then show ?thesis using only assms(2) by (intro bexI [of _ c2]) auto
  next
    case False
    then show ?thesis using only by (intro bexI [of _ c1]) auto
  qed
qed

theorem one_event_per_address_witness:
  "\<exists>c \<in> {sample_contract, sample_contract\<lparr>ct_ID := ''c2''\<rparr>}. \<forall>g rows. fst (grpc_params g) = 39 \<longrightarrow>
    to_lower (ge_ContractAddress g) = ct_Address sample_contract \<longrightarrow> grpc_rows sample_env sample_rows g = Inr rows \<longrightarrow>
    (\<forall>e \<in> set rows. er_ContractID e \<noteq> ct_ID c)"
  using one_event_per_address [of sample_env sample_contract "sample_contract\<lparr>ct_ID := ''c2''\<rparr>" sample_rows] tables.contract_rows_axioms
  by (simp add: sample_contract_def)

text \<open>
  A query for a contract that is not registered answers 500, not the 404 the handler has for
  it: the search reports a missing row as an error, which is handled first.
\<close>

theorem missing_contract_is_500:
  assumes "contract_rows (av_store E)" and "rp_status (wb_resp s) = 0" and "rq_query r ''contractAddress'' \<noteq> []"
    and "int_param (rq_query r ''chainId'') 39 (\<lambda>c. True) = Some chain"
    and "int_param (rq_query r ''take'') 10 (\<lambda>t. t > 0) = Some tk" and "int_param (rq_query r ''skip'') 0 (\<lambda>n. n \<ge> 0) = Some sk"
    and "\<forall>ct \<in> set (as_contracts (av_store E) (ap_db s)).
      ct_ChainID ct = chain \<longrightarrow> ct_Address ct \<noteq> to_lower (rq_query r ''contractAddress'')"
  shows "rp_status (wb_resp (api_GetEvents E r s)) = 500"
proof -
  have "\<not> is_ok (as_FindFirst (av_store E) (contract_filters chain (rq_query r ''contractAddress'')) (ap_db s))"
    using assms(7) contract_rows.first_ok [OF assms(1)] by (fastforce simp: is_ok_iff contract_filters_def matches_def)
  then obtain err where "as_FindFirst (av_store E) (contract_filters chain (rq_query r ''contractAddress'')) (ap_db s) = Inl err"
    by (cases "as_FindFirst (av_store E) (contract_filters chain (rq_query r ''contractAddress'')) (ap_db s)") auto
  then show ?thesis
    unfolding api_GetEvents_def assms(4-6) using assms(2,3) by simp
qed

theorem missing_contract_is_500_witness:
  "rp_status (wb_resp (api_GetEvents sample_env (query_request (query_of sample_query)) sample_api)) = 500"
proof -
  note Q = query_params [of sample_query]
  show ?thesis
    using missing_contract_is_500 [of sample_env sample_api "query_request (query_of sample_query)"] Q tables.contract_rows_axioms
    by (simp add: query_request_def int32_range_def sample_query_def table_api_def)
qed

section \<open>The list of contracts\<close>

definition wanted_contract :: "request \<Rightarrow> contract \<Rightarrow> bool" where
  "wanted_contract r ct =
     ((rq_query r ''chainId'' = [] \<or> atoi (rq_query r ''chainId'') = Inr (ct_ChainID ct)) \<and>
      (rq_query r ''address'' = [] \<or> ct_Address ct = rq_query r ''address'') \<and>
      (rq_query r ''eventSignature'' = [] \<or> ct_EventSignature ct = rq_query r ''eventSignature''))"

text \<open>
  The list has exactly the contracts with the given chain, address and signature. The address is
  compared as it is given, while a registration stores it in lower case: a query with the address
  as it is usually printed, with upper-case letters, always answers the empty list.
\<close>

theorem contracts_query:
  assumes "contract_rows (av_store E)" and "rp_status (wb_resp s) = 0"
    and "\<forall>fs. is_ok (as_FindMany (av_store E) fs (ap_db s))"
    and "\<forall>ct \<in> set (as_contracts (av_store E) (ap_db s)). to_lower (ct_Address ct) = ct_Address ct"
  shows "if rq_query r ''chainId'' = [] \<or> is_ok (atoi (rq_query r ''chainId''))
    then rp_status (wb_resp (api_GetContracts E r s)) = 200 \<and>
      rp_body (wb_resp (api_GetContracts E r s)) = rp_body (wb_resp s) @ json_Encode (av_contracts_json E
        (if to_lower (rq_query r ''address'') \<noteq> rq_query r ''address'' then []
         else filter (wanted_contract r) (as_contracts (av_store E) (ap_db s))))
    else rp_status (wb_resp (api_GetContracts E r s)) = 400"
proof -
  let ?cts = "as_contracts (av_store E) (ap_db s)"
  have many: "as_FindMany (av_store E) fs (ap_db s) = Inr (filter (matches fs) ?cts)" for fs
    using assms(3) contract_rows.many_ok [OF assms(1)] by (metis is_ok_iff)
  have upper: "filter (wanted_contract r) ?cts = []" if "to_lower (rq_query r ''address'') \<noteq> rq_query r ''address''"
    using that assms(4) by (auto simp: wanted_contract_def filter_empty_conv to_lower_def)
  have sent: "rp_status (wb_resp (send_json j (set_json_type s))) = 200"
    "rp_body (wb_resp (send_json j (set_json_type s))) = rp_body (wb_resp s) @ json_Encode j" for j
    using assms(2) by (simp_all add: send_json_def set_json_type_def resp_simps)
  let ?others = "(if rq_query r ''address'' \<noteq> [] then [AddressIs (rq_query r ''address'')] else []) @
    (if rq_query r ''eventSignature'' \<noteq> [] then [SignatureIs (rq_query r ''eventSignature'')] else [])"
  show ?thesis
  proof (cases "rq_query r ''chainId'' = []")
    case True
    then have "wanted_contract r = matches ?others" by (auto simp: fun_eq_iff wanted_contract_def matches_def)
    then have "api_GetContracts E r s = send_json (av_contracts_json E (filter (wanted_contract r) ?cts)) (set_json_type s)"
      using True by (simp add: api_GetContracts_def many Let_def)
    then show ?thesis using True upper sent by simp
  next
    case chain: False
    show ?thesis
    proof (cases "atoi (rq_query r ''chainId'')")
      case (Inl err)
      then show ?thesis using chain assms(2) by (simp add: api_GetContracts_def Let_def)
    next
      case (Inr n)
      then have "wanted_contract r = matches (ChainIs n # ?others)"
        using chain by (auto simp: fun_eq_iff wanted_contract_def matches_def)
      then have "api_GetContracts E r s = send_json (av_contracts_json E (filter (wanted_contract r) ?cts)) (set_json_type s)"
        using chain Inr by (simp add: api_GetContracts_def many Let_def)
      then show ?thesis using Inr upper sent by simp
    qed
  qed
qed

theorem contracts_query_witness:
  "rp_body (wb_resp (api_GetContracts sample_env (query_request ((\<lambda>_. [])(''address'' := ''0xAB'')))
    (sample_api\<lparr>ap_db := sample_rows\<rparr>))) = json_Encode (JArr [])"
  using contracts_query [of sample_env "sample_api\<lparr>ap_db := sample_rows\<rparr>" "query_request ((\<lambda>_. [])(''address'' := ''0xAB''))"]
    tables.contract_rows_axioms
  by (simp add: query_request_def table_api_def sample_rows_def sample_contract_def sample_lower)

section \<open>The contracts route\<close>

text \<open>
  Nobody registers or lists contracts without the secret: a request to the route whose
  authorization is missing or is not the secret (as it stands or after \<open>Bearer\<close>) is answered 401
  and leaves database, task queue and decoders as they are, whatever its method and body.
\<close>

theorem contracts_route_guarded:
  assumes "rq_headers r ''Authorization'' = [] \<or> strip_bearer (rq_headers r ''Authorization'') \<noteq> secret"
    and "rp_status (wb_resp s) = 0"
  shows "rp_status (wb_resp (contracts_route E secret body r s)) = 401 \<and> ap_db (contracts_route E secret body r s) = ap_db s \<and>
    ap_queue (contracts_route E secret body r s) = ap_queue s \<and> ap_clients (contracts_route E secret body r s) = ap_clients s"
proof -
  have "contracts_route E secret body r s = secret_deny r s"
    unfolding contracts_route_def by (rule secret.denied) (use assms(1) in blast)
  then have "\<exists>msg. contracts_route E secret body r s = fail_with msg 401 s"
    by (auto simp only: secret_deny_def fail_with_def)
  then obtain msg where eq: "contracts_route E secret body r s = fail_with msg 401 s" ..
  show ?thesis unfolding eq using assms(2) by simp (simp add: fail_with_def)
qed

theorem contracts_route_guarded_witness:
  "rp_status (wb_resp (contracts_route sample_env ''k'' (\<lambda>r. Inl ''eof'') (query_request (\<lambda>_. [])) sample_api)) = 401"
proof -
  have "rq_headers (query_request (\<lambda>_. [])) ''Authorization'' = []" by (simp add: query_request_def)
  then show ?thesis using contracts_route_guarded [OF disjI1 sample_api_sel(4)] by blast
qed

section \<open>The rows of the client and of the queries\<close>

text \<open>
  The client that stores logs and the queries work on the same tables: a log found by its key is
  an event row with that key, and a page that starts at the first row and is large enough has
  every row that satisfies the filters.
\<close>

locale api_tables = contract_rows A for A :: "'db api_store" +
  fixes S :: "'db store"
  assumes found_row: "st_FindLog S k db = Inr e \<Longrightarrow> e \<in> set (as_events A db) \<and> row_key e = k"
    and whole_page: "as_FindEvents A efs 0 n db = Inr rows \<Longrightarrow>
      int (length (filter (\<lambda>e. list_all (event_holds e) efs) (as_events A db))) \<le> n \<Longrightarrow>
      set (filter (\<lambda>e. list_all (event_holds e) efs) (as_events A db)) \<subseteq> set rows"
begin

lemma known_row:
  assumes "(i, b, t, n) \<in> known_keys S db"
  shows "\<exists>e \<in> set (as_events A db). er_ContractID e = i \<and> er_BlockNumber e = b \<and> er_TxHash e = t \<and> er_LogIndex e = n"
  using assms found_row by (fastforce simp: known_keys_def is_ok_iff row_key_def)

text \<open>A known key of a contract is on a page that is large enough, with its transaction or without.\<close>

lemma known_on_page:
  assumes "(i, b, t, n) \<in> known_keys S db" and "ct_ID ct = i" and "tx = [] \<or> to_lower tx = t"
    and "as_FindEvents A (event_filters ct tx) 0 tk db = Inr rows" and "int (length (as_events A db)) \<le> tk"
  shows "\<exists>e \<in> set rows. er_ContractID e = i \<and> er_BlockNumber e = b \<and> er_TxHash e = t \<and> er_LogIndex e = n"
proof -
  let ?ok = "\<lambda>e. list_all (event_holds e) (event_filters ct tx)"
  obtain e where e: "e \<in> set (as_events A db)" "er_ContractID e = i" "er_BlockNumber e = b" "er_TxHash e = t" "er_LogIndex e = n"
    using known_row [OF assms(1)] by blast
  have "?ok e" using e assms(2,3) by (auto simp: event_filters_def)
  moreover have "int (length (filter ?ok (as_events A db))) \<le> tk"
    using assms(5) length_filter_le [of ?ok "as_events A db"] by linarith
  ultimately have "e \<in> set rows" using whole_page [OF assms(4)] e(1) by auto
  then show ?thesis using e by blast
qed

end

interpretation tables: api_tables table_api table_store
proof
  show "st_FindLog table_store k db = Inr e \<Longrightarrow> e \<in> set (as_events table_api db) \<and> row_key e = k" for k db e
    by (cases db) (auto simp: table_store_sel table_api_def dest: first_row_Inr)
  show "as_FindEvents table_api efs 0 n db = Inr rows \<Longrightarrow>
      int (length (filter (\<lambda>e. list_all (event_holds e) efs) (as_events table_api db))) \<le> n \<Longrightarrow>
      set (filter (\<lambda>e. list_all (event_holds e) efs) (as_events table_api db)) \<subseteq> set rows" for efs n db rows
    by (cases db) (auto simp: table_api_def)
qed

text \<open>So the answer of a query has the log of a known key, when the contract is the first one found.\<close>

lemma known_is_answered:
  assumes T: "api_tables (av_store E) S" and k: "(ct_ID ct, b, to_lower h, n) \<in> known_keys S db"
    and first: "\<And>d. as_FindFirst (av_store E) (contract_filters chain (ge_ContractAddress g)) db = Inr d \<Longrightarrow> d = ct"
    and g: "grpc_params g = (chain, tk, 0)" "ge_TxHash g = [] \<or> ge_TxHash g = h"
      "int (length (as_events (av_store E) db)) \<le> tk"
    and ans: "grpc_GetEvents E db g = Inr answer"
  shows "\<exists>d \<in> set (gr_Data answer). ed_BlockNumber d = b \<and> ed_TxHash d = to_lower h \<and> ed_LogIndex d = int32_wrap n"
proof -
  obtain rows where rows: "as_FindEvents (av_store E) (event_filters ct (ge_TxHash g)) 0 tk db = Inr rows"
    and data: "gr_Data answer = map (event_data_of E db) rows"
    using ans g(1) by (auto simp: grpc_GetEvents_def grpc_rows_def result_simps dest!: first split: if_splits sum.splits)
  from api_tables.known_on_page [OF T k refl _ rows g(3)] g(2)
  have "\<exists>e \<in> set rows. er_BlockNumber e = b \<and> er_TxHash e = to_lower h \<and> er_LogIndex e = n" by auto
  then show ?thesis unfolding data by (auto simp: event_data_of_def)
qed

end
