(* ===== verification/Status.thy ===== *)
theory Status
  imports Api_Queries
begin

text \<open>
  \<open>pkg/grpc/http_server.go\<close>: issuing tokens over HTTP, and the indexing status of an event, read
  from the map of backfill statuses that the listeners write and the monitor's last block.
\<close>

section \<open>The handlers\<close>

definition RequestTokenHandler ::
  "jwt_lib \<Rightarrow> string option \<Rightarrow> string \<Rightarrow> int \<Rightarrow> (request \<Rightarrow> string + string \<times> int) \<Rightarrow> request \<Rightarrow> ('x, 'db) api \<Rightarrow> ('x, 'db) api" where
  "RequestTokenHandler J gatewaySecret jwtSecret now' body r s =
     (if rq_method r \<noteq> ''POST'' then fail_with ''Method not allowed'' 405 s
      else if gatewaySecret \<noteq> None \<and> rq_headers r ''X-Secret'' \<noteq> the gatewaySecret then fail_with ''Unauthorized'' 401 s
      else case body r of
        Inl err \<Rightarrow> fail_with ''Invalid request body'' 400 s
      | Inr (address, duration) \<Rightarrow>
          (case GenerateJWT J (wb_now s) address duration jwtSecret of
             Inl err \<Rightarrow> fail_with ''Unable to generate JWT'' 500 s
           | Inr token \<Rightarrow>
               send_json (JObj [(''expires_at'', JNum (expiry_time now' duration div second_ns)), (''token'', JStr token)])
                 (on_resp (http_WriteHeader 200) (set_json_type s))))"

definition status_key :: "string \<Rightarrow> string \<Rightarrow> string \<Rightarrow> string" where
  "status_key chainId address eventSignature =
     to_lower (''backfill_status:'' @ chainId @ ''/'' @ address @ ''/'' @ eventSignature)"

text \<open>\<open>Uint64\<close> of a \<open>big.Int\<close>: the low bits of the absolute value.\<close>

definition big_Uint64 :: "int \<Rightarrow> u64" where
  "big_Uint64 i = u64_of_int \<bar>i\<bar>"

definition status_json :: "string \<Rightarrow> string \<Rightarrow> string \<Rightarrow> u64 \<Rightarrow> u64 \<Rightarrow> json" where
  "status_json chainId address eventName current last' =
     JObj [(''chainId'', JStr chainId), (''contractAddress'', JStr address),
       (''currentBlockNumber'', JNum (int (unat current))), (''eventName'', JStr eventName),
       (''lastBlockNumber'', JNum (int (unat last')))]"

text \<open>The statuses hold big integers only, so the type assertion on them always succeeds.\<close>

definition GetContractStatus ::
  "'db api_env \<Rightarrow> (int \<Rightarrow> u64 res) \<Rightarrow> (string \<rightharpoonup> int) \<Rightarrow> string \<Rightarrow> string \<Rightarrow> string \<Rightarrow> ('x, 'db) api \<Rightarrow> ('x, 'db) api" where
  "GetContractStatus E GetMonitorLastBlock metrics chainId address eventNameString s =
     (if chainId = [] \<or> address = [] \<or> eventNameString = [] then fail_with ''Invalid request'' 400 s
      else case parse_int chainId of
        Inl err \<Rightarrow> fail_with ''Invalid chainId'' 400 s
      | Inr chainIdNumber \<Rightarrow>
          (case (if contains eventNameString ''('' then ExtractEventName eventNameString else Inr eventNameString) of
             Inl err \<Rightarrow> fail_with (''Invalid event signature format: '' @ err) 400 s
           | Inr eventName \<Rightarrow>
               (case as_FindFirst (av_store E) [ChainIs chainIdNumber, AddressIs (to_lower address), NameIs eventName] (ap_db s) of
                  Inl ErrNotFound \<Rightarrow> fail_with ''Contract not found'' 404 s
                | Inl (DbError err) \<Rightarrow> fail_with ''Internal server error'' 500 s
                | Inr contractInfo \<Rightarrow>
                    (case GetMonitorLastBlock chainIdNumber of
                       Inl err \<Rightarrow> fail_with ''Chain not supported'' 400 s
                     | Inr lastBlock \<Rightarrow>
                         let currentBlockNumber =
                           (case metrics (status_key chainId address (ct_EventSignature contractInfo)) of
                              None \<Rightarrow> lastBlock | Some b \<Rightarrow> big_Uint64 b)
                         in send_json (status_json chainId address eventName currentBlockNumber lastBlock)
                              (on_resp (http_WriteHeader 200) (set_json_type s))))))"

section \<open>Tokens over HTTP and gRPC\<close>

text \<open>
  The HTTP endpoint issues a token exactly when the request is a POST with the gateway's
  secret, its body can be read, and the gRPC method issues one for the same address and duration;
  token and expiry are those of the gRPC answer. The other answers are 405, 401, 400 and 500, in
  this order of precedence, and none of them has a token.
\<close>

theorem token_endpoint:
  assumes "rp_status (wb_resp s) = 0"
  shows "let s' = RequestTokenHandler J gatewaySecret jwtSecret now' body r s;
      granted = (rq_method r = ''POST'' \<and> (gatewaySecret = None \<or> gatewaySecret = Some (rq_headers r ''X-Secret'')))
    in if granted \<and> is_ok (body r)
       then (case RequestToken J (wb_now s) now' jwtSecret (fst (projr (body r))) (snd (projr (body r))) of
           Inl err \<Rightarrow> rp_status (wb_resp s') = 500
         | Inr (token, expires) \<Rightarrow> rp_status (wb_resp s') = 200 \<and>
             rp_body (wb_resp s') = rp_body (wb_resp s) @
               json_Encode (JObj [(''expires_at'', JNum expires), (''token'', JStr token)]))
       else rp_status (wb_resp s') = (if rq_method r \<noteq> ''POST'' then 405 else if granted then 400 else 401)"
proof (cases "rq_method r = ''POST'' \<and> (gatewaySecret = None \<or> gatewaySecret = Some (rq_headers r ''X-Secret''))")
  case granted: True
  show ?thesis
  proof (cases "body r")
    case (Inl err)
    then show ?thesis using granted assms by (auto simp: RequestTokenHandler_def Let_def)
  next
    case (Inr p)
    obtain address duration where p: "p = (address, duration)" by (cases p)
    have h: "RequestTokenHandler J gatewaySecret jwtSecret now' body r s =
      (case GenerateJWT J (wb_now s) address duration jwtSecret of
         Inl err \<Rightarrow> fail_with ''Unable to generate JWT'' 500 s
       | Inr token \<Rightarrow>
           send_json (JObj [(''expires_at'', JNum (expiry_time now' duration div second_ns)), (''token'', JStr token)])
             (on_resp (http_WriteHeader 200) (set_json_type s)))"
      using granted by (auto simp: RequestTokenHandler_def Inr p)
    show ?thesis
      using granted assms by (simp add: Let_def h Inr p RequestToken_def sent_page split: sum.split)
  qed
next
  case False
  then show ?thesis using assms by (auto simp: RequestTokenHandler_def Let_def)
qed

theorem token_endpoint_witness:
  "rp_status (wb_resp (RequestTokenHandler (sample_jwt sample_claims) (Some ''g'') ''k'' 0 (\<lambda>r. Inl ''eof'')
     (query_request (\<lambda>_. [])) sample_api)) = 405"
  using token_endpoint [of sample_api "sample_jwt sample_claims" "Some ''g''" "''k''" 0 "\<lambda>r. Inl ''eof''" "query_request (\<lambda>_. [])"]
  by (simp add: Let_def query_request_def)

section \<open>Which backfill the status sees\<close>

lemma parse_uint_loop_chars: "is_ok (parse_uint_loop base n s) \<Longrightarrow> c \<in> set s \<Longrightarrow> digit_val c \<noteq> None"
  by (induction base n s rule: parse_uint_loop.induct) (auto simp: Let_def split: option.splits if_splits)

lemma parsed_no_slash:
  assumes "parse_int s = Inr n"
  shows "CHR ''/'' \<notin> set s"
proof
  assume c: "CHR ''/'' \<in> set s"
  define body where "body = (if has_prefix s ''-'' \<or> has_prefix s ''+'' then tl s else s)"
  have "is_ok (parse_uint 10 body)"
    using assms by (auto simp: parse_int_def Let_def result_simps body_def [symmetric] is_ok_iff)
  then have "\<forall>x \<in> set body. digit_val x \<noteq> None"
    using parse_uint_loop_chars by (auto simp: parse_uint_def split: if_splits)
  moreover have "CHR ''/'' \<in> set body"
    using c by (cases s) (auto simp: body_def has_prefix_single)
  ultimately show False by (auto simp: digit_val_def)
qed

text \<open>A text that folds to a printed number is that number: it has no letters.\<close>

lemma lower_char_letter: "lower_char c \<noteq> c \<Longrightarrow> 97 \<le> (of_char (lower_char c) :: nat)"
  by (auto simp: lower_char_def Let_def split: if_splits)

lemma digit_char_low: "d < 10 \<Longrightarrow> of_char (digit_char d) < (97 :: nat)"
  by (simp add: of_char_digit_char)

lemma fmt_d_low: "c \<in> set (fmt_d i) \<Longrightarrow> of_char c < (97 :: nat)"
  using digits_chars [of 10 c] digit_char_low by (fastforce simp: fmt_d_def split: if_splits)

lemma lower_eq_fmt_d:
  assumes "to_lower s = fmt_d i"
  shows "s = fmt_d i"
proof -
  have "lower_char c = c" if "c \<in> set s" for c
  proof (rule ccontr)
    assume "lower_char c \<noteq> c"
    then have "97 \<le> (of_char (lower_char c) :: nat)" by (rule lower_char_letter)
    moreover have "lower_char c \<in> set (fmt_d i)" using that unfolding assms [symmetric] by (simp add: to_lower_def)
    ultimately show False using fmt_d_low [of "lower_char c" i] by simp
  qed
  then have "to_lower s = s" by (simp add: to_lower_def map_idI)
  then show ?thesis using assms by simp
qed

lemma status_key_eq:
  assumes "CHR ''/'' \<notin> set chainId"
  shows "status_key chainId address sig = backfill_key m address' sig' \<longleftrightarrow>
    chainId = fmt_d m \<and> to_lower (address @ ''/'' @ sig) = to_lower (address' @ ''/'' @ sig')"
proof -
  have s: "CHR ''/'' \<notin> set (to_lower chainId)" using assms by simp
  have "status_key chainId address sig = to_lower ''backfill_status:'' @ to_lower chainId @ CHR ''/'' # to_lower (address @ ''/'' @ sig)"
    "backfill_key m address' sig' = to_lower ''backfill_status:'' @ fmt_d m @ CHR ''/'' # to_lower (address' @ ''/'' @ sig')"
    using lower_char_eq_slash by (simp_all add: status_key_def backfill_key_def to_lower_append lower_fmt_d)
  then have "status_key chainId address sig = backfill_key m address' sig' \<longleftrightarrow>
      to_lower chainId = fmt_d m \<and> to_lower (address @ ''/'' @ sig) = to_lower (address' @ ''/'' @ sig')"
    using slash_split [OF s slash_fmt_d] by simp
  then show ?thesis using lower_eq_fmt_d lower_fmt_d by metis
qed

text \<open>
  The map of statuses has the keys that listeners write: the chain as it prints, the address and
  the signature in hexadecimal with their prefixes. A request shows the status of a listener when
  its chain is written the way it prints, and its address and the signature of the row it finds
  are those of the listener up to case.
\<close>

definition listener_keys :: "('x, 'db) client \<Rightarrow> (string \<rightharpoonup> int) \<Rightarrow> bool" where
  "listener_keys c metrics = (\<forall>k \<in> dom metrics. \<exists>l. k = listener_key c l)"

definition shows_listener :: "('x, 'db) client \<Rightarrow> string \<Rightarrow> string \<Rightarrow> string \<Rightarrow> listener \<Rightarrow> bool" where
  "shows_listener c chainId address sig l \<longleftrightarrow>
     chainId = fmt_d (ln_chainID l) \<and> to_lower address = to_lower (g_AddressHex (cl_geth c) (ln_contract l)) \<and>
     to_lower sig = to_lower (g_HashHex (cl_geth c) (ln_eventSig l))"

lemma slash_hex_encode: "CHR ''/'' \<notin> set (hex_encode b)"
proof (induction b)
  case (Cons x b)
  have "unat x < 256" using unsigned_less [of x, where 'a = nat] by simp
  then have "unat x div 16 < 36" "unat x mod 16 < 36" by simp_all
  note D = this [THEN digit_char_neq(1)]
  then show ?case using Cons D by simp
qed simp

text \<open>Two texts without a slash on the right: there is none on the left.\<close>

lemma slash_join:
  assumes "CHR ''/'' \<notin> set x'" and "CHR ''/'' \<notin> set y'"
  shows "x @ CHR ''/'' # y = x' @ CHR ''/'' # y' \<longleftrightarrow> x = x' \<and> y = y'"
proof
  assume e: "x @ CHR ''/'' # y = x' @ CHR ''/'' # y'"
  have "CHR ''/'' \<notin> set x"
  proof
    assume "CHR ''/'' \<in> set x"
    then obtain u v where x: "x = u @ CHR ''/'' # v" "CHR ''/'' \<notin> set u" by (meson split_list_first)
    then have "v @ CHR ''/'' # y = y'" using e slash_split [OF x(2) assms(1)] by simp
    then show False using assms(2) by auto
  qed
  then show "x = x' \<and> y = y'" using e slash_split [OF _ assms(1)] by simp
qed simp

lemma status_listener_key:
  assumes "geth_ok (cl_geth c)" and "CHR ''/'' \<notin> set chainId"
  shows "status_key chainId address sig = listener_key c l \<longleftrightarrow> shows_listener c chainId address sig l"
proof -
  have "CHR ''/'' \<notin> set (''0x'' @ hex_encode b)" for b using slash_hex_encode by simp
  then have "CHR ''/'' \<notin> set (to_lower (g_AddressHex (cl_geth c) (ln_contract l)))"
    "CHR ''/'' \<notin> set (to_lower (g_HashHex (cl_geth c) (ln_eventSig l)))"
    using geth_okD(1,4) [OF assms(1)] slash_to_lower by metis+
  note J = slash_join [OF this]
  have "to_lower (a @ ''/'' @ g) = to_lower a @ CHR ''/'' # to_lower g" for a g
    using lower_char_eq_slash by (simp add: to_lower_append)
  then show ?thesis unfolding listener_key_def status_key_eq [OF assms(2)] shows_listener_def J [symmetric] by simp
qed

text \<open>
  C17. For a registered event of a monitored chain, named or written with its parameters, the status
  answers the monitor's last block and a current block. If a listener's chain prints as the
  request's, and address and signature are the listener's up to case, the current block is the
  status of that listener, or the last block when it has none; in every other case it is the
  last block, also while a backfill is under way: for another spelling of the chain (as +39) and
  for an address without its \<open>0x\<close>. And a status need not mean that a backfill is under way: one that
  was ended by an error or a cancelled context leaves its own, and the current block stays where
  it stopped.
\<close>

theorem status_current_block:
  assumes "rp_status (wb_resp s) = 0" and "chainId \<noteq> []" and "address \<noteq> []" and "event \<noteq> []"
    and "parse_int chainId = Inr n"
    and "(if contains event ''('' then ExtractEventName event else Inr event) = Inr eventName"
    and "as_FindFirst (av_store E) [ChainIs n, AddressIs (to_lower address), NameIs eventName] (ap_db s) = Inr ct"
    and "lastBlock n = Inr lb" and "geth_ok (cl_geth c)" and "listener_keys c metrics"
  shows "\<exists>current. rp_status (wb_resp (GetContractStatus E lastBlock metrics chainId address event s)) = 200 \<and>
      rp_body (wb_resp (GetContractStatus E lastBlock metrics chainId address event s)) =
        rp_body (wb_resp s) @ json_Encode (status_json chainId address eventName current lb) \<and>
      (\<forall>l. shows_listener c chainId address (ct_EventSignature ct) l \<longrightarrow> current =
         (case metrics (listener_key c l) of None \<Rightarrow> lb | Some b \<Rightarrow> big_Uint64 b)) \<and>
      ((\<forall>l. \<not> shows_listener c chainId address (ct_EventSignature ct) l) \<longrightarrow> current = lb) \<and>
      ((\<forall>m. chainId \<noteq> fmt_d m) \<or> \<not> has_prefix (to_lower address) ''0x'' \<longrightarrow> current = lb) \<and>
      (\<forall>l node b q s0 err s1. shows_listener c chainId address (ct_EventSignature ct) l \<longrightarrow>
         listener_Start node (Inr b) c l q s0 = Goes (Some err, s1) \<longrightarrow> metrics = bk_cache s1 \<longrightarrow>
         (\<exists>k. ln_startBlock l \<le> k \<and> k < int64_of b \<and> current = big_Uint64 k))"
proof -
  let ?key = "status_key chainId address (ct_EventSignature ct)"
  let ?shows = "shows_listener c chainId address (ct_EventSignature ct)"
  let ?current = "case metrics ?key of None \<Rightarrow> lb | Some b \<Rightarrow> big_Uint64 b"
  note K = status_listener_key [OF assms(9) parsed_no_slash [OF assms(5)]]
  have run: "GetContractStatus E lastBlock metrics chainId address event s =
      send_json (status_json chainId address eventName ?current lb) (on_resp (http_WriteHeader 200) (set_json_type s))"
    unfolding GetContractStatus_def assms(5,6) using assms(2-4,7,8) by (simp add: Let_def)
  have key: "?key = listener_key c l" if "?shows l" for l using K that by blast
  have none: "?current = lb" if "\<forall>l. \<not> ?shows l"
  proof -
    have "metrics ?key = None" using assms(10) that K unfolding listener_keys_def by (metis domI not_Some_eq)
    then show ?thesis by simp
  qed
  have shape: "chainId = fmt_d (ln_chainID l) \<and> has_prefix (to_lower address) ''0x''" if "?shows l" for l
    using that geth_okD(4) [OF assms(9)] by (simp add: shows_listener_def has_prefix_def)
  have stale: "\<exists>k. ln_startBlock l \<le> k \<and> k < int64_of b \<and> ?current = big_Uint64 k"
    if "?shows l" "listener_Start node (Inr b) c l q s0 = Goes (Some err, s1)" "metrics = bk_cache s1" for l node b q s0 err s1
    using listener_Start_spec [OF that(2)] that(3) key [OF that(1)] by fastforce
  have other: "?current = lb" if "(\<forall>m. chainId \<noteq> fmt_d m) \<or> \<not> has_prefix (to_lower address) ''0x''"
    using none shape that by blast
  show ?thesis
  proof (intro exI [of _ ?current] conjI allI impI)
    show "rp_status (wb_resp (GetContractStatus E lastBlock metrics chainId address event s)) = 200"
      "rp_body (wb_resp (GetContractStatus E lastBlock metrics chainId address event s)) =
        rp_body (wb_resp s) @ json_Encode (status_json chainId address eventName ?current lb)"
      using assms(1) by (simp_all add: run sent_page)
  qed (use key none other stale in \<open>auto simp only:\<close>)
qed

lemma plus_not_printed: "CHR ''+'' # s \<noteq> fmt_d m"
proof
  assume "CHR ''+'' # s = fmt_d m"
  then have "CHR ''+'' \<in> set (fmt_d m)" by (metis list.set_intros(1))
  then show False using plus_digits [of 10] by (auto simp: fmt_d_def split: if_splits)
qed

definition sample_status :: "(string \<rightharpoonup> int) \<Rightarrow> string \<Rightarrow> (unit, tables) api" where
  "sample_status metrics chainId = GetContractStatus sample_env (\<lambda>_. Inr 100) metrics chainId
     (hex_EncodeToHex (replicate 20 1)) ''Transfer'' (sample_api\<lparr>ap_db := ([sample_contract], [])\<rparr>)"

text \<open>After a backfill that its node failed: the status of 39, and of +39.\<close>

theorem status_current_block_witness:
  "\<exists>err s1 k. listener_Start (\<lambda>q. Inl ''down'') (Inr 50) sample_client (sample_listener 10) None sample_backfill = Goes (Some err, s1) \<and>
     10 \<le> k \<and> k < 50 \<and>
     rp_body (wb_resp (sample_status (bk_cache s1) ''39'')) =
       json_Encode (status_json ''39'' (hex_EncodeToHex (replicate 20 1)) ''Transfer'' (big_Uint64 k) 100) \<and>
     rp_body (wb_resp (sample_status (bk_cache s1) ''+39'')) =
       json_Encode (status_json ''+39'' (hex_EncodeToHex (replicate 20 1)) ''Transfer'' 100 100)"
proof -
  let ?a = "hex_EncodeToHex (replicate 20 1)" and ?l = "sample_listener 10" and ?db = "([sample_contract], []) :: tables"
  have b50: "int64_of 50 = 50" by (simp add: int64_of_def)
  obtain err s1 where st: "listener_Start (\<lambda>q. Inl ''down'') (Inr 50) sample_client ?l None sample_backfill = Goes (Some err, s1)"
    using interrupted_backfill_leaves_status_witness by blast
  have m: "listener_keys sample_client (bk_cache s1)"
    using listener_Start_spec [OF st] by (auto simp: listener_keys_def sample_backfill_def split: if_splits)
  have d: "digits 10 39 = ''39''" by code_simp
  have p: "parse_int ''39'' = Inr 39" "parse_int ''+39'' = Inr 39" "''39'' = fmt_d 39"
    using parse_uint_nat [of 39] by (simp_all add: parse_int_def has_prefix_single fmt_d_def d string_simps)
  have ev: "(if contains ''Transfer'' ''('' then ExtractEventName ''Transfer'' else Inr ''Transfer'') = Inr ''Transfer''"
    by (simp add: string_simps)
  have f: "as_FindFirst (av_store sample_env) [ChainIs 39, AddressIs (to_lower ?a), NameIs ''Transfer'']
      (ap_db (sample_api\<lparr>ap_db := ?db\<rparr>)) = Inr sample_contract"
    by (simp add: sample_env_def table_api_def first_row_def matches_def sample_contract_def)
  have G: "geth_ok (cl_geth sample_client)" using sample_geth_ok by (simp add: sample_client_def sample_abi_def)
  have ne: "?a \<noteq> []" by (simp add: hex_EncodeToHex_def)
  have r: "rp_status (wb_resp (sample_api\<lparr>ap_db := ?db\<rparr>)) = 0" "rp_body (wb_resp (sample_api\<lparr>ap_db := ?db\<rparr>)) = []"
    by (simp_all add: sample_api_def blank_resp_def)
  have sh: "shows_listener sample_client ''39'' ?a (ct_EventSignature sample_contract) ?l"
    using p(3) by (simp add: shows_listener_def sample_listener_def NewEventListener_def sample_client_def sample_abi_def
        sample_geth_def sample_contract_def)
  note T = status_current_block [OF r(1) _ ne _ _ ev f, of _ "\<lambda>_. Inr 100" 100 sample_client "bk_cache s1", OF _ _ _ refl G m,
      unfolded r(2), folded sample_status_def]
  have start: "ln_startBlock ?l = 10" by (simp add: sample_listener_def NewEventListener_def)
  obtain c1 where c1: "rp_body (wb_resp (sample_status (bk_cache s1) ''39'')) = [] @ json_Encode (status_json ''39'' ?a ''Transfer'' c1 100)"
    "\<exists>k. ln_startBlock ?l \<le> k \<and> k < int64_of 50 \<and> c1 = big_Uint64 k"
    using T [OF _ _ p(1)] sh st by fastforce
  have "\<forall>m. ''+39'' \<noteq> fmt_d m" using plus_not_printed by blast
  then have c2: "rp_body (wb_resp (sample_status (bk_cache s1) ''+39'')) = [] @ json_Encode (status_json ''+39'' ?a ''Transfer'' 100 100)"
    using T [OF _ _ p(2)] by fastforce
  from c1 c2 st show ?thesis by (auto simp: start b50)
qed

end
