(* ===== verification/Serve.thy ===== *)
theory Serve
  imports Config Monitor_Life Status
begin

text \<open>
  \<open>cmd/serve.go\<close>, with \<open>NewClient\<close> of \<open>pkg/ethereum\<close>, \<open>internal/db\<close>, the start and stop of the API
  server and of the gRPC server: how the service comes up, what is left when it does not, and how
  it goes down. What the outside answers at each step (Redis, the file system, the database, the
  nodes, the ports) are the fields of a record.
\<close>

section \<open>Clients\<close>

text \<open>\<open>NewClient\<close>; \<open>dial\<close> is the answer of the RPC library for an URL.\<close>

record ('x, 'db) client_libs =
  lb_dial :: "string \<Rightarrow> string option"
  lb_abi :: "'x abi_lib"
  lb_store :: "'db store"
  lb_block_time :: "string \<Rightarrow> int \<Rightarrow> string + u64"

definition NewClient :: "('x, 'db) client_libs \<Rightarrow> string \<Rightarrow> ('x, 'db) client res" where
  "NewClient L rpcURL =
     (case lb_dial L rpcURL of
        Some err \<Rightarrow> Inl (''failed to connect to Ethereum node: '' @ err)
      | None \<Rightarrow> Inr \<lparr>cl_abi = lb_abi L, cl_store = lb_store L, cl_block_time = lb_block_time L rpcURL,
          cl_decoder = NewEventDecoder\<rparr>)"

text \<open>The loop of \<open>RunServe\<close> over the chains: the first that fails ends it.\<close>

fun dial_chains ::
  "('x, 'db) client_libs \<Rightarrow> (int \<times> chain_config) list \<Rightarrow> (int \<rightharpoonup> ('x, 'db) client) \<Rightarrow>
   string + (int \<rightharpoonup> ('x, 'db) client)" where
  "dial_chains L [] clients = Inr clients"
| "dial_chains L ((chainID, chainConfig) # rest) clients =
     (case NewClient L (cc_RPCURL chainConfig) of
        Inl err \<Rightarrow> Inl (''failed to initialize Ethereum ethClient for chain '' @ fmt_d chainID @ '': '' @ err)
      | Inr c \<Rightarrow> dial_chains L rest (clients(chainID \<mapsto> c)))"

lemma dial_chains_ok:
  "dial_chains L ccs clients = Inr clients' \<longleftrightarrow>
   (\<forall>(n, cc) \<in> set ccs. lb_dial L (cc_RPCURL cc) = None) \<and>
   clients' = fold (\<lambda>(n, cc) cs. cs(n \<mapsto> projr (NewClient L (cc_RPCURL cc)))) ccs clients"
  by (induction ccs arbitrary: clients) (auto simp: NewClient_def split: option.splits)

lemma dialled_chains:
  assumes "dial_chains L ccs Map.empty = Inr clients" and "distinct (map fst ccs)"
  shows "clients n = map_option (\<lambda>cc. projr (NewClient L (cc_RPCURL cc))) (map_of ccs n)"
proof -
  have "fold (\<lambda>(n, cc) cs. cs(n \<mapsto> projr (NewClient L (cc_RPCURL cc)))) ccs m n =
      (case map_of ccs n of None \<Rightarrow> m n | Some cc \<Rightarrow> Some (projr (NewClient L (cc_RPCURL cc))))" for m
    using assms(2)
  proof (induction ccs arbitrary: m)
    case (Cons x xs)
    obtain k cc where x: "x = (k, cc)" by fastforce
    have "map_of xs k = None" using Cons.prems x by (simp add: map_of_eq_None_iff)
    then show ?case using Cons.IH [of "m(k \<mapsto> projr (NewClient L (cc_RPCURL cc)))"] Cons.prems
      by (auto simp: x split: option.split)
  qed simp
  then show ?thesis using assms(1) by (auto simp: dial_chains_ok split: option.split)
qed

section \<open>The service\<close>

text \<open>
  What \<open>RunServe\<close> holds once everything has been made: the configuration (with the secret of the
  HTTP API in \<open>cf_JwtSecret\<close>), the clients, the producer, the gRPC server with its two secrets and
  its client (\<open>None\<close>: the nil of a missing chain), the monitor, and which servers run. The worker's
  server is the library's: it starts with the service, and the same signal that \<open>RunServe\<close> waits
  for stops it.
\<close>

record ('x, 'db) service =
  sy_cfg :: config
  sy_clients :: "int \<rightharpoonup> ('x, 'db) client"
  sy_producer :: "'x producer"
  sy_gatewaySecret :: string
  sy_jwtSecret :: string
  sy_client :: "('x, 'db) client option"
  sy_srv :: srv
  sy_mon :: mon
  sy_grpc_up :: bool
  sy_http_up :: bool

definition new_service ::
  "config \<Rightarrow> (int \<rightharpoonup> ('x, 'db) client) \<Rightarrow> 'x producer \<Rightarrow> string \<Rightarrow> (nat \<Rightarrow> jwt_claims session_job) \<Rightarrow> ('x, 'db) service" where
  "new_service cfg clients producer jwtSecret jobs =
     \<lparr>sy_cfg = cfg, sy_clients = clients, sy_producer = producer, sy_gatewaySecret = cf_SecretKey cfg,
      sy_jwtSecret = trim_space jwtSecret, sy_client = clients (cf_ChainId cfg), sy_srv = new_server jobs,
      sy_mon = NewMonitor, sy_grpc_up = False, sy_http_up = False\<rparr>"

section \<open>Starting\<close>

datatype file_read = FileContent string | FileMissing | FileError string

text \<open>\<open>os.ReadFile\<close>, where a missing file is no error and reads as nothing.\<close>

fun read_jwtSecret :: "file_read \<Rightarrow> string res" where
  "read_jwtSecret (FileContent s) = Inr s"
| "read_jwtSecret FileMissing = Inr []"
| "read_jwtSecret (FileError err) = Inl (''failed to read JWT secret: '' @ err)"

record ('x, 'db) boot_env =
  be_viper :: viper
  be_level :: "string \<Rightarrow> int res"
  be_Build :: "int \<Rightarrow> string option"
  be_Ping :: "redis_config \<Rightarrow> string option"
  be_ReadFile :: "string \<Rightarrow> file_read"
  be_Connect :: "string \<Rightarrow> string option"
  be_libs :: "('x, 'db) client_libs"
  be_jobs :: "nat \<Rightarrow> jwt_claims session_job"

text \<open>\<open>db.NewClient\<close> of \<open>internal/db\<close>.\<close>

definition db_NewClient :: "('x, 'db) boot_env \<Rightarrow> string \<Rightarrow> string option" where
  "db_NewClient E url = (case be_Connect E url of
      Some err \<Rightarrow> Some (''failed to connect to database: '' @ err) | None \<Rightarrow> None)"

text \<open>The steps of \<open>RunServe\<close> that can fail, in their order.\<close>

datatype stage = Loading | Logging | Pinging | ReadingSecret | Connecting | Dialling

instantiation stage :: linorder
begin

fun stage_nr :: "stage \<Rightarrow> nat" where
  "stage_nr Loading = 0" | "stage_nr Logging = 1" | "stage_nr Pinging = 2" | "stage_nr ReadingSecret = 3"
| "stage_nr Connecting = 4" | "stage_nr Dialling = 5"

definition less_eq_stage :: "stage \<Rightarrow> stage \<Rightarrow> bool" where
  "less_eq_stage a b = (stage_nr a \<le> stage_nr b)"

definition less_stage :: "stage \<Rightarrow> stage \<Rightarrow> bool" where
  "less_stage a b = (stage_nr a < stage_nr b)"

instance
proof
  fix a b c :: stage
  show "a < b \<longleftrightarrow> a \<le> b \<and> \<not> b \<le> a" by (auto simp: less_eq_stage_def less_stage_def)
  show "a \<le> a" by (simp add: less_eq_stage_def)
  show "a \<le> b \<Longrightarrow> b \<le> c \<Longrightarrow> a \<le> c" by (simp add: less_eq_stage_def)
  show "a \<le> b \<Longrightarrow> b \<le> a \<Longrightarrow> a = b" by (cases a; cases b) (simp_all add: less_eq_stage_def)
  show "a \<le> b \<or> b \<le> a" by (auto simp: less_eq_stage_def)
qed

end

text \<open>
  How \<open>RunServe\<close> gets to its wait for a signal, or where it ends before, with a message or (the
  logger) a panic; and what it has left outside itself: the variable of the configuration
  package, the database (closed by the deferred call when it returns), the producer's goroutine.
\<close>

datatype ('x, 'db) served = Ends stage string | Waits "('x, 'db) service"

datatype db_conn = Unopened | Open | Closed

record 'x boot =
  bt_cfg :: "config option"
  bt_db :: db_conn
  bt_producer :: "'x producer option"

definition RunServe :: "('x, 'db) boot_env \<Rightarrow> config option \<Rightarrow> ('x, 'db) served \<times> 'x boot" where
  "RunServe E global =
     (case config_Load (be_viper E) global of
        (Inl err, g) \<Rightarrow> (Ends Loading (''failed to load config: '' @ err), \<lparr>bt_cfg = g, bt_db = Unopened, bt_producer = None\<rparr>)
      | (Inr cfg, g) \<Rightarrow>
          let lvl = (case be_level E (cf_LogLevel cfg) of Inl err \<Rightarrow> 0 | Inr l \<Rightarrow> l);
              boot = \<lparr>bt_cfg = g, bt_db = Unopened, bt_producer = None\<rparr>
          in case be_Build E lvl of Some err \<Rightarrow> (Ends Logging err, boot) | None \<Rightarrow>
             (case be_Ping E (cf_Redis cfg) of Some err \<Rightarrow> (Ends Pinging err, boot) | None \<Rightarrow>
             (case read_jwtSecret (be_ReadFile E (cf_JwtSecretPath cfg)) of Inl err \<Rightarrow> (Ends ReadingSecret err, boot) | Inr jwtSecret \<Rightarrow>
             let cfg1 = cfg\<lparr>cf_JwtSecret := jwtSecret\<rparr>; boot1 = boot\<lparr>bt_cfg := Some cfg1\<rparr> in
             (case db_NewClient E (dc_URL (cf_Database cfg1)) of
                Some err \<Rightarrow> (Ends Connecting (''failed to initialize database: '' @ err), boot1)
              | None \<Rightarrow>
                 let producer = NewRunnerEventProducer; boot2 = boot1\<lparr>bt_db := Open, bt_producer := Some producer\<rparr> in
                 (case dial_chains (be_libs E) (ec_Chains (cf_Ethereum cfg1)) Map.empty of
                    Inl err \<Rightarrow> (Ends Dialling err, boot2\<lparr>bt_db := Closed\<rparr>)
                  | Inr clients \<Rightarrow> (Waits (new_service cfg1 clients producer jwtSecret (be_jobs E)), boot2))))))"

section \<open>The servers\<close>

definition grpc_Start :: "(int \<Rightarrow> string option) \<Rightarrow> int \<Rightarrow> ('x, 'db) service \<Rightarrow> string option \<times> ('x, 'db) service" where
  "grpc_Start listen port s =
     (case listen port of
        Some err \<Rightarrow> (Some (''failed to listen: '' @ err), s)
      | None \<Rightarrow> (None, s\<lparr>sy_grpc_up := True\<rparr>))"

text \<open>The end of \<open>Server.Start\<close>: the HTTP server on its own port.\<close>

definition http_Serve :: "(string \<Rightarrow> string option) \<Rightarrow> ('x, 'db) service \<Rightarrow> string option \<times> ('x, 'db) service" where
  "http_Serve listen s =
     (let addr = sc_Host (cf_Server (sy_cfg s)) @ '':'' @ fmt_d (sc_Port (cf_Server (sy_cfg s))) in
      case listen addr of
        Some e \<Rightarrow> (Some e, s)
      | None \<Rightarrow> (None, s\<lparr>sy_http_up := True\<rparr>))"

text \<open>
  \<open>Server.Start\<close> of the API: the monitor, then the gRPC server in a goroutine of its own (whose
  error is only logged), then the HTTP server.
\<close>

definition api_Start ::
  "db_error + contract list \<Rightarrow> (int \<times> u64 res) list \<Rightarrow> (int \<Rightarrow> string option) \<Rightarrow> (string \<Rightarrow> string option) \<Rightarrow>
   ('x, 'db) service \<Rightarrow> string option \<times> ('x, 'db) service" where
  "api_Start contracts heads grpc_listen http_listen s =
     (let (err, mo) = StartMonitor contracts heads (Some (sy_mon s)); s1 = s\<lparr>sy_mon := the mo\<rparr> in
      case err of
        Some e \<Rightarrow> (Some (''failed to start monitor: '' @ e), s1)
      | None \<Rightarrow>
          http_Serve http_listen (snd (grpc_Start grpc_listen (gc_Port (cf_GrpcServer (sy_cfg s1))) s1)))"

text \<open>
  \<open>Stop\<close> of the gRPC server: the scheduler is told to end, and the library cancels the contexts of
  the streams.
\<close>

definition grpc_Stop :: "('x, 'db) service \<Rightarrow> ('x, 'db) service go_step" where
  "grpc_Stop s =
     (case sched_Stop (sv_sched (sy_srv s)) of
        None \<Rightarrow> Panics
      | Some sched \<Rightarrow> Goes (s\<lparr>sy_grpc_up := False, sy_srv := (sy_srv s)\<lparr>sv_sched := sched,
          sv_streams := (\<lambda>i. (sv_streams (sy_srv s) i)\<lparr>sm_cancelled := True\<rparr>)\<rparr>\<rparr>))"

definition api_Stop :: "('x, 'db) service \<Rightarrow> ('x, 'db) service go_step" where
  "api_Stop s = grpc_Stop (s\<lparr>sy_mon := monitor_Stop (sy_mon s)\<rparr>)"

text \<open>What \<open>RunServe\<close> does after the signal: the producer first. The HTTP server is not stopped.\<close>

definition serve_shutdown :: "('x, 'db) service \<Rightarrow> ('x, 'db) service go_step" where
  "serve_shutdown s = bind_step (producer_Stop (sy_producer s)) (\<lambda>p. api_Stop (s\<lparr>sy_producer := p\<rparr>))"

section \<open>Where starting ends\<close>

definition boot_config :: "('x, 'db) boot_env \<Rightarrow> config" where
  "boot_config E = (snd (vp_Unmarshal (be_viper E) zero_config))\<lparr>cf_SecretKey := vp_GetString (be_viper E) ''SECRET_KEY''\<rparr>"

definition boot_level :: "('x, 'db) boot_env \<Rightarrow> int" where
  "boot_level E = (case be_level E (cf_LogLevel (boot_config E)) of Inl err \<Rightarrow> 0 | Inr l \<Rightarrow> l)"

definition boot_secret :: "('x, 'db) boot_env \<Rightarrow> string res" where
  "boot_secret E = read_jwtSecret (be_ReadFile E (cf_JwtSecretPath (boot_config E)))"

text \<open>Which steps cannot succeed, each taken by itself.\<close>

fun boot_fails :: "('x, 'db) boot_env \<Rightarrow> stage \<Rightarrow> bool" where
  "boot_fails E Loading =
     (vp_ReadInConfig (be_viper E) \<noteq> None \<or> fst (vp_Unmarshal (be_viper E) zero_config) \<noteq> None)"
| "boot_fails E Logging = (be_Build E (boot_level E) \<noteq> None)"
| "boot_fails E Pinging = (be_Ping E (cf_Redis (boot_config E)) \<noteq> None)"
| "boot_fails E ReadingSecret = (\<not> is_ok (boot_secret E))"
| "boot_fails E Connecting = (be_Connect E (dc_URL (cf_Database (boot_config E))) \<noteq> None)"
| "boot_fails E Dialling = (\<exists>(n, cc) \<in> set (ec_Chains (cf_Ethereum (boot_config E))). lb_dial (be_libs E) (cc_RPCURL cc) \<noteq> None)"

lemma stage_less: "a < b \<longleftrightarrow> stage_nr a < stage_nr b"
  by (simp add: less_stage_def)

lemma all_stages: "(\<forall>st. P st) \<longleftrightarrow> P Loading \<and> P Logging \<and> P Pinging \<and> P ReadingSecret \<and> P Connecting \<and> P Dialling"
  by (metis stage.exhaust)

text \<open>The run in terms of the steps that fail.\<close>

lemma RunServe_Loading:
  "boot_fails E Loading \<Longrightarrow> \<exists>err g. RunServe E global = (Ends Loading err, \<lparr>bt_cfg = g, bt_db = Unopened, bt_producer = None\<rparr>)"
  by (cases "vp_Unmarshal (be_viper E) zero_config"; cases "vp_ReadInConfig (be_viper E)"; cases "fst (vp_Unmarshal (be_viper E) zero_config)")
    (simp_all add: RunServe_def config_Load_def)

lemma RunServe_loaded:
  assumes "\<not> boot_fails E Loading"
  shows "RunServe E global =
    (let boot = \<lparr>bt_cfg = Some (boot_config E), bt_db = Unopened, bt_producer = None\<rparr>;
         cfg1 = (boot_config E)\<lparr>cf_JwtSecret := projr (boot_secret E)\<rparr>; boot1 = boot\<lparr>bt_cfg := Some cfg1\<rparr>;
         boot2 = boot1\<lparr>bt_db := Open, bt_producer := Some NewRunnerEventProducer\<rparr>
     in case be_Build E (boot_level E) of Some err \<Rightarrow> (Ends Logging err, boot) | None \<Rightarrow>
       (case be_Ping E (cf_Redis (boot_config E)) of Some err \<Rightarrow> (Ends Pinging err, boot) | None \<Rightarrow>
       (case boot_secret E of Inl err \<Rightarrow> (Ends ReadingSecret err, boot) | Inr jwtSecret \<Rightarrow>
       (case db_NewClient E (dc_URL (cf_Database (boot_config E))) of
          Some err \<Rightarrow> (Ends Connecting (''failed to initialize database: '' @ err), boot1)
        | None \<Rightarrow>
           (case dial_chains (be_libs E) (ec_Chains (cf_Ethereum (boot_config E))) Map.empty of
              Inl err \<Rightarrow> (Ends Dialling err, boot2\<lparr>bt_db := Closed\<rparr>)
            | Inr clients \<Rightarrow> (Waits (new_service cfg1 clients NewRunnerEventProducer jwtSecret (be_jobs E)), boot2))))))"
proof -
  have l: "config_Load (be_viper E) global = (Inr (boot_config E), Some (boot_config E))"
    using assms by (cases "vp_Unmarshal (be_viper E) zero_config") (auto simp: config_Load_Inr boot_config_def)
  show ?thesis
    by (simp add: RunServe_def l Let_def boot_level_def [symmetric] boot_secret_def [symmetric]
        split: option.split sum.split)
qed

lemma dial_fails:
  "is_ok (dial_chains (be_libs E) (ec_Chains (cf_Ethereum (boot_config E))) Map.empty) = (\<not> boot_fails E Dialling)"
  by (simp only: is_ok_iff dial_chains_ok) auto

lemma connect_fails: "db_NewClient E url = None \<longleftrightarrow> be_Connect E url = None"
  by (simp add: db_NewClient_def split: option.split)

lemma served_ok:
  assumes "RunServe E global = (Waits sy, b)"
  shows "\<not> boot_fails E st"
proof -
  have l: "\<not> boot_fails E Loading" using RunServe_Loading [of E global] assms by fastforce
  then have "\<not> boot_fails E Logging \<and> \<not> boot_fails E Pinging \<and> \<not> boot_fails E ReadingSecret \<and>
      \<not> boot_fails E Connecting \<and> \<not> boot_fails E Dialling"
    using assms dial_fails [of E] connect_fails [of E]
    by (auto simp del: boot_fails.simps(6) simp: RunServe_loaded Let_def is_ok_iff split: option.splits sum.splits)
  with l show ?thesis by (cases st) simp_all
qed

text \<open>
  C24. \<open>RunServe\<close> waits for its signal exactly when no step fails, and otherwise returns (or
  panics, in the logger) at the first step that does. When it returns, the database is not left
  open: it is closed if it was opened, which is when only the dialling failed; the producer's
  goroutine is left then, and not otherwise. When it waits, the configuration that the package
  gives out is the service's, and its clients are those of the chains configured.
\<close>

theorem start_up_stages:
  assumes "RunServe E global = (out, b)"
  shows "case out of
      Ends st err \<Rightarrow> boot_fails E st \<and> (\<forall>st' < st. \<not> boot_fails E st') \<and>
        bt_db b = (if Connecting < st then Closed else Unopened) \<and> (bt_producer b \<noteq> None) = (Connecting < st) \<and>
        (Loading < st \<longrightarrow> map_option (\<lambda>c. c\<lparr>cf_JwtSecret := []\<rparr>) (config_Get (bt_cfg b)) =
           Some ((boot_config E)\<lparr>cf_JwtSecret := []\<rparr>))
    | Waits sy \<Rightarrow> (\<forall>st. \<not> boot_fails E st) \<and> bt_db b = Open \<and> bt_producer b = Some (sy_producer sy) \<and>
        config_Get (bt_cfg b) = Some (sy_cfg sy) \<and> sy_cfg sy = (boot_config E)\<lparr>cf_JwtSecret := projr (boot_secret E)\<rparr> \<and>
        (distinct (map fst (ec_Chains (cf_Ethereum (sy_cfg sy)))) \<longrightarrow>
          sy_clients sy n = map_option (\<lambda>cc. projr (NewClient (be_libs E) (cc_RPCURL cc)))
            (map_of (ec_Chains (cf_Ethereum (sy_cfg sy))) n))"
proof (cases "boot_fails E Loading")
  case True
  then show ?thesis using assms RunServe_Loading [OF True, of global] by (auto simp: stage_less)
next
  case False
  note run = assms [unfolded RunServe_loaded [OF False] Let_def] and loaded = False
  note dial = dial_fails [of E] and conn = connect_fails [of E]
  consider "boot_fails E Logging" | "\<not> boot_fails E Logging" "boot_fails E Pinging"
    | "\<not> boot_fails E Logging" "\<not> boot_fails E Pinging" "boot_fails E ReadingSecret"
    | "\<not> boot_fails E Logging" "\<not> boot_fails E Pinging" "\<not> boot_fails E ReadingSecret" "boot_fails E Connecting"
    | "\<not> boot_fails E Logging" "\<not> boot_fails E Pinging" "\<not> boot_fails E ReadingSecret" "\<not> boot_fails E Connecting"
      "boot_fails E Dialling"
    | "\<not> boot_fails E Logging" "\<not> boot_fails E Pinging" "\<not> boot_fails E ReadingSecret" "\<not> boot_fails E Connecting"
      "\<not> boot_fails E Dialling" by blast
  then show ?thesis
  proof cases
    case 1
    then show ?thesis using run loaded by (auto simp: all_stages stage_less config_Get_def split: option.splits)
  next
    case 2
    then show ?thesis using run loaded by (auto simp: all_stages stage_less config_Get_def split: option.splits)
  next
    case 3
    then show ?thesis using run loaded by (auto simp: all_stages stage_less config_Get_def is_ok_iff split: option.splits sum.splits)
  next
    case 4
    then show ?thesis using run loaded conn
      by (auto simp: all_stages stage_less config_Get_def is_ok_iff split: option.splits sum.splits)
  next
    case 5
    then obtain err where "dial_chains (be_libs E) (ec_Chains (cf_Ethereum (boot_config E))) Map.empty = Inl err"
      using dial by (cases "dial_chains (be_libs E) (ec_Chains (cf_Ethereum (boot_config E))) Map.empty") auto
    then show ?thesis using 5 run loaded conn [THEN iffD2]
      by (auto simp del: boot_fails.simps(6) simp: all_stages stage_less config_Get_def is_ok_iff split: option.splits sum.splits)
  next
    case 6
    then obtain clients where c: "dial_chains (be_libs E) (ec_Chains (cf_Ethereum (boot_config E))) Map.empty = Inr clients"
      using dial by (cases "dial_chains (be_libs E) (ec_Chains (cf_Ethereum (boot_config E))) Map.empty") auto
    then show ?thesis using 6 run loaded conn [THEN iffD2] dialled_chains [OF c, of n]
      by (auto simp del: boot_fails.simps(6) simp: all_stages stage_less config_Get_def is_ok_iff new_service_def
          split: option.splits sum.splits)
  qed
qed

definition sample_libs :: "(string \<Rightarrow> string option) \<Rightarrow> (unit, tables) client_libs" where
  "sample_libs dial = \<lparr>lb_dial = dial, lb_abi = sample_abi, lb_store = table_store,
     lb_block_time = (\<lambda>url n. Inr (u64_of_int (n * 10)))\<rparr>"

definition sample_config :: config where
  "sample_config = zero_config\<lparr>cf_Ethereum := \<lparr>ec_Chains = [(2484, \<lparr>cc_RPCURL = ''testnet'', cc_BlockTime = 5\<rparr>),
     (39, \<lparr>cc_RPCURL = ''mainnet'', cc_BlockTime = 1\<rparr>)]\<rparr>, cf_ChainId := 2484, cf_JwtSecretPath := ''key''\<rparr>"

text \<open>A surrounding in which only a node may refuse.\<close>

definition sample_boot :: "(string \<Rightarrow> string option) \<Rightarrow> file_read \<Rightarrow> (unit, tables) boot_env" where
  "sample_boot dial key = \<lparr>be_viper = \<lparr>vp_ReadInConfig = None, vp_Unmarshal = (\<lambda>c. (None, sample_config)),
       vp_GetString = (\<lambda>k. ''s3cret'')\<rparr>,
     be_level = (\<lambda>l. Inl ''unrecognized level''), be_Build = (\<lambda>l. None), be_Ping = (\<lambda>c. None), be_ReadFile = (\<lambda>path. key),
     be_Connect = (\<lambda>url. None), be_libs = sample_libs dial,
     be_jobs = (\<lambda>_. \<lparr>job_token = [], job_claims = sample_claims, job_runAt = 0, job_canceled = False, job_index = 0\<rparr>)\<rparr>"

lemma sample_boot_config:
  "config_Load (be_viper (sample_boot dial key)) g =
    (Inr (sample_config\<lparr>cf_SecretKey := ''s3cret''\<rparr>), Some (sample_config\<lparr>cf_SecretKey := ''s3cret''\<rparr>))"
  by (simp add: sample_boot_def config_Load_def Let_def)

theorem start_up_stages_witness:
  "\<exists>err b. RunServe (sample_boot (\<lambda>url. if url = ''mainnet'' then Some ''refused'' else None) (FileContent ''k'')) None =
    (Ends Dialling err, b) \<and> bt_db b = Closed \<and> bt_producer b \<noteq> None"
proof -
  let ?E = "sample_boot (\<lambda>url. if url = ''mainnet'' then Some ''refused'' else None) (FileContent ''k'')"
  obtain err b where r: "RunServe ?E None = (Ends Dialling err, b)"
    by (simp add: RunServe_def sample_boot_config)
      (simp add: sample_boot_def sample_libs_def sample_config_def NewClient_def db_NewClient_def Let_def)
  then show ?thesis using start_up_stages [OF r, of 0] by (auto simp: stage_less)
qed

section \<open>The two secrets of a running service\<close>

lemma served_secrets:
  assumes "RunServe E global = (Waits sy, b)" and "boot_secret E = Inr key"
  shows "cf_JwtSecret (sy_cfg sy) = key" "sy_jwtSecret sy = trim_space key"
proof -
  have "\<not> boot_fails E Loading" using served_ok [OF assms(1)] by blast
  then show "cf_JwtSecret (sy_cfg sy) = key" "sy_jwtSecret sy = trim_space key"
    using assms by (auto simp: RunServe_loaded Let_def new_service_def split: option.splits sum.splits)
qed

text \<open>
  C25. A token that the gRPC server of a running service has issued, presented to its HTTP API
  before it expires, is let through exactly when the file of the secret has no white space at
  its ends (a file without zero bytes): the gRPC server trims the secret, the HTTP API does
  not. A service whose file is missing runs with the empty secret: whatever is signed with the
  empty key is let through by the HTTP API and accepted by the gRPC server.
\<close>

theorem service_tokens:
  assumes "jwt_ok J" and "RunServe E global = (Waits sy, b)"
    and "RequestToken J now now' (sy_jwtSecret sy) addr duration = Inr (tok, expires)"
    and "wb_now w < expiry_time now duration - expiry_time now duration mod second_ns"
    and "rq_headers r ''Authorization'' = ''Bearer '' @ tok"
  shows "case be_ReadFile E (cf_JwtSecretPath (boot_config E)) of
      FileContent file \<Rightarrow> CHR 0x00 \<notin> set file \<longrightarrow>
        auth_ok J (cf_JwtSecret (sy_cfg sy)) r w = (trim_space file = file)
    | FileMissing \<Rightarrow> auth_ok J (cf_JwtSecret (sy_cfg sy)) r w \<and>
        (\<forall>claims forged. jw_Sign J [] claims = Inr forged \<longrightarrow> unexpired (wb_now w) claims \<longrightarrow>
          auth_ok J (cf_JwtSecret (sy_cfg sy)) (r\<lparr>rq_headers := (rq_headers r)(''Authorization'' := ''Bearer '' @ forged)\<rparr>) w \<and>
          server_ValidateJWT J (wb_now w) (sy_jwtSecret sy) (\<lambda>k. False) forged = Inr claims)
    | FileError err \<Rightarrow> False"
proof -
  have tok: "GenerateJWT J now addr duration (sy_jwtSecret sy) = Inr tok"
    using assms(3) by (auto simp: RequestToken_def split: sum.splits)
  have "is_ok (boot_secret E)" using served_ok [OF assms(2), of ReadingSecret] by simp
  then obtain key where key: "boot_secret E = Inr key" by (auto simp: is_ok_iff)
  note S = served_secrets [OF assms(2) key]
  have same: "auth_ok J key r w" if "trim_space key = key"
    using generated_valid(2) [OF assms(1) tok, of "''Bearer '' @ tok" "wb_now w"] assms(4,5) that S
    by (auto simp: auth_ok_def split: sum.splits)
  show ?thesis
  proof (cases "be_ReadFile E (cf_JwtSecretPath (boot_config E))")
    case (FileContent content)
    then have f: "content = key" using key by (simp add: boot_secret_def)
    have "\<not> auth_ok J key r w" if "trim_space key \<noteq> key" "CHR 0x00 \<notin> set key"
      using trimmed_secret_mismatch [OF assms(1) _ that, where tok = tok and now = now and address = addr
          and expiry = duration and now' = "wb_now w"] tok S assms(5)
      by (simp add: auth_ok_def)
    then show ?thesis using same S FileContent f by auto
  next
    case FileMissing
    then have k: "key = []" "trim_space key = key" using key by (auto simp: boot_secret_def trim_space_def)
    have "auth_ok J [] (r\<lparr>rq_headers := (rq_headers r)(''Authorization'' := ''Bearer '' @ forged)\<rparr>) w \<and>
        server_ValidateJWT J (wb_now w) [] (\<lambda>k. False) forged = Inr claims"
      if "jw_Sign J [] claims = Inr forged" "unexpired (wb_now w) claims" for claims forged
      using jwt_okD(2,3) [OF assms(1) that(1)] that(2)
      by (simp add: auth_ok_def jwt_ValidateJWT_def server_ValidateJWT_def strip_bearer_plain)
    then show ?thesis using same [OF k(2)] S FileMissing k by simp
  next
    case (FileError err)
    then show ?thesis using key by (simp add: boot_secret_def)
  qed
qed

lemma sample_serves:
  "\<exists>sy b. RunServe (sample_boot (\<lambda>url. None) (FileContent key)) None = (Waits sy, b) \<and> sy_jwtSecret sy = trim_space key"
  by (simp add: RunServe_def sample_boot_config)
    (simp add: sample_boot_def sample_libs_def sample_config_def NewClient_def db_NewClient_def new_service_def Let_def)

definition bearer_request :: "string \<Rightarrow> request" where
  "bearer_request tok = \<lparr>rq_method = ''GET'', rq_headers = (\<lambda>_. [])(''Authorization'' := ''Bearer '' @ tok),
     rq_query = (\<lambda>_. []), rq_address = None\<rparr>"

theorem service_tokens_witness:
  "\<exists>sy b. RunServe (sample_boot (\<lambda>url. None) (FileContent [CHR ''k'', CHR 0x0A])) None = (Waits sy, b) \<and>
    RequestToken (sample_jwt sample_claims) 5000000000 5000000000 (sy_jwtSecret sy) ''0xab'' 60 = Inr (''tk'', 65) \<and>
    \<not> auth_ok (sample_jwt sample_claims) (cf_JwtSecret (sy_cfg sy)) (bearer_request ''tk'') sample_api"
proof -
  let ?key = "[CHR ''k'', CHR 0x0A]"
  have t: "trim_space ?key = ''k''" by (simp add: trim_space_def is_space_def)
  obtain sy b where run: "RunServe (sample_boot (\<lambda>url. None) (FileContent ?key)) None = (Waits sy, b)"
    and k: "sy_jwtSecret sy = ''k''" using sample_serves [of ?key] t by auto
  have e: "expiry_time 5000000000 60 = 65000000000" by (simp add: expiry_time_def int64_wrap_def second_ns_def)
  have tok: "RequestToken (sample_jwt sample_claims) 5000000000 5000000000 (sy_jwtSecret sy) ''0xab'' 60 = Inr (''tk'', 65)"
    by (simp add: k RequestToken_def sample_generated e second_ns_def)
  have now: "wb_now sample_api < expiry_time 5000000000 60 - expiry_time 5000000000 60 mod second_ns"
    by (simp add: e second_ns_def sample_api_def)
  have f: "be_ReadFile (sample_boot (\<lambda>url. None) (FileContent ?key)) path = FileContent ?key" for path
    by (simp add: sample_boot_def)
  have h: "rq_headers (bearer_request ''tk'') ''Authorization'' = ''Bearer '' @ ''tk''" by (simp add: bearer_request_def)
  show ?thesis using service_tokens [OF sample_jwt_ok run tok now h] run tok t by (auto simp: f)
qed

section \<open>Shutting down\<close>

text \<open>The payloads that a client has published, given to the producer one after the other.\<close>

fun publish_all :: "'x payload list \<Rightarrow> 'x producer \<Rightarrow> 'x producer go_step" where
  "publish_all [] p = Goes p"
| "publish_all (e # es) p = bind_step (producer_Publish e p) (publish_all es)"

lemma process_logs_publishes:
  "process_logs c addr sig chain logs st cache = Goes (outs, st') \<Longrightarrow> \<exists>es. cs_pub st' = cs_pub st @ es"
proof (induction logs arbitrary: st cache outs)
  case (Cons l ls)
  obtain out st1 cache1 outs1 where s: "processEventLog c addr sig chain l st cache = Goes (out, st1, cache1)"
    and r: "process_logs c addr sig chain ls st1 cache1 = Goes (outs1, st')"
    using Cons.prems by (auto simp: result_simps)
  have "\<exists>es. cs_pub st1 = cs_pub st @ es"
  proof (cases "st_FindContract (cl_store c) chain (fst (contract_key c addr sig)) (snd (contract_key c addr sig)) (cs_db st)")
    case (Inl err)
    then show ?thesis using s by (simp add: processEventLog_def case_prod_beta)
  next
    case (Inr ct)
    then have ct: "contract_found c addr sig chain ct (cs_db st)" by (simp add: contract_found_def)
    show ?thesis by (rule processEventLog_cases [OF s ct]) simp_all
  qed
  then show ?case using Cons.IH [OF r] by auto
qed simp

text \<open>
  A running service whose producer and scheduler have not been stopped, and no registration of
  a contract is under way.
\<close>

definition service_running :: "('x, 'db) service \<Rightarrow> bool" where
  "service_running s = ((\<exists>rs. mon_life rs (sy_mon s) \<and> all_idle rs) \<and> mn_running (sy_mon s) \<and>
     \<not> ch_closed (pr_ch (sy_producer s)) \<and> \<not> sch_shutdown (sv_sched (sy_srv s)))"

text \<open>A log that was published on the way to its database is lost on a closed channel.\<close>

lemma published_panics:
  assumes "producer_Stop p0 = Goes p" and "FilterLogs c node addr sig from to chain st = Goes (Inr logs, st')"
    and "cs_pub st' \<noteq> cs_pub st"
  shows "publish_all (drop (length (cs_pub st)) (cs_pub st')) p = Panics"
proof -
  obtain outs where "process_logs c addr sig chain logs st Map.empty = Goes (outs, st')"
    using assms(2) by (auto simp: FilterLogs_def result_simps split: sum.splits)
  from process_logs_publishes [OF this] assms(3) obtain e es where "drop (length (cs_pub st)) (cs_pub st') = e # es"
    by (metis append_Nil2 append_eq_conv_conj neq_Nil_conv)
  moreover have "ch_closed (pr_ch p)"
    using assms(1) by (auto simp: producer_Stop_def chan_close_def result_simps split: if_splits)
  ultimately show ?thesis by (simp add: producer_Publish_def chan_send_def)
qed

text \<open>
  C27. The shutdown of a running service, when no registration of a contract is under way and no other
  goroutine takes a step meanwhile: afterwards the monitor does not run and every goroutine it
  started has been told to end, every stream's context is cancelled, the gRPC server is down, and
  the scheduler's loop ends at its next select; the events the producer still holds stay in its
  closed channel; the HTTP server is not stopped (it ends with the process); a second shutdown
  would panic. But the producer is stopped first, and while it already is and the monitor still
  runs, any goroutine that fetches a log and publishes it makes the process panic instead.
\<close>

theorem shutdown_stops_service:
  assumes "service_running s"
  shows "(\<exists>s'. serve_shutdown s = Goes s' \<and> \<not> IsRunning (sy_mon s') \<and>
      (\<forall>g \<in> set (mn_spawned (sy_mon s')). ctx_done (mn_contexts (sy_mon s')) (snd g)) \<and>
      (\<forall>i. sm_cancelled (sv_streams (sy_srv s') i)) \<and> \<not> sy_grpc_up s' \<and> sch_shutdown (sv_sched (sy_srv s')) \<and>
      ch_closed (pr_ch (sy_producer s')) \<and> ch_buf (pr_ch (sy_producer s')) = ch_buf (pr_ch (sy_producer s)) \<and>
      sy_http_up s' = sy_http_up s \<and> serve_shutdown s' = Panics)
    \<and> (\<exists>p. producer_Stop (sy_producer s) = Goes p \<and> IsRunning (sy_mon (s\<lparr>sy_producer := p\<rparr>)) \<and>
        (FilterLogs c node addr sig from to chain st = Goes (Inr logs, st') \<longrightarrow> cs_pub st' \<noteq> cs_pub st \<longrightarrow>
          publish_all (drop (length (cs_pub st)) (cs_pub st')) p = Panics))"
proof -
  have g: "\<forall>g \<in> set (mn_spawned (monitor_Stop (sy_mon s))). ctx_done (mn_contexts (monitor_Stop (sy_mon s))) (snd g)"
    "\<not> IsRunning (monitor_Stop (sy_mon s))"
    using assms life_Stop by (auto simp: service_running_def stopped_inv_def IsRunning_def)
  obtain p where p: "producer_Stop (sy_producer s) = Goes p"
    using assms by (auto simp: service_running_def producer_Stop_def chan_close_def)
  have run: "IsRunning (sy_mon (s\<lparr>sy_producer := p\<rparr>))" using assms by (simp add: service_running_def IsRunning_def)
  show ?thesis
  proof (rule conjI)
    show "\<exists>p. producer_Stop (sy_producer s) = Goes p \<and> IsRunning (sy_mon (s\<lparr>sy_producer := p\<rparr>)) \<and>
        (FilterLogs c node addr sig from to chain st = Goes (Inr logs, st') \<longrightarrow> cs_pub st' \<noteq> cs_pub st \<longrightarrow>
          publish_all (drop (length (cs_pub st)) (cs_pub st')) p = Panics)"
      using p run published_panics [OF p] by blast
  qed (use assms g in \<open>simp add: serve_shutdown_def producer_Stop_def chan_close_def api_Stop_def grpc_Stop_def
      sched_Stop_def service_running_def\<close>)
qed

definition running_service :: "(unit, tables) service" where
  "running_service = snd (api_Start (Inr [sample_contract]) [(39, Inr 10)] (\<lambda>_. None) (\<lambda>_. None)
     (new_service sample_config (\<lambda>_. None) NewRunnerEventProducer ''k'' (be_jobs (sample_boot (\<lambda>_. None) FileMissing))))"

lemma running_service: "service_running running_service"
proof -
  have m: "sy_mon running_service = snd (monitor_Start [] (Inr [sample_contract]) [(39, Inr 10)] NewMonitor)"
    "sy_producer running_service = NewRunnerEventProducer"
    "sv_sched (sy_srv running_service) = NewSessionScheduler (be_jobs (sample_boot (\<lambda>_. None) FileMissing))"
    by (simp_all add: running_service_def api_Start_def http_Serve_def StartMonitor_def new_service_def grpc_Start_def monitor_Start_def
        NewMonitor_def new_server_def Let_def)
  have "mon_life [new_registrar Starter [] []] (sy_mon running_service)"
    using life_Start [OF mon_life.new, of "[sample_contract]" "[]" "[(39, Inr 10)]"]
    by (simp add: m all_idle_def NewMonitor_def)
  moreover have "all_idle [new_registrar Starter [] []]" by (simp add: all_idle_def)
  moreover have "mn_running (sy_mon running_service)"
    by (simp add: m monitor_Start_def NewMonitor_def init_blocks_def watch_contract_sel Let_def)
  ultimately show ?thesis
    by (auto simp: service_running_def m(2,3) NewRunnerEventProducer_def make_chan_def NewSessionScheduler_def)
qed

theorem shutdown_stops_service_witness:
  "\<exists>s' p st'. serve_shutdown running_service = Goes s' \<and> \<not> IsRunning (sy_mon s') \<and> serve_shutdown s' = Panics \<and>
    producer_Stop (sy_producer running_service) = Goes p \<and>
    FilterLogs sample_client (\<lambda>q. Inr [sample_log 0, sample_log 1, sample_log 0]) (replicate 20 1) (replicate 32 7) 0 9 39
      sample_st = Goes (Inr [sample_log 0, sample_log 1, sample_log 0], st') \<and>
    publish_all (drop (length (cs_pub sample_st)) (cs_pub st')) p = Panics"
proof -
  obtain st' where st': "process_logs sample_client (replicate 20 1) (replicate 32 7) 39
     [sample_log 0, sample_log 1, sample_log 0] sample_st Map.empty = Goes ([Stored, Stored, Skipped], st')"
    using sample_run by blast
  have f: "FilterLogs sample_client (\<lambda>q. Inr [sample_log 0, sample_log 1, sample_log 0]) (replicate 20 1) (replicate 32 7) 0 9 39
      sample_st = Goes (Inr [sample_log 0, sample_log 1, sample_log 0], st')"
    using st' by (simp add: FilterLogs_def)
  have k: "known_keys (cl_store sample_client) (cs_db sample_st) = {}"
    by (simp add: known_keys_def sample_client_def sample_st_def table_store_sel first_row_def)
  have "cs_pub st' = cs_pub sample_st @ map (payload_of sample_client (replicate 20 1) (replicate 32 7) 39)
      (fresh_logs (log_key_of sample_client sample_contract) {} [sample_log 0, sample_log 1, sample_log 0])"
  proof -
    have ok: "log_store_ok (cl_store sample_client)" using table_store_ok by (simp add: sample_client_def)
    show ?thesis using process_logs_good [OF ok sample_found _ st', unfolded k] by (simp add: cache_ok_def)
  qed
  then have "cs_pub st' \<noteq> cs_pub sample_st" by simp
  then show ?thesis using shutdown_stops_service [OF running_service, where st = sample_st and st' = st'
      and logs = "[sample_log 0, sample_log 1, sample_log 0]" and c = sample_client] f by blast
qed

end
