(* ===== verification/Pipeline.thy ===== *)
theory Pipeline
  imports Api_Queries
begin

text \<open>
  A contract's way through the service: the registration writes its row and enqueues its task
  (\<open>internal/api/contract.go\<close>), the worker begins the task with that row
  (\<open>internal/worker/worker.go\<close>), the listener and the handler work through the past blocks
  (\<open>internal/listener/listener.go\<close>, \<open>pkg/ethereum/client.go\<close>), and the queries answer. No code of its
  own: what the components promise each other, put together.
\<close>

section \<open>What a backfill task has stored\<close>

abbreviation block_of :: "eth_log \<Rightarrow> int" where
  "block_of l \<equiv> int64_of (lg_BlockNumber l)"

text \<open>A node that answers a range, when it answers, with all the logs of some set in that range.\<close>

definition node_has :: "node \<Rightarrow> byte list \<Rightarrow> byte list \<Rightarrow> eth_log set \<Rightarrow> bool" where
  "node_has node addr sig L = (\<forall>f t logs.
     node \<lparr>fq_FromBlock = f, fq_ToBlock = t, fq_Addresses = [addr], fq_Topics = [[sig]]\<rparr> = Inr logs \<longrightarrow>
     {x \<in> L. f \<le> block_of x \<and> block_of x \<le> t} \<subseteq> set logs)"

abbreviation node_serves :: "node \<Rightarrow> listener \<Rightarrow> eth_log set \<Rightarrow> bool" where
  "node_serves node l L \<equiv> node_has node (ln_contract l) (ln_eventSig l) L"

abbreviation task_known :: "('x, 'db) task_env \<Rightarrow> ('x, 'db) task \<Rightarrow> log_key set" where
  "task_known E t \<equiv> known_keys (cl_store (te_client E)) (cs_db (tk_st t))"

text \<open>The logs of a set in the blocks from \<open>a\<close> up to (not including) \<open>b\<close> are stored.\<close>

definition stored_between :: "('x, 'db) task_env \<Rightarrow> eth_log set \<Rightarrow> int \<Rightarrow> int \<Rightarrow> ('x, 'db) task \<Rightarrow> bool" where
  "stored_between E L a b t =
     (\<forall>x \<in> L. a \<le> block_of x \<longrightarrow> block_of x < b \<longrightarrow> log_key_of (te_client E) (te_contract E) x \<in> task_known E t)"

lemma stored_between_mono: "stored_between E L a b t \<Longrightarrow> task_known E t \<subseteq> task_known E t' \<Longrightarrow> stored_between E L a b t'"
  by (auto simp: stored_between_def)

lemma stored_between_join: "stored_between E L a b t \<Longrightarrow> stored_between E L b c t \<Longrightarrow> stored_between E L a c t"
  by (auto simp: stored_between_def)

lemma known_step:
  assumes S: "task_store_ok E" and node: "node_safe (te_node E)"
  shows "task_step E t t' \<Longrightarrow> stored_inv E t \<Longrightarrow> task_known E t \<subseteq> task_known E t'"
proof (induction rule: task_step.induct)
  case (fetch t logs st)
  have "contract_found (te_client E) (ln_contract (te_listener E)) (ln_eventSig (te_listener E))
      (ln_chainID (te_listener E)) (te_contract E) (cs_db (tk_st t))"
    using fetch(5) by (simp add: stored_inv_def Let_def)
  from FilterLogs_stores [OF task_store_okD(1-3) [OF S] node this fetch(4) [unfolded task_filter_def]]
  show ?case by simp
next
  case (fetch_error t err st)
  have "contract_found (te_client E) (ln_contract (te_listener E)) (ln_eventSig (te_listener E))
      (ln_chainID (te_listener E)) (te_contract E) (cs_db (tk_st t))"
    using fetch_error(5) by (simp add: stored_inv_def Let_def)
  from FilterLogs_stores [OF task_store_okD(1-3) [OF S] node this fetch_error(4) [unfolded task_filter_def]]
  show ?case by simp
next
  case (handler_event t l ch out db)
  have "ch_buf (tk_events t) = l # ch_buf ch" using handler_event(2)
    by (auto simp: chan_recv_def split: list.splits if_splits)
  then have "log_key_of (te_client E) (te_contract E) l \<in> task_known E t"
    using handler_event(4) by (auto simp: stored_inv_def Let_def)
  then have "db = cs_db (tk_st t)" using worker_event_skips [OF S] handler_event(3) by fastforce
  then show ?case by simp
qed simp_all

text \<open>A fetched chunk is stored.\<close>

lemma fetched_chunk:
  assumes "task_store_ok E" "node_safe (te_node E)" "node_serves (te_node E) (te_listener E) L"
    and "stored_inv E t" "task_filter E t = Goes (Inr logs, st)"
  shows "stored_between E L (tk_cur t) (chunk_end (tk_cur t) (tk_end t) + 1) (t\<lparr>tk_st := st\<rparr>)"
proof -
  have "te_node E \<lparr>fq_FromBlock = tk_cur t, fq_ToBlock = chunk_end (tk_cur t) (tk_end t),
      fq_Addresses = [ln_contract (te_listener E)], fq_Topics = [[ln_eventSig (te_listener E)]]\<rparr> = Inr logs"
    using assms(5) by (auto simp: task_filter_def FilterLogs_def bind_step_Goes split: sum.splits)
  then have "{x \<in> L. tk_cur t \<le> block_of x \<and> block_of x \<le> chunk_end (tk_cur t) (tk_end t)} \<subseteq> set logs"
    using assms(3) unfolding node_has_def by blast
  then show ?thesis
    using task_filter_stores(2) [OF assms(1,2,4,5)] by (auto simp: stored_between_def)
qed

text \<open>A block at which one of the chunks of a range begins, or that follows the last of them.\<close>

definition at_chunk :: "int \<Rightarrow> int \<Rightarrow> int \<Rightarrow> bool" where
  "at_chunk start end cur \<longleftrightarrow>
     (\<exists>rs. chunks start end = rs @ chunks cur end \<and> cur = (if rs = [] then start else snd (last rs) + 1))"

lemma at_chunk_start [simp]: "at_chunk start end start"
  by (auto simp: at_chunk_def intro: exI [of _ "[]"])

lemma at_chunk_next:
  assumes "at_chunk start end cur" and "cur < end"
  shows "at_chunk start end (chunk_end cur end + 1)"
proof -
  obtain rs where "chunks start end = rs @ chunks cur end" using assms(1) unfolding at_chunk_def by blast
  moreover have "chunks cur end = (cur, chunk_end cur end) # chunks (chunk_end cur end + 1) end"
    using assms(2) by (subst chunks.simps) simp
  ultimately show ?thesis
    unfolding at_chunk_def by (intro exI [of _ "rs @ [(cur, chunk_end cur end)]"]) simp
qed

lemma at_chunk_last:
  assumes "at_chunk start end cur" and "end \<le> cur"
  shows "backfill_upto start end < start \<or> cur = backfill_upto start end + 1"
proof -
  have "chunks cur end = []" using assms(2) by (subst chunks.simps) simp
  then have "cur = (if chunks start end = [] then start else snd (last (chunks start end)) + 1)"
    using assms(1) by (auto simp: at_chunk_def)
  then show ?thesis
    using chunks_consecutive [of start "end"] consecutive_last [OF chunks_consecutive [of start "end"]]
    by (cases "chunks start end = []") auto
qed

text \<open>
  How far the listener is: the chunks before its current block are stored, and the one it is
  sending; when it has closed the channel there is none left.
\<close>

definition history_inv :: "('x, 'db) task_env \<Rightarrow> eth_log set \<Rightarrow> int \<Rightarrow> ('x, 'db) task \<Rightarrow> bool" where
  "history_inv E L end t =
     (let start = ln_startBlock (te_listener E); cur = tk_cur t in
      tk_phase t = Starting \<and> \<not> ch_closed (tk_events t) \<or>
      tk_end t = end \<and> at_chunk start end cur \<and> stored_between E L start cur t \<and>
      (\<forall>ls to. tk_phase t = Sending ls to \<longrightarrow> cur < end \<and> to = chunk_end cur end \<and> stored_between E L cur (to + 1) t) \<and>
      (ch_closed (tk_events t) \<longrightarrow> end \<le> cur))"

lemma history_start: "history_inv E L end (task_start st cache mo)"
  by (simp add: history_inv_def task_start_def make_chan_def)

text \<open>A step that leaves the listener where it is keeps it.\<close>

lemma history_same:
  assumes "history_inv E L end t" and "task_known E t \<subseteq> task_known E t'"
    and same: "tk_phase t' = tk_phase t" "tk_cur t' = tk_cur t" "tk_end t' = tk_end t"
      "ch_closed (tk_events t') = ch_closed (tk_events t)"
  shows "history_inv E L end t'"
proof -
  have "stored_between E L a c t'" if "stored_between E L a c t" for a c
    using stored_between_mono [OF that assms(2)] .
  then show ?thesis
    using assms(1) unfolding history_inv_def Let_def same by blast
qed

text \<open>A step to a phase in which nothing is being sent, at the same block, keeps it too.\<close>

lemma history_ends:
  assumes "history_inv E L end t" and "task_known E t \<subseteq> task_known E t'" and "tk_phase t \<noteq> Starting"
    and ph: "tk_phase t' \<in> {Ending, Signalled, Marked}" and same: "tk_cur t' = tk_cur t" "tk_end t' = tk_end t"
    and cl: "ch_closed (tk_events t') \<Longrightarrow> ch_closed (tk_events t) \<or> tk_end t \<le> tk_cur t"
  shows "history_inv E L end t'"
proof -
  have "tk_end t = end \<and> at_chunk (ln_startBlock (te_listener E)) end (tk_cur t) \<and>
      stored_between E L (ln_startBlock (te_listener E)) (tk_cur t) t \<and> (ch_closed (tk_events t) \<longrightarrow> end \<le> tk_cur t)"
    using assms(1,3) unfolding history_inv_def Let_def by blast
  moreover have "stored_between E L (ln_startBlock (te_listener E)) (tk_cur t) t'"
    if "stored_between E L (ln_startBlock (te_listener E)) (tk_cur t) t"
    using stored_between_mono [OF that assms(2)] .
  moreover have "tk_phase t' \<noteq> Sending ls to" for ls to using ph by auto
  ultimately show ?thesis unfolding history_inv_def Let_def same using cl by blast
qed

lemma history_sending:
  assumes "history_inv E L end t" and "tk_phase t = Sending ls to"
  shows "tk_cur t < end" "to = chunk_end (tk_cur t) end" "tk_end t = end"
    "stored_between E L (ln_startBlock (te_listener E)) (tk_cur t) t" "stored_between E L (tk_cur t) (to + 1) t"
    "at_chunk (ln_startBlock (te_listener E)) end (tk_cur t)"
  using assms unfolding history_inv_def Let_def by auto

lemma history_step:
  assumes S: "task_store_ok E" and node: "node_safe (te_node E)" and L: "node_serves (te_node E) (te_listener E) L"
    and b: "te_latest E = Inr b" and step: "task_step E t t'"
    and inv: "stored_inv E t" "task_inv t" and H: "history_inv E L (int64_of b) t"
  shows "history_inv E L (int64_of b) t'"
proof -
  note K = known_step [OF S node step inv(1)]
  note same = history_same [OF H K] and ends = history_ends [OF H K]
  from step show ?thesis
  proof cases
    case (latest b')
    then show ?thesis using b inv(2)
      by (auto simp: history_inv_def Let_def stored_between_def task_inv_def)
  next
    case (no_latest err)
    then show ?thesis using b by simp
  next
    case (fetch logs st)
    have "stored_between E L (tk_cur t) (chunk_end (tk_cur t) (tk_end t) + 1) t'"
      using fetched_chunk [OF S node L inv(1) fetch(5)] fetch(1) by (simp add: stored_between_def)
    moreover have "tk_end t = int64_of b" "stored_between E L (ln_startBlock (te_listener E)) (tk_cur t) t"
      "at_chunk (ln_startBlock (te_listener E)) (int64_of b) (tk_cur t)"
      using H fetch(2) by (auto simp: history_inv_def Let_def)
    moreover have "\<not> ch_closed (tk_events t)" using inv(2) fetch(2) by (auto simp: task_inv_def)
    ultimately show ?thesis
      using fetch stored_between_mono [OF _ K] by (simp add: history_inv_def Let_def)
  next
    case (next_chunk to)
    note N = history_sending [OF H next_chunk(2)]
    have "at_chunk (ln_startBlock (te_listener E)) (int64_of b) (to + 1)"
      using at_chunk_next [OF N(6,1)] N(2) by simp
    moreover have "stored_between E L (ln_startBlock (te_listener E)) (to + 1) t'"
      using stored_between_mono [OF stored_between_join [OF N(4,5)] K] .
    moreover have "\<not> ch_closed (tk_events t)" using inv(2) next_chunk by (auto simp: task_inv_def)
    ultimately show ?thesis using N(3) next_chunk by (simp add: history_inv_def Let_def)
  next
    case (send l ls to ch)
    note N = history_sending [OF H send(2)]
    have "ch_closed ch = ch_closed (tk_events t)" using send(3) by (auto simp: chan_send_def split: if_splits)
    moreover have "\<not> ch_closed (tk_events t)" using inv(2) send by (auto simp: task_inv_def)
    ultimately show ?thesis using N send(1) by (simp add: history_inv_def Let_def stored_between_def)
  next
    case (finish ch)
    then show ?thesis by (intro ends) auto
  next
    case (handler_event l ch out db)
    have "ch_closed ch = ch_closed (tk_events t)" using handler_event(3)
      by (auto simp: chan_recv_def split: list.splits if_splits)
    then show ?thesis using handler_event(1) by (intro same) simp_all
  qed ((intro same; simp; fail) | (intro ends; simp; fail))+
qed

lemma history_run:
  assumes S: "task_store_ok E" and node: "node_safe (te_node E)" and L: "node_serves (te_node E) (te_listener E) L"
    and b: "te_latest E = Inr b"
    and ct: "contract_found (te_client E) (ln_contract (te_listener E)) (ln_eventSig (te_listener E))
      (ln_chainID (te_listener E)) (te_contract E) (cs_db st)"
    and run: "task_run E (task_start st cache mo) t"
  shows "stored_inv E t \<and> task_inv t \<and> history_inv E L (int64_of b) t"
  using run
proof (induction "task_start st cache mo" t rule: task_run.induct)
  case here
  have "stored_inv E (task_start st cache mo)" using ct by (simp add: stored_inv_def task_start_def make_chan_def Let_def)
  then show ?case using task_inv_start history_start by blast
next
  case (further t' t'')
  then show ?case
    using stored_step [OF S node further(3)] task_inv_step [OF further(3)] history_step [OF S node L b further(3)] by blast
qed

text \<open>When the listener has closed the channel, the whole range is stored.\<close>

lemma history_stored:
  assumes "history_inv E L end t" and "ch_closed (tk_events t)"
  shows "stored_between E L (ln_startBlock (te_listener E)) (backfill_upto (ln_startBlock (te_listener E)) end + 1) t"
proof -
  have "at_chunk (ln_startBlock (te_listener E)) end (tk_cur t)" "end \<le> tk_cur t"
    "stored_between E L (ln_startBlock (te_listener E)) (tk_cur t) t"
    using assms unfolding history_inv_def Let_def by blast+
  with at_chunk_last show ?thesis by (fastforce simp: stored_between_def)
qed


section \<open>The rows that both sides see\<close>

text \<open>
  The API's queries and the client's are on the same tables: \<open>FindUnique\<close> on chain, address and
  signature answers such a row, and finds one when there is one; writing a log leaves the
  contracts alone.
\<close>

locale service_tables = api_tables A S for A :: "'db api_store" and S :: "'db store" +
  assumes unique_row: "st_FindContract S n a g db = Inr ct \<Longrightarrow>
      ct \<in> set (as_contracts A db) \<and> ct_ChainID ct = n \<and> ct_Address ct = a \<and> ct_EventSignature ct = g"
    and unique_found: "ct \<in> set (as_contracts A db) \<Longrightarrow> ct_ChainID ct = n \<Longrightarrow> ct_Address ct = a \<Longrightarrow>
      ct_EventSignature ct = g \<Longrightarrow> is_ok (st_FindContract S n a g db)"
    and log_leaves_contracts: "as_contracts A (snd (st_CreateLog S k d db)) = as_contracts A db"
begin

text \<open>A row that clashes with no other is the one found.\<close>

lemma found_alone:
  assumes "ct \<in> set (as_contracts A db)" and "\<forall>d \<in> set (as_contracts A db). clash ct d \<longrightarrow> d = ct"
  shows "st_FindContract S (ct_ChainID ct) (ct_Address ct) (ct_EventSignature ct) db = Inr ct"
proof -
  obtain d where d: "st_FindContract S (ct_ChainID ct) (ct_Address ct) (ct_EventSignature ct) db = Inr d"
    using unique_found [OF assms(1) refl refl refl] by (auto simp: is_ok_iff)
  from unique_row [OF this] have "d = ct" using assms(2) by (auto simp: clash_def)
  then show ?thesis using d by simp
qed

text \<open>What the client does with logs leaves the contracts alone.\<close>

lemma process_keeps_contracts:
  assumes "cl_store c = S"
  shows "process_logs c addr sig chain logs st cache = Goes (outs, st') \<Longrightarrow>
    as_contracts A (cs_db st') = as_contracts A (cs_db st)"
proof (induction logs arbitrary: st cache outs)
  case (Cons l ls)
  obtain out st1 cache1 outs1 where s: "processEventLog c addr sig chain l st cache = Goes (out, st1, cache1)"
    and r: "process_logs c addr sig chain ls st1 cache1 = Goes (outs1, st')"
    using Cons.prems by (auto simp: result_simps)
  have "as_contracts A (cs_db st1) = as_contracts A (cs_db st)"
  proof (cases "st_FindContract (cl_store c) chain (fst (contract_key c addr sig)) (snd (contract_key c addr sig)) (cs_db st)")
    case (Inl err)
    then show ?thesis using s by (simp add: processEventLog_def case_prod_beta)
  next
    case (Inr ct)
    then have ct: "contract_found c addr sig chain ct (cs_db st)" by (simp add: contract_found_def)
    show ?thesis
    proof (cases rule: processEventLog_cases [OF s ct])
      case (3 ts db r)
      then show ?thesis using log_leaves_contracts assms by (metis client_st.select_convs(1) client_st.surjective
            client_st.update_convs(1) snd_conv)
    qed simp_all
  qed
  then show ?case using Cons.IH [OF r] by simp
qed simp

lemma filter_keeps_contracts:
  "cl_store c = S \<Longrightarrow> FilterLogs c node addr sig from to chain st = Goes (res, st') \<Longrightarrow>
   as_contracts A (cs_db st') = as_contracts A (cs_db st)"
  using process_keeps_contracts [of c] by (auto simp: FilterLogs_def bind_step_Goes split: sum.splits)

lemma worker_keeps_contracts:
  "cl_store c = S \<Longrightarrow> worker_event find_any c ct sig l db = (out, db') \<Longrightarrow> as_contracts A db' = as_contracts A db"
  using log_leaves_contracts by (fastforce simp: worker_event_def Let_def split: if_splits prod.splits option.splits dest: arg_cong [of _ _ snd])

lemma task_keeps_contracts:
  assumes "cl_store (te_client E) = S" and "task_run E t0 t"
  shows "as_contracts A (cs_db (tk_st t)) = as_contracts A (cs_db (tk_st t0))"
proof -
  have "as_contracts A (cs_db (tk_st t')) = as_contracts A (cs_db (tk_st t))" if "task_step E t t'" for t t'
    using that by (induction rule: task_step.induct)
      (auto simp: task_filter_def filter_keeps_contracts [OF assms(1)] worker_keeps_contracts [OF assms(1)])
  note step = this
  show ?thesis using assms(2) by (induction rule: task_run.induct) (simp_all add: step)
qed

end

interpretation shared: service_tables table_api table_store
proof
  show "st_FindContract table_store n a g db = Inr ct \<Longrightarrow>
      ct \<in> set (as_contracts table_api db) \<and> ct_ChainID ct = n \<and> ct_Address ct = a \<and> ct_EventSignature ct = g" for n a g db ct
    by (cases db) (auto simp: table_store_sel table_api_def dest: first_row_Inr)
  show "is_ok (st_FindContract table_store n a g db)"
    if "ct \<in> set (as_contracts table_api db)" "ct_ChainID ct = n" "ct_Address ct = a" "ct_EventSignature ct = g" for n a g db ct
    using that by (cases db; cases "st_FindContract table_store n a g db")
      (auto simp: table_store_sel table_api_def dest: first_row_Inl)
  show "as_contracts table_api (snd (st_CreateLog table_store k d db)) = as_contracts table_api db" for k d db
    by (cases db) (simp add: table_store_sel table_api_def)
qed


section \<open>From the registration to the task\<close>

lemma registered_rows:
  assumes "registered E req es ids s s'" and "rp_status (wb_resp s') = 201"
  obtains cts where "as_contracts (av_store E) (ap_db s') = as_contracts (av_store E) (ap_db s) @ cts"
    "rows_for req es cts" "\<forall>e \<in> set es. \<forall>d \<in> set (as_contracts (av_store E) (ap_db s)). \<not> clash (wanted_row req e) d"
    "distinct (map fst es)" "distinct (map snd es)" "ap_queue s' = ap_queue s @ tasks_for req es"
proof -
  obtain cts k where K: "as_contracts (av_store E) (ap_db s') = as_contracts (av_store E) (ap_db s) @ cts"
    "rows_for req (take (length cts) es) cts"
    "\<forall>e \<in> set (take (length cts) es). \<forall>d \<in> set (as_contracts (av_store E) (ap_db s)). \<not> clash (wanted_row req e) d"
    "distinct (map fst (take (length cts) es))" "distinct (map snd (take (length cts) es))"
    "ap_queue s' = ap_queue s @ tasks_for req (take k es)" "k = length es" "length cts = k"
    using assms unfolding registered_def by (auto split: if_splits)
  show thesis by (rule that [of cts]) (use K in simp_all)
qed

text \<open>The new row of an event, and that no other row clashes with it.\<close>

lemma registered_alone:
  assumes "rows_for req es cts" "\<forall>e \<in> set es. \<forall>d \<in> set old. \<not> clash (wanted_row req e) d"
    and "distinct (map fst es)" "distinct (map snd es)" and "e \<in> set es"
  shows "\<exists>i. (wanted_row req e)\<lparr>ct_ID := i\<rparr> \<in> set cts \<and>
    (\<forall>d \<in> set (old @ cts). clash (wanted_row req e) d \<longrightarrow> d = (wanted_row req e)\<lparr>ct_ID := i\<rparr>)"
proof -
  obtain j where j: "j < length es" "es ! j = e" using assms(5) by (auto simp: in_set_conv_nth)
  have len: "length cts = length es" using list_all2_lengthD [OF assms(1) [unfolded rows_for_def]] by simp
  obtain i where i: "cts ! j = (wanted_row req e)\<lparr>ct_ID := i\<rparr>"
    using list_all2_nthD [OF assms(1) [unfolded rows_for_def] j(1)] j(2) by auto
  have "d = (wanted_row req e)\<lparr>ct_ID := i\<rparr>" if "d \<in> set (old @ cts)" "clash (wanted_row req e) d" for d
  proof -
    have "d \<in> set cts" using that assms(2,5) by auto
    then obtain k where k: "k < length es" "d = cts ! k" by (auto simp: in_set_conv_nth len)
    obtain i' where "cts ! k = (wanted_row req (es ! k))\<lparr>ct_ID := i'\<rparr>"
      using list_all2_nthD [OF assms(1) [unfolded rows_for_def] k(1)] by auto
    then have "fst (es ! j) = fst (es ! k) \<or> snd (es ! j) = snd (es ! k)"
      using that(2) k(2) j(2) by (simp add: clash_wanted)
    then have "k = j" using assms(3,4) j(1) k(1) by (auto simp: distinct_conv_nth)
    then show ?thesis using k i by simp
  qed
  moreover have "(wanted_row req e)\<lparr>ct_ID := i\<rparr> \<in> set cts" using i j(1) len by (metis nth_mem)
  ultimately show ?thesis by blast
qed

lemma wanted_row_sel [simp]:
  "ct_ChainID (wanted_row req e) = rr_ChainID req" "ct_Address (wanted_row req e) = to_lower (rr_ContractAddr req)"
  "ct_EventSignature (wanted_row req e) = fst e"
  by (simp_all add: wanted_row_def)

text \<open>A successful registration, with the row that the client then finds for an event.\<close>

lemma registered_event:
  fixes s :: "('x, 'db) api"
  assumes S: "service_tables (av_store E) S" and "rp_status (wb_resp s) = 0"
    and "s' = api_RegisterContract E (Inr req) s" and "rp_status (wb_resp s') = 201"
    and "parse_events (av_geth E) (rr_EventSignatures req) = Inr es" and "e \<in> set es"
  obtains i cts where "as_contracts (av_store E) (ap_db s') = as_contracts (av_store E) (ap_db s) @ cts" "rows_for req es cts"
    "(wanted_row req e)\<lparr>ct_ID := i\<rparr> \<in> set cts" "ap_queue s' = ap_queue s @ tasks_for req es"
    "st_FindContract S (rr_ChainID req) (to_lower (rr_ContractAddr req)) (fst e) (ap_db s') =
      Inr ((wanted_row req e)\<lparr>ct_ID := i\<rparr>)"
proof -
  have rows: "contract_rows (av_store E)" using S by (simp add: service_tables_def api_tables_def)
  have reg: "registered E req es [] s s'"
  proof (cases rule: registration_cases [OF assms(2), of E "Inr req"])
    case 1
    then show ?thesis using assms(3,4) by simp
  next
    case (2 req' es')
    then show ?thesis using register_events_registered [OF rows assms(2), of req es "[]"] assms(3,5) by simp
  qed
  obtain cts where C: "as_contracts (av_store E) (ap_db s') = as_contracts (av_store E) (ap_db s) @ cts"
    "rows_for req es cts" "\<forall>e \<in> set es. \<forall>d \<in> set (as_contracts (av_store E) (ap_db s)). \<not> clash (wanted_row req e) d"
    "distinct (map fst es)" "distinct (map snd es)" "ap_queue s' = ap_queue s @ tasks_for req es"
    using registered_rows [OF reg assms(4)] .
  obtain i where i: "(wanted_row req e)\<lparr>ct_ID := i\<rparr> \<in> set cts"
    "\<forall>d \<in> set (as_contracts (av_store E) (ap_db s')). clash (wanted_row req e) d \<longrightarrow> d = (wanted_row req e)\<lparr>ct_ID := i\<rparr>"
    using registered_alone [OF C(2-5) assms(6)] C(1) by auto
  have f: "st_FindContract S (rr_ChainID req) (to_lower (rr_ContractAddr req)) (fst e) (ap_db s') =
      Inr ((wanted_row req e)\<lparr>ct_ID := i\<rparr>)"
    using service_tables.found_alone [OF S, of "(wanted_row req e)\<lparr>ct_ID := i\<rparr>" "ap_db s'"] i C(1)
    by (simp add: clash_def)
  show thesis by (rule that [OF C(1,2) i(1) C(6) f])
qed


text \<open>An address written with its prefix, in any case, and the hash of a parsed signature.\<close>

definition hex_address :: "byte list \<Rightarrow> string \<Rightarrow> bool" where
  "hex_address a s = (length a = 20 \<and> has_prefix s ''0x'' \<and> to_lower s = ''0x'' @ hex_encode a)"

lemma hex_address_read:
  assumes "geth_ok G" and "hex_address a s"
  shows "HexToAddress G s = a" "to_lower (g_AddressHex G a) = to_lower s" "IsValidAddress G s"
proof -
  have "g_HexToAddress G s = a \<and> g_IsHexAddress G s" using assms unfolding geth_ok_def hex_address_def by blast
  then show "HexToAddress G s = a" "IsValidAddress G s"
    using assms(2) by (simp_all add: hex_address_def HexToAddress_def IsValidAddress_def)
  show "to_lower (g_AddressHex G a) = to_lower s"
    using assms(2) geth_okD(4) [OF assms(1)] by (simp add: hex_address_def)
qed

lemma parsed_hash:
  assumes "geth_ok G" and "parse_events G sigs = Inr es" and "e \<in> set es"
  shows "\<exists>h. length h = 32 \<and> fst e = ''0x'' @ hex_encode h"
proof -
  have "fst e \<in> range (\<lambda>k. g_HashHex G (g_Keccak256Hash G k))"
    using assms(2,3)
    by (induction sigs arbitrary: es) (auto simp: ParseEventSignature_def bind_res_Inr map_res_Inr)
  then show ?thesis using geth_okD(1,6) [OF assms(1)] by auto
qed

lemma hash_read:
  assumes "geth_ok G" and "length h = 32"
  shows "HexToHash G (''0x'' @ hex_encode h) = h" "g_HashHex G h = ''0x'' @ hex_encode h"
proof -
  have l: "to_lower (''0x'' @ hex_encode h) = ''0x'' @ hex_encode h"
    using lower_hex_EncodeToHex [of h] by (simp add: hex_EncodeToHex_def)
  have "HexToHash G (''0x'' @ hex_encode h) = g_HexToHash G (''0x'' @ hex_encode h)"
    unfolding HexToHash_def by (simp only: has_prefix_append if_True)
  then show "HexToHash G (''0x'' @ hex_encode h) = h"
    using assms l unfolding geth_ok_def by simp
  show "g_HashHex G h = ''0x'' @ hex_encode h" by (rule geth_okD(1) [OF assms(1)])
qed

lemma task_listener_sel:
  "ln_chainID (task_listener G p) = bp_ChainID p" "ln_contract (task_listener G p) = HexToAddress G (bp_ContractAddr p)"
  "ln_eventSig (task_listener G p) = HexToHash G (bp_EventSig p)" "ln_startBlock (task_listener G p) = bp_StartBlock p"
  by (simp_all add: task_listener_def NewEventListener_def)

lemma backfill_of_sel:
  "bp_ChainID (backfill_of req g) = rr_ChainID req" "bp_ContractAddr (backfill_of req g) = rr_ContractAddr req"
  "bp_EventSig (backfill_of req g) = g" "bp_StartBlock (backfill_of req g) = rr_StartBlock req"
  by (simp_all add: backfill_of_def)

lemma listener_finds:
  assumes "geth_ok (cl_geth c)" "geth_ok G" "parse_events G sigs = Inr es" "e \<in> set es"
    and "hex_address a (rr_ContractAddr req)"
    and "st_FindContract (cl_store c) (rr_ChainID req) (to_lower (rr_ContractAddr req)) (fst e) db = Inr ct"
  shows "contract_found c (ln_contract (task_listener (cl_geth c) (backfill_of req (fst e))))
      (ln_eventSig (task_listener (cl_geth c) (backfill_of req (fst e)))) (rr_ChainID req) ct db"
proof -
  obtain h where h: "length h = 32" "fst e = ''0x'' @ hex_encode h" using parsed_hash [OF assms(2-4)] by blast
  show ?thesis
    using hex_address_read [OF assms(1,5)] hash_read [OF assms(1) h(1)] assms(6) h(2)
    by (simp add: contract_found_def contract_key_def task_listener_sel backfill_of_sel)
qed

text \<open>
  C12. A registration that answers 201 has enqueued a task for each of its events, and when the
  worker begins that task (with the database and the clients as the registration left them) it
  finds the row created for this event and no other: it runs with it, or skips when the row is
  already marked as being backfilled. If the address was given with its prefix, the row is also
  the one that the client will look up for every log that the task's listener fetches.
\<close>

theorem registered_tasks_begin:
  fixes s :: "('x, 'db) api"
  assumes "service_tables (av_store E) (cl_store c)" and "rp_status (wb_resp s) = 0"
    and "s' = api_RegisterContract E (Inr req) s" and "rp_status (wb_resp s') = 201"
    and "parse_events (av_geth E) (rr_EventSignatures req) = Inr es" and "e \<in> set es"
    and "ap_clients s' (rr_ChainID req) = Some c" and "p = backfill_of req (fst e)"
  shows "(TypeBackfill, p) \<in> set (ap_queue s') \<and>
    (\<exists>i. let ct = (wanted_row req e)\<lparr>ct_ID := i\<rparr> in
      ct \<in> set (as_contracts (av_store E) (ap_db s')) \<and>
      handleBackfill_begin (Inr p) (ap_clients s') ctx (ap_db s') mo =
        (if \<exists>m. mo = Some m \<and> IsContractBackfilling i m then (Skips, mo)
         else (Runs ct, map_option (begin_monitor ctx ct) mo)) \<and>
      (geth_ok (av_geth E) \<longrightarrow> geth_ok (cl_geth c) \<longrightarrow> hex_address a (rr_ContractAddr req) \<longrightarrow>
        contract_found c (ln_contract (task_listener (cl_geth c) p)) (ln_eventSig (task_listener (cl_geth c) p))
          (rr_ChainID req) ct (ap_db s')))"
proof -
  obtain i cts where R: "as_contracts (av_store E) (ap_db s') = as_contracts (av_store E) (ap_db s) @ cts"
    "(wanted_row req e)\<lparr>ct_ID := i\<rparr> \<in> set cts" "ap_queue s' = ap_queue s @ tasks_for req es"
    and f: "st_FindContract (cl_store c) (rr_ChainID req) (to_lower (rr_ContractAddr req)) (fst e) (ap_db s') =
      Inr ((wanted_row req e)\<lparr>ct_ID := i\<rparr>)"
    using registered_event [OF assms(1-6)] by blast
  have "(TypeBackfill, p) \<in> set (ap_queue s')" using R(3) assms(6,8) by (auto simp: tasks_for_def)
  moreover have "handleBackfill_begin (Inr p) (ap_clients s') ctx (ap_db s') mo =
      (if \<exists>m. mo = Some m \<and> IsContractBackfilling i m then (Skips, mo)
       else (Runs ((wanted_row req e)\<lparr>ct_ID := i\<rparr>), map_option (begin_monitor ctx ((wanted_row req e)\<lparr>ct_ID := i\<rparr>)) mo))"
    using assms(7) f by (cases mo) (simp_all add: handleBackfill_begin_def assms(8) backfill_of_sel)
  moreover have "contract_found c (ln_contract (task_listener (cl_geth c) p)) (ln_eventSig (task_listener (cl_geth c) p))
      (rr_ChainID req) ((wanted_row req e)\<lparr>ct_ID := i\<rparr>) (ap_db s')"
    if "geth_ok (av_geth E)" "geth_ok (cl_geth c)" "hex_address a (rr_ContractAddr req)"
    using listener_finds [OF that(2,1) assms(5,6) that(3) f] by (simp add: assms(8))
  ultimately show ?thesis using R(1,2) by (intro conjI exI [of _ i]) (simp_all add: Let_def)
qed


section \<open>From the registration to the query\<close>

text \<open>
  C1. End to end, when nothing fails: the database accepts every row, and the node knows the time
  of every block, answers a range with all its logs of the contract, and gives each log a topic.
  (Where one of these fails, \<open>FilterLogs\<close> logs it and goes on without the log.) A contract that
  had no row is registered for one event with a prefixed address; the worker then runs its
  backfill task, whose listener and handler interleave in any way, and nothing else writes to the
  database. Once the listener is through (it has closed its channel), every log that the node has
  for the contract in the blocks from the start block to the latest one (except the latest one
  itself when its distance from the start is a multiple of 2001) is among the events that the
  query for this chain and address answers, when the page is large enough; also by transaction.
\<close>

theorem registered_history_is_served:
  fixes s :: "('x, 'db) api"
  assumes S: "service_tables (av_store E) (cl_store c)" and st0: "rp_status (wb_resp s) = 0"
    and s': "s' = api_RegisterContract E (Inr req) s" and created: "rp_status (wb_resp s') = 201"
    and sigs: "parse_events (av_geth E) (rr_EventSignatures req) = Inr [e]"
    and fresh: "\<not> (\<exists>d \<in> set (as_contracts (av_store E) (ap_db s)).
      ct_ChainID d = rr_ChainID req \<and> ct_Address d = to_lower (rr_ContractAddr req))"
    and c: "ap_clients s' (rr_ChainID req) = Some c" and geth: "geth_ok (av_geth E)" "geth_ok (cl_geth c)"
    and addr: "hex_address a (rr_ContractAddr req)"
    and begins: "handleBackfill_begin (Inr (backfill_of req (fst e))) (ap_clients s') ctx (ap_db s') mo = (Runs ct, mo')"
    and T: "te_client T = c" "te_contract T = ct" "te_listener T = task_listener (cl_geth c) (backfill_of req (fst e))"
      "te_latest T = Inr b"
    and env: "task_store_ok T" "node_safe (te_node T)" "node_serves (te_node T) (te_listener T) L"
    and run: "task_run T (task_start \<lparr>cs_db = ap_db s', cs_pub = pub\<rparr> cache mo') t" and closed: "ch_closed (tk_events t)"
    and l: "l \<in> L" "rr_StartBlock req \<le> block_of l" "block_of l \<le> backfill_upto (rr_StartBlock req) (int64_of b)"
    and g: "grpc_params g = (rr_ChainID req, tk, 0)" "to_lower (ge_ContractAddress g) = to_lower (rr_ContractAddr req)"
      "ge_TxHash g = [] \<or> ge_TxHash g = g_HashHex (cl_geth c) (lg_TxHash l)"
      "int (length (as_events (av_store E) (cs_db (tk_st t)))) \<le> tk"
    and ans: "grpc_GetEvents E (cs_db (tk_st t)) g = Inr answer"
  shows "\<exists>d \<in> set (gr_Data answer). ed_BlockNumber d = block_of l \<and>
    ed_TxHash d = to_lower (g_HashHex (cl_geth c) (lg_TxHash l)) \<and> ed_LogIndex d = int32_wrap (int64_of (lg_Index l))"
proof -
  let ?db = "cs_db (tk_st t)"
  have e: "e \<in> set [e]" by simp
  obtain i cts where R: "as_contracts (av_store E) (ap_db s') = as_contracts (av_store E) (ap_db s) @ cts"
    "rows_for req [e] cts" "(wanted_row req e)\<lparr>ct_ID := i\<rparr> \<in> set cts"
    and f: "st_FindContract (cl_store c) (rr_ChainID req) (to_lower (rr_ContractAddr req)) (fst e) (ap_db s') =
      Inr ((wanted_row req e)\<lparr>ct_ID := i\<rparr>)"
    using registered_event [OF S st0 s' created sigs e] by blast
  have ct: "ct = (wanted_row req e)\<lparr>ct_ID := i\<rparr>" and cts: "cts = [ct]"
    using begins c f R(2,3)
    by (auto simp: handleBackfill_begin_def backfill_of_sel rows_for_def list_all2_Cons1 split: if_splits option.splits)
  have found: "contract_found (te_client T) (ln_contract (te_listener T)) (ln_eventSig (te_listener T))
      (ln_chainID (te_listener T)) (te_contract T) (cs_db \<lparr>cs_db = ap_db s', cs_pub = pub\<rparr>)"
    using listener_finds [OF geth(2,1) sigs e addr f] by (simp add: T ct task_listener_sel backfill_of_sel)
  have "history_inv T L (int64_of b) t" using history_run [OF env T(4) found run] by blast
  from history_stored [OF this closed]
  have "stored_between T L (rr_StartBlock req) (backfill_upto (rr_StartBlock req) (int64_of b) + 1) t"
    by (simp add: T(3) task_listener_sel backfill_of_sel)
  then have k: "log_key_of c ct l \<in> known_keys (cl_store c) ?db"
    using l by (auto simp: stored_between_def T)
  have rows: "as_contracts (av_store E) ?db = as_contracts (av_store E) (ap_db s) @ [ct]"
    using service_tables.task_keeps_contracts [OF S _ run] by (simp add: T R(1) cts task_start_def)
  have first: "d = ct" if "as_FindFirst (av_store E) (contract_filters (rr_ChainID req) (ge_ContractAddress g)) ?db = Inr d" for d
    using contract_rows.first_ok [OF _ that] S fresh rows g(2)
    by (auto simp: service_tables_def api_tables_def contract_filters_def matches_def)
  have "api_tables (av_store E) (cl_store c)" using S by (simp add: service_tables_def)
  from known_is_answered [OF this k [unfolded log_key_of_def] first g(1,3,4) ans] show ?thesis .
qed


section \<open>A service that it happens in\<close>

definition first_request :: register_request where
  "first_request = \<lparr>rr_ChainID = 39, rr_ContractAddr = hex_EncodeToHex (replicate 20 1),
     rr_EventSignatures = [''A(address)''], rr_EventABI = [], rr_StartBlock = 0\<rparr>"

definition first_event :: "string \<times> string" where
  "first_event = (hex_EncodeToHex (BytesToHash (ascii_bytes ''A(address)'')), ''A'')"

definition first_env :: "tables api_env" where
  "first_env = sample_env\<lparr>av_geth := sample_geth\<rparr>"

definition first_api :: "(unit, tables) api" where
  "first_api = sample_api\<lparr>ap_clients := [39 \<mapsto> sample_client]\<rparr>"

definition first_task :: "(unit, tables) task_env" where
  "first_task = \<lparr>te_node = \<lambda>q. Inr [sample_log 0], te_latest = Inr 50, te_client = sample_client,
     te_listener = task_listener sample_geth (backfill_of first_request (fst first_event)),
     te_contract = sample_contract, te_sig = fst first_event,
     te_find = (\<lambda>k (cs, rows). first_row (\<lambda>r. snd (row_key r) = k) rows)\<rparr>"

lemma first_sel:
  "av_store first_env = table_api" "av_geth first_env = sample_geth" "rp_status (wb_resp first_api) = 0"
  "ap_db first_api = ([], [])" "ap_clients first_api = [39 \<mapsto> sample_client]"
  "cl_store sample_client = table_store" "cl_geth sample_client = sample_geth" "rr_ChainID first_request = 39"
  by (simp_all add: first_request_def first_env_def first_api_def sample_env_def sample_api_def blank_resp_def sample_client_def sample_abi_def)

lemma first_parse: "parse_events (av_geth first_env) (rr_EventSignatures first_request) = Inr [first_event]"
  by (simp add: first_sel first_request_def first_event_def ParseEventSignature_def sample_sigs)
    (simp add: sample_geth_def)

lemma first_address: "hex_address (replicate 20 1) (rr_ContractAddr first_request)"
proof -
  have "has_prefix (''0x'' @ r) ''0x''" for r by (rule has_prefix_append)
  then show ?thesis
    using lower_hex_EncodeToHex [of "replicate 20 1"]
    by (simp add: hex_address_def first_request_def hex_EncodeToHex_def)
qed

lemma first_registered:
  "rp_status (wb_resp (api_RegisterContract first_env (Inr first_request) first_api)) = 201"
  "ap_clients (api_RegisterContract first_env (Inr first_request) first_api) = [39 \<mapsto> sample_client]"
proof -
  have v: "IsValidAddress (av_geth first_env) (rr_ContractAddr first_request)"
    using hex_address_read(3) [OF sample_geth_ok first_address] by (simp add: first_sel)
  have "av_chains first_env (rr_ChainID first_request)" by (simp add: first_env_def sample_env_def first_request_def)
  then have r: "api_RegisterContract first_env (Inr first_request) first_api =
      register_events first_env first_request [first_event] [] first_api"
    using v first_parse by (simp add: api_RegisterContract_def)
  have q: "av_enqueue first_env ty p [] = None" for ty p by (simp add: first_env_def sample_env_def)
  show "rp_status (wb_resp (api_RegisterContract first_env (Inr first_request) first_api)) = 201"
    "ap_clients (api_RegisterContract first_env (Inr first_request) first_api) = [39 \<mapsto> sample_client]"
    unfolding r
    by (simp_all add: first_sel table_api_def Let_def register_abi_def first_request_def EnqueueTask_def q first_api_def
        send_json_def set_json_type_def resp_simps)
qed


theorem registered_tasks_begin_witness:
  "\<exists>i. handleBackfill_begin (Inr (backfill_of first_request (fst first_event))) [39 \<mapsto> sample_client] []
      (ap_db (api_RegisterContract first_env (Inr first_request) first_api)) None =
    (Runs ((wanted_row first_request first_event)\<lparr>ct_ID := i\<rparr>), None)"
proof -
  have c: "ap_clients (api_RegisterContract first_env (Inr first_request) first_api) (rr_ChainID first_request) = Some sample_client"
    by (simp add: first_registered(2) first_sel)
  have S: "service_tables (av_store first_env) (cl_store sample_client)"
    using shared.service_tables_axioms by (simp add: first_sel)
  have e: "first_event \<in> set [first_event]" by simp
  show ?thesis
    using registered_tasks_begin [OF S first_sel(3) refl first_registered(1) first_parse e c refl, of "[]" None "replicate 20 1"]
    by (auto simp: first_registered(2) Let_def)
qed


lemma first_run:
  "\<exists>t. task_run (first_task\<lparr>te_contract := ct\<rparr>) (task_start st Map.empty mo) t \<and> ch_closed (tk_events t)"
proof -
  let ?E = "first_task\<lparr>te_contract := ct\<rparr>" and ?t0 = "task_start st Map.empty mo"
  have safe: "node_safe (te_node ?E)" by (simp add: node_safe_def first_task_def sample_keys)
  have e50: "int64_of 50 = 50" by (simp add: int64_of_def)
  obtain t1 where t1: "task_step ?E ?t0 t1" "tk_phase t1 = Fetching" "tk_cur t1 = 0" "tk_end t1 = 50"
      "\<not> tk_cancelled t1" "tk_events t1 = make_chan 100"
    using task_step.latest [of ?t0 ?E 50]
    by (auto simp: task_start_def first_task_def task_listener_sel backfill_of_sel first_request_def e50)
  obtain res st1 where f: "task_filter ?E t1 = Goes (res, st1)"
    using FilterLogs_goes [OF safe] by (fastforce simp: task_filter_def)
  then have res: "res = Inr [sample_log 0]" by (auto simp: task_filter_def FilterLogs_def bind_step_Goes first_task_def)
  obtain t2 where t2: "task_step ?E t1 t2" "tk_phase t2 = Sending [sample_log 0] 50" "tk_events t2 = make_chan 100"
      "tk_end t2 = 50"
    using task_step.fetch [OF t1(2) _ t1(5) f [unfolded res]] t1 by (auto simp: chunk_end_def)
  obtain t3 where t3: "task_step ?E t2 t3" "tk_phase t3 = Sending [] 50" "tk_end t3 = 50" "\<not> ch_closed (tk_events t3)"
    using task_step.send [OF t2(2), of "(make_chan 100)\<lparr>ch_buf := [sample_log 0]\<rparr>" ?E] t2(3,4)
    by (auto simp: chan_send_def make_chan_def)
  obtain t4 where t4: "task_step ?E t3 t4" "tk_phase t4 = Fetching" "tk_cur t4 = 51" "tk_end t4 = 50"
      "\<not> ch_closed (tk_events t4)"
    using task_step.next_chunk [OF t3(2), of ?E] t3(3,4) by simp
  obtain t5 where t5: "task_step ?E t4 t5" "ch_closed (tk_events t5)"
    using task_step.finish [OF t4(2), of "tk_events t4\<lparr>ch_closed := True\<rparr>" ?E] t4 by (auto simp: chan_close_def)
  have "task_run ?E ?t0 t5" using t1(1) t2(1) t3(1) t4(1) t5(1) task_run.intros by meson
  then show ?thesis using t5(2) by blast
qed

theorem registered_history_is_served_witness:
  "\<exists>ct t g answer. task_run (first_task\<lparr>te_contract := ct\<rparr>)
      (task_start \<lparr>cs_db = ap_db (api_RegisterContract first_env (Inr first_request) first_api), cs_pub = []\<rparr> Map.empty None) t \<and>
    grpc_GetEvents first_env (cs_db (tk_st t)) g = Inr answer \<and> (\<exists>d \<in> set (gr_Data answer). ed_BlockNumber d = 5)"
proof -
  let ?s' = "api_RegisterContract first_env (Inr first_request) first_api"
  let ?p = "backfill_of first_request (fst first_event)"
  have S: "service_tables (av_store first_env) (cl_store sample_client)"
    using shared.service_tables_axioms by (simp add: first_sel)
  have e: "first_event \<in> set [first_event]" by simp
  obtain i cts where R: "as_contracts (av_store first_env) (ap_db ?s') = as_contracts (av_store first_env) (ap_db first_api) @ cts"
    "(wanted_row first_request first_event)\<lparr>ct_ID := i\<rparr> \<in> set cts"
    and f: "st_FindContract (cl_store sample_client) (rr_ChainID first_request) (to_lower (rr_ContractAddr first_request))
      (fst first_event) (ap_db ?s') = Inr ((wanted_row first_request first_event)\<lparr>ct_ID := i\<rparr>)"
    using registered_event [OF S first_sel(3) refl first_registered(1) first_parse e] by blast
  define ct where "ct = (wanted_row first_request first_event)\<lparr>ct_ID := i\<rparr>"
  have c: "ap_clients ?s' (rr_ChainID first_request) = Some sample_client" by (simp add: first_registered(2) first_sel)
  have b: "handleBackfill_begin (Inr ?p) (ap_clients ?s') [] (ap_db ?s') None = (Runs ct, None)"
    using c f by (simp add: handleBackfill_begin_def backfill_of_sel ct_def)
  let ?T = "first_task\<lparr>te_contract := ct\<rparr>"
  have T: "te_client ?T = sample_client" "te_contract ?T = ct" "te_latest ?T = Inr 50"
    "te_listener ?T = task_listener (cl_geth sample_client) ?p" "cl_store (te_client ?T) = table_store"
    by (simp_all add: first_task_def first_sel)
  have env: "task_store_ok ?T" "node_safe (te_node ?T)" "node_serves (te_node ?T) (te_listener ?T) {sample_log 0}"
    using T(5) by (auto intro!: table_task_ok simp: first_task_def sample_client_def node_safe_def sample_keys node_has_def)
  obtain t where run: "task_run ?T (task_start \<lparr>cs_db = ap_db ?s', cs_pub = []\<rparr> Map.empty None) t" "ch_closed (tk_events t)"
    using first_run by blast
  have "as_contracts table_api (cs_db (tk_st t)) = as_contracts table_api (ap_db ?s')"
    using shared.task_keeps_contracts [OF T(5) run(1)] by (simp add: task_start_def)
  then have in_rows: "ct \<in> set (fst (cs_db (tk_st t)))" using R by (simp add: first_sel table_api_def ct_def)
  define n where "n = int (length (as_events table_api (cs_db (tk_st t)))) + 1"
  define g where "g = \<lparr>ge_ChainId = 39, ge_ContractAddress = rr_ContractAddr first_request, ge_TxHash = [], ge_Take = n, ge_Skip = 0\<rparr>"
  have gp: "grpc_params g = (rr_ChainID first_request, n, 0)" by (simp add: g_def grpc_params_def n_def first_sel)
  have "matches (contract_filters 39 (ge_ContractAddress g)) ct"
    by (simp add: matches_def contract_filters_def ct_def g_def first_sel)
  then have "is_ok (first_row (matches (contract_filters 39 (ge_ContractAddress g))) (fst (cs_db (tk_st t))))"
    using in_rows first_row_Inl by (cases "first_row (matches (contract_filters 39 (ge_ContractAddress g))) (fst (cs_db (tk_st t)))") auto
  moreover have "as_FindFirst table_api fs db = first_row (matches fs) (fst db)" for fs db
    by (cases db) (simp add: table_api_def)
  ultimately obtain ct' where "as_FindFirst table_api (contract_filters 39 (ge_ContractAddress g)) (cs_db (tk_st t)) = Inr ct'"
    by (auto simp: is_ok_iff)
  then obtain answer where a: "grpc_GetEvents first_env (cs_db (tk_st t)) g = Inr answer"
    using gp by (cases "cs_db (tk_st t)")
      (auto simp: grpc_GetEvents_def grpc_rows_def g_def table_api_def first_sel first_request_def hex_EncodeToHex_def)
  have k: "block_of (sample_log 0) = 5" "int64_of 50 = 50" by (simp_all add: sample_keys int64_of_def)
  have "\<exists>d \<in> set (gr_Data answer). ed_BlockNumber d = block_of (sample_log 0)"
    using registered_history_is_served [OF S first_sel(3) refl first_registered(1) first_parse _ c _ _ first_address b
        T(1,2,4,3) env run, of "sample_log 0" g n answer] gp a sample_geth_ok k
    by (auto simp: first_sel g_def n_def table_api_def first_request_def backfill_upto_def)
  then show ?thesis using run(1) a k by (intro exI conjI) auto
qed

end
