(* ===== verification/Poller.thy ===== *)
theory Poller
  imports Pipeline
begin

text \<open>
  The goroutine that polls a contract, over its life (\<open>monitorContract\<close> of
  \<open>internal/monitor/monitor.go\<close>): it begins, and its loop selects between its context and a ticker.
  Between two turns other goroutines change the world they share; what they may change is a
  parameter of its runs.
\<close>

section \<open>Turns of the goroutine\<close>

text \<open>
  Whether it is still there, and its \<open>lastBackfillStatus\<close>, which only decides what is logged.
\<close>

record poller =
  pl_alive :: bool
  pl_lastBackfillStatus :: bool

definition monitorContract_begin :: "contract \<Rightarrow> u64 res \<Rightarrow> ('x, 'db) world \<Rightarrow> poller \<times> ('x, 'db) world" where
  "monitorContract_begin ct latest w =
     (let (on, w1) = monitor_init ct latest w
      in (\<lparr>pl_alive = on, pl_lastBackfillStatus = on \<and> IsContractBackfilling (ct_ID ct) (w_mon w1)\<rparr>, w1))"

text \<open>What the \<open>select\<close> takes: the context, or the ticker, with the answers the node will give.\<close>

datatype poll_wake = PollContextDone | PollTick "u64 res" node

type_synonym poll_trace = "((u64 \<times> u64) \<times> bool) list"

fun monitorContract_turn ::
  "poll_wake \<Rightarrow> ('x, 'db) client \<Rightarrow> contract \<Rightarrow> poller \<times> ('x, 'db) world \<Rightarrow>
   (poll_trace \<times> poller \<times> ('x, 'db) world) go_step option" where
  "monitorContract_turn PollContextDone c ct (p, w) = Some (Goes ([], p\<lparr>pl_alive := False\<rparr>, w))"
| "monitorContract_turn (PollTick latest node) c ct (p, w) =
     (let p1 = p\<lparr>pl_lastBackfillStatus := IsContractBackfilling (ct_ID ct) (w_mon w)\<rparr>
      in map_option (\<lambda>g. bind_step g (\<lambda>(tr, w1). Goes (tr, p1, w1))) (poll_turn node latest c ct w))"

text \<open>
  Its runs, with the batches it went through and whether each was fetched. A turn of its own
  reads the client where it is, with the events then registered in its decoder; \<open>N\<close> are the nodes
  that answer, \<open>R\<close> what others do. No block is among the last five that 64 bits can number.
\<close>

definition sane_head :: "poll_wake \<Rightarrow> bool" where
  "sane_head k = (case k of PollTick (Inr cur) node \<Rightarrow> no_wrap cur | _ \<Rightarrow> True)"

definition wake_node :: "(node \<Rightarrow> bool) \<Rightarrow> poll_wake \<Rightarrow> bool" where
  "wake_node N k = (case k of PollTick latest node \<Rightarrow> N node | _ \<Rightarrow> True)"

inductive poller_run ::
  "(node \<Rightarrow> bool) \<Rightarrow> (('x, 'db) world \<Rightarrow> ('x, 'db) world \<Rightarrow> bool) \<Rightarrow> ('x, 'db) client \<Rightarrow> contract \<Rightarrow>
   poller \<times> ('x, 'db) world \<Rightarrow> poll_trace \<Rightarrow> poller \<times> ('x, 'db) world \<Rightarrow> bool"
  for N R c ct s where
  here: "poller_run N R c ct s [] s"
| turn: "poller_run N R c ct s tr (p, w) \<Longrightarrow> pl_alive p \<Longrightarrow> sane_head k \<Longrightarrow> wake_node N k \<Longrightarrow>
    monitorContract_turn k (c\<lparr>cl_decoder := d\<rparr>) ct (p, w) = Some (Goes (tr', s')) \<Longrightarrow>
    poller_run N R c ct s (tr @ tr') s'"
| others: "poller_run N R c ct s tr (p, w) \<Longrightarrow> R w w' \<Longrightarrow> poller_run N R c ct s tr (p, w')"

section \<open>Traces\<close>

definition uint_range :: "u64 \<times> u64 \<Rightarrow> block_range" where
  "uint_range r = (uint (fst r), uint (snd r))"

definition attempted :: "poll_trace \<Rightarrow> block_range list" where
  "attempted tr = map (uint_range \<circ> fst) tr"

definition fetched :: "poll_trace \<Rightarrow> block_range list" where
  "fetched tr = map (uint_range \<circ> fst) (filter snd tr)"

lemma trace_simps [simp]:
  "attempted [] = []" "fetched [] = []" "attempted (x # tr) = uint_range (fst x) # attempted tr"
  "fetched (x # tr) = (if snd x then uint_range (fst x) # fetched tr else fetched tr)"
  "attempted (tr @ tr') = attempted tr @ attempted tr'" "fetched (tr @ tr') = fetched tr @ fetched tr'"
  by (simp_all add: attempted_def fetched_def)

text \<open>
  From a last block \<open>a\<close> to a last block \<open>b\<close>: no block is fetched twice, those fetched lie in
  between, and each block in between was at least tried.
\<close>

definition trace_between :: "int \<Rightarrow> poll_trace \<Rightarrow> int \<Rightarrow> bool" where
  "trace_between a tr b \<longleftrightarrow>
     a \<le> b \<and> (\<forall>r \<in> set (fetched tr). a < fst r \<and> snd r \<le> b) \<and>
     (\<forall>n. length (filter (in_range n) (fetched tr)) \<le> 1) \<and>
     (\<forall>n. a < n \<longrightarrow> n \<le> b \<longrightarrow> (\<exists>r \<in> set (attempted tr). in_range n r))"

lemma trace_between_refl [simp]: "trace_between a [] a"
  by (simp add: trace_between_def)

lemma trace_between_append:
  assumes "trace_between a tr b" and "trace_between b tr' c"
  shows "trace_between a (tr @ tr') c"
proof -
  have "length (filter (in_range n) (fetched tr @ fetched tr')) \<le> 1" for n
  proof (cases "n \<le> b")
    case True
    then have "filter (in_range n) (fetched tr') = []"
      using assms(2) by (fastforce simp: trace_between_def filter_empty_conv in_range_def)
    then show ?thesis using assms(1) by (simp add: trace_between_def)
  next
    case False
    then have "filter (in_range n) (fetched tr) = []"
      using assms(1) by (fastforce simp: trace_between_def filter_empty_conv in_range_def)
    then show ?thesis using assms(2) by (simp add: trace_between_def)
  qed
  moreover have "\<exists>r \<in> set (attempted tr) \<union> set (attempted tr'). in_range n r" if "a < n" "n \<le> c" for n
    using assms that unfolding trace_between_def by (cases "n \<le> b") (meson UnCI not_le)+
  ultimately show ?thesis using assms by (fastforce simp: trace_between_def)
qed

text \<open>The last block after some batches.\<close>

definition reached :: "int \<Rightarrow> poll_trace \<Rightarrow> int" where
  "reached a tr = foldl (\<lambda>b (r, ok). if ok then uint (snd r) else b) a tr"

lemma reached_simps [simp]:
  "reached a [] = a" "reached a (x # tr) = reached (if snd x then uint (snd (fst x)) else a) tr"
  by (simp_all add: reached_def case_prod_beta)

lemma uint_reached:
  "uint (foldl (\<lambda>b (r, ok). if ok then snd r else b) (b :: u64) tr) = reached (uint b) tr"
  by (induction tr arbitrary: b) auto

lemma reached_bounds:
  "consecutive (a + 1) (attempted tr) z \<Longrightarrow> e \<le> a \<Longrightarrow>
   e \<le> reached e tr \<and> reached e tr \<le> max e z \<and> (\<forall>r \<in> set (fetched tr). a < fst r \<and> snd r \<le> reached e tr)"
proof (induction tr arbitrary: a e)
  case (Cons x tr)
  obtain f t ok where x: "x = ((f, t), ok)" by (metis prod.collapse)
  have c: "uint f = a + 1" "uint f \<le> uint t" "uint t \<le> z" "consecutive (uint t + 1) (attempted tr) z"
    using Cons.prems(1) by (auto simp: x uint_range_def)
  show ?case
    using Cons.IH [OF c(4), of "uint t"] Cons.IH [OF c(4), of e] c Cons.prems(2) by (auto simp: x uint_range_def)
qed simp

lemma sublist_filter_length: "length (filter P (fetched tr)) \<le> length (filter P (attempted tr))"
  by (induction tr) auto

lemma consecutive_trace:
  assumes "consecutive (a + 1) (attempted tr) z"
  shows "trace_between a tr (reached a tr)"
proof -
  note B = reached_bounds [OF assms order_refl]
  have "length (filter (in_range n) (fetched tr)) \<le> 1" for n
    using sublist_filter_length [of "in_range n" tr] consecutive_once [OF assms, of n] by (auto split: if_splits)
  moreover have "\<exists>r \<in> set (attempted tr). in_range n r" if "a < n" "n \<le> reached a tr" for n
  proof -
    have "n \<le> z" using that B by linarith
    then have "length (filter (in_range n) (attempted tr)) = 1" using consecutive_once [OF assms, of n] that by simp
    then have "filter (in_range n) (attempted tr) \<noteq> []" by auto
    then show ?thesis by (auto simp: filter_empty_conv)
  qed
  ultimately show ?thesis using B by (auto simp: trace_between_def)
qed

section \<open>No block twice\<close>

lemma poll_turn_trace:
  assumes "poll_turn node latest c ct w = Some (Goes (tr, w'))" and "case latest of Inr cur \<Rightarrow> no_wrap cur | _ \<Rightarrow> True"
  shows "trace_between (uint (last_block (ct_ChainID ct) w)) tr (uint (last_block (ct_ChainID ct) w'))"
proof (cases latest)
  case (Inl err)
  then show ?thesis using assms(1) by (auto simp: poll_turn_def)
next
  case (Inr cur)
  let ?last = "last_block (ct_ChainID ct) w"
  have nw: "no_wrap cur" using assms(2) Inr by simp
  note P = poll_turn_parts [OF assms(1) [unfolded Inr] nw]
  show ?thesis
  proof (cases "cur > ?last")
    case False
    then show ?thesis using P by simp
  next
    case True
    have "uint_range = (\<lambda>(f, t). (uint f, uint t))" by (simp add: uint_range_def fun_eq_iff)
    then have "consecutive (uint (?last + 1)) (map uint_range (map fst tr)) (uint cur)"
      using poll_batches_ok [OF nw, of "?last + 1"] P(1) True by auto
    then have "consecutive (uint ?last + 1) (attempted tr) (uint cur)"
      using succ_block [OF True] by (simp add: attempted_def)
    then show ?thesis using consecutive_trace P(2) uint_reached by metis
  qed
qed

lemma monitorContract_turn_trace:
  assumes "monitorContract_turn k c ct (p, w) = Some (Goes (tr, p', w'))" and "sane_head k"
  shows "trace_between (uint (last_block (ct_ChainID ct) w)) tr (uint (last_block (ct_ChainID ct) w'))"
proof (cases k)
  case PollContextDone
  then show ?thesis using assms(1) by auto
next
  case (PollTick latest node)
  then have "poll_turn node latest c ct w = Some (Goes (tr, w'))"
    using assms(1) by (auto simp: Let_def bind_step_Goes)
  then show ?thesis using poll_turn_trace assms(2) PollTick by (fastforce simp: sane_head_def)
qed

lemma poller_run_trace:
  assumes "poller_run N R c ct s tr s'" and "\<And>x y. R x y \<Longrightarrow> last_block (ct_ChainID ct) y = last_block (ct_ChainID ct) x"
  shows "trace_between (uint (last_block (ct_ChainID ct) (snd s))) tr (uint (last_block (ct_ChainID ct) (snd s')))"
  using assms(1)
proof (induction rule: poller_run.induct)
  case (turn tr p w k d tr' s')
  obtain p' w' where s': "s' = (p', w')" by fastforce
  show ?case
    using turn.IH monitorContract_turn_trace [OF turn.hyps(5) [unfolded s'] turn.hyps(3)] trace_between_append
    by (fastforce simp: s')
next
  case (others tr p w w')
  then show ?case using assms(2) by simp
qed simp

lemma attempted_failed:
  "r \<in> set (attempted tr) \<Longrightarrow> r \<in> set (fetched tr) \<or> (\<exists>x. (x, False) \<in> set tr \<and> r = uint_range x)"
  by (induction tr) (auto, metis surj_pair)

text \<open>
  C6. Over the whole life of a goroutine that polls a contract - any number of ticks, whatever
  its node answers for the logs, the head going back or forth (though never to one of the last
  five 64-bit numbers), other goroutines in between that leave the chain's last block alone - no block is fetched twice, only blocks after the first last block
  up to the final one are fetched, and the last block never goes back. A block in between that
  was not fetched is in a batch whose fetch failed; so when no fetch failed, each is fetched
  exactly once.
\<close>

theorem polling_over_a_life:
  assumes "poller_run N R c ct (p, w) tr (p', w')"
    and "\<forall>x y. R x y \<longrightarrow> last_block (ct_ChainID ct) y = last_block (ct_ChainID ct) x"
  shows "last_block (ct_ChainID ct) w \<le> last_block (ct_ChainID ct) w'
    \<and> length (filter (in_range n) (fetched tr)) \<le> 1
    \<and> ((\<exists>r \<in> set (fetched tr). in_range n r) \<longrightarrow>
        uint (last_block (ct_ChainID ct) w) < n \<and> n \<le> uint (last_block (ct_ChainID ct) w'))
    \<and> (uint (last_block (ct_ChainID ct) w) < n \<and> n \<le> uint (last_block (ct_ChainID ct) w') \<longrightarrow>
        (\<exists>r \<in> set (fetched tr). in_range n r) \<or> (\<exists>x. (x, False) \<in> set tr \<and> in_range n (uint_range x)))
    \<and> ((\<forall>x \<in> set tr. snd x) \<longrightarrow> length (filter (in_range n) (fetched tr)) =
        (if uint (last_block (ct_ChainID ct) w) < n \<and> n \<le> uint (last_block (ct_ChainID ct) w') then 1 else 0))"
proof -
  let ?a = "uint (last_block (ct_ChainID ct) w)" and ?b = "uint (last_block (ct_ChainID ct) w')"
  have T: "trace_between ?a tr ?b" using poller_run_trace [OF assms(1)] assms(2) by simp
  then have once: "length (filter (in_range n) (fetched tr)) \<le> 1"
    and within: "(\<exists>r \<in> set (fetched tr). in_range n r) \<longrightarrow> ?a < n \<and> n \<le> ?b"
    and tried: "?a < n \<and> n \<le> ?b \<longrightarrow> (\<exists>r \<in> set (attempted tr). in_range n r)"
    by (fastforce simp: trace_between_def in_range_def)+
  have all: "?a < n \<and> n \<le> ?b \<longrightarrow>
      (\<exists>r \<in> set (fetched tr). in_range n r) \<or> (\<exists>x. (x, False) \<in> set tr \<and> in_range n (uint_range x))"
    using tried attempted_failed by blast
  have "length (filter (in_range n) (fetched tr)) = (if ?a < n \<and> n \<le> ?b then 1 else 0)" if "\<forall>x \<in> set tr. snd x"
  proof (cases "\<exists>r \<in> set (fetched tr). in_range n r")
    case True
    then have "filter (in_range n) (fetched tr) \<noteq> []" by (auto simp: filter_empty_conv)
    then have "length (filter (in_range n) (fetched tr)) \<noteq> 0" by simp
    with once have "length (filter (in_range n) (fetched tr)) = 1" by linarith
    then show ?thesis using within True by simp
  next
    case False
    then have "filter (in_range n) (fetched tr) = []" by (simp add: filter_empty_conv)
    then show ?thesis using all False that by fastforce
  qed
  moreover have "last_block (ct_ChainID ct) w \<le> last_block (ct_ChainID ct) w'"
    using T by (simp add: trace_between_def word_le_def)
  ultimately show ?thesis using once within all by blast
qed

section \<open>What a tick stores\<close>

text \<open>Which events are registered in a client's decoder does not matter for the keys.\<close>

lemma decoder_irrelevant [simp]:
  "contract_found (c\<lparr>cl_decoder := d\<rparr>) = contract_found c" "log_key_of (c\<lparr>cl_decoder := d\<rparr>) = log_key_of c"
  by (simp_all add: fun_eq_iff contract_found_def contract_key_def log_key_of_def)

lemma processEvent_st: "processEvent c chain addr sig l d w = Goes (r, w') \<Longrightarrow> w_st w' = w_st w"
  by (auto simp: processEvent_def bind_step_Goes split: sum.splits option.splits)

lemma ProcessLogsEvent_st: "ProcessLogsEvent c chain addr sig ls w = Goes w' \<Longrightarrow> w_st w' = w_st w"
  by (induction ls arbitrary: w) (auto simp: bind_step_Goes Let_def dest: processEvent_st)

abbreviation polled_query :: "('x, 'db) client \<Rightarrow> contract \<Rightarrow> u64 \<times> u64 \<Rightarrow> filter_query" where
  "polled_query c ct r \<equiv> \<lparr>fq_FromBlock = int64_of (fst r), fq_ToBlock = int64_of (snd r),
     fq_Addresses = [HexToAddress (cl_geth c) (ct_Address ct)],
     fq_Topics = [[HexToHash (cl_geth c) (ct_EventSignature ct)]]\<rparr>"

text \<open>A batch is a query, the processing of its logs, and their broadcast.\<close>

lemma poll_batch_parts:
  assumes "poll_batch node c ct r w = Goes (ok, w')"
  obtains (failed) err where "node (polled_query c ct r) = Inl err" "\<not> ok" "w' = w"
    | (answered) logs st w2 where "node (polled_query c ct r) = Inr logs" "ok"
      "FilterLogs c node (HexToAddress (cl_geth c) (ct_Address ct)) (HexToHash (cl_geth c) (ct_EventSignature ct))
        (int64_of (fst r)) (int64_of (snd r)) (ct_ChainID ct) (w_st w) = Goes (Inr logs, st)"
      "ProcessLogsEvent c (ct_ChainID ct) (ct_Address ct) (ct_EventSignature ct) logs (w\<lparr>w_st := st\<rparr>) = Goes w2"
      "w_st w' = st" "w_srv w' = w_srv w2"
proof (cases "node (polled_query c ct r)")
  case (Inl err)
  moreover have "\<not> ok \<and> w' = w" using assms Inl
    by (auto simp: poll_batch_def FilterLogs_def case_prod_beta Let_def)
  ultimately show thesis using failed by blast
next
  case (Inr logs)
  then obtain st w2 where "FilterLogs c node (HexToAddress (cl_geth c) (ct_Address ct))
        (HexToHash (cl_geth c) (ct_EventSignature ct)) (int64_of (fst r)) (int64_of (snd r)) (ct_ChainID ct) (w_st w) =
        Goes (Inr logs, st)"
      "ProcessLogsEvent c (ct_ChainID ct) (ct_Address ct) (ct_EventSignature ct) logs (w\<lparr>w_st := st\<rparr>) = Goes w2"
      "ok" "w' = w2\<lparr>w_mon := (w_mon w2)\<lparr>mn_lastBlocks := AList.update (ct_ChainID ct) (snd r) (mn_lastBlocks (w_mon w2))\<rparr>\<rparr>"
    using assms by (auto simp: poll_batch_def FilterLogs_def case_prod_beta Let_def bind_step_Goes)
  then show thesis using answered [OF Inr] ProcessLogsEvent_st by fastforce
qed

text \<open>A client whose database accepts the rows and whose node knows the block times.\<close>

definition store_accepts :: "('x, 'db) client \<Rightarrow> bool" where
  "store_accepts c \<longleftrightarrow> log_store_ok (cl_store c) \<and> (\<forall>k d db. fst (st_CreateLog (cl_store c) k d db) = None) \<and>
     (\<forall>n. is_ok (cl_block_time c n))"

lemma store_accepts_decoder [simp]: "store_accepts (c\<lparr>cl_decoder := d\<rparr>) = store_accepts c"
  by (simp add: store_accepts_def)

text \<open>The row that the client finds for the contract polled, and the keys it knows.\<close>

abbreviation polled_row :: "('x, 'db) client \<Rightarrow> contract \<Rightarrow> contract \<Rightarrow> ('x, 'db) world \<Rightarrow> bool" where
  "polled_row c ct row w \<equiv> contract_found c (HexToAddress (cl_geth c) (ct_Address ct))
     (HexToHash (cl_geth c) (ct_EventSignature ct)) (ct_ChainID ct) row (cs_db (w_st w))"

abbreviation world_known :: "('x, 'db) client \<Rightarrow> ('x, 'db) world \<Rightarrow> log_key set" where
  "world_known c w \<equiv> known_keys (cl_store c) (cs_db (w_st w))"

definition good_node :: "('x, 'db) client \<Rightarrow> contract \<Rightarrow> eth_log set \<Rightarrow> node \<Rightarrow> bool" where
  "good_node c ct L node \<longleftrightarrow> node_safe node \<and>
     node_has node (HexToAddress (cl_geth c) (ct_Address ct)) (HexToHash (cl_geth c) (ct_EventSignature ct)) L"

text \<open>The logs of a set in the blocks of some ranges are stored; blocks as the client numbers them.\<close>

definition stored_in :: "('x, 'db) client \<Rightarrow> contract \<Rightarrow> eth_log set \<Rightarrow> (u64 \<times> u64) set \<Rightarrow> ('x, 'db) world \<Rightarrow> bool" where
  "stored_in c row L rs w \<longleftrightarrow>
     (\<forall>l \<in> L. \<forall>r \<in> rs. int64_of (fst r) \<le> block_of l \<longrightarrow> block_of l \<le> int64_of (snd r) \<longrightarrow> log_key_of c row l \<in> world_known c w)"

lemma stored_in_simps [simp]: "stored_in c row L {} w" "stored_in c row L (rs \<union> rs') w \<longleftrightarrow> stored_in c row L rs w \<and> stored_in c row L rs' w"
  by (auto simp: stored_in_def)

lemma stored_in_mono: "stored_in c row L rs w \<Longrightarrow> world_known c w \<subseteq> world_known c w' \<Longrightarrow> stored_in c row L rs w'"
  by (fastforce simp: stored_in_def)

definition tick_stores :: "('x, 'db) client \<Rightarrow> contract \<Rightarrow> contract \<Rightarrow> eth_log set \<Rightarrow> ('x, 'db) world \<Rightarrow> poll_trace \<Rightarrow> ('x, 'db) world \<Rightarrow> bool" where
  "tick_stores c ct row L w tr w' \<longleftrightarrow> polled_row c ct row w' \<and> world_known c w \<subseteq> world_known c w' \<and>
     stored_in c row L (fst ` set (filter snd tr)) w'"

lemma poll_batch_stores:
  assumes S: "store_accepts c" and N: "good_node c ct L node" and row: "polled_row c ct row w"
    and b: "poll_batch node c ct r w = Goes (ok, w')"
  shows "tick_stores c ct row L w [(r, ok)] w'"
  using b
proof (cases rule: poll_batch_parts)
  case failed
  then show ?thesis using row by (simp add: tick_stores_def)
next
  case (answered logs st w2)
  have "{x \<in> L. int64_of (fst r) \<le> block_of x \<and> block_of x \<le> int64_of (snd r)} \<subseteq> set logs"
    using N answered(1) unfolding good_node_def node_has_def by blast
  then show ?thesis
    using FilterLogs_stores [OF _ _ _ _ row answered(3)] S N answered(2,5)
    by (auto simp: tick_stores_def stored_in_def store_accepts_def good_node_def)
qed

lemma tick_stores_append:
  "tick_stores c ct row L w tr w1 \<Longrightarrow> tick_stores c ct row L w1 tr' w' \<Longrightarrow> tick_stores c ct row L w (tr @ tr') w'"
  using stored_in_mono [of c row L "fst ` set (filter snd tr)" w1 w'] by (auto simp: tick_stores_def image_Un)

lemma poll_ranges_store:
  assumes S: "store_accepts c" and N: "good_node c ct L node"
  shows "polled_row c ct row w \<Longrightarrow> poll_ranges node c ct rs w = Goes (tr, w') \<Longrightarrow> tick_stores c ct row L w tr w'"
proof (induction rs arbitrary: w tr)
  case Nil
  then show ?case by (simp add: tick_stores_def)
next
  case (Cons r rs)
  obtain ok w1 tr1 where s: "poll_batch node c ct r w = Goes (ok, w1)" "poll_ranges node c ct rs w1 = Goes (tr1, w')"
    "tr = [(r, ok)] @ tr1" using Cons.prems(2) by (auto simp: bind_step_Goes)
  have b: "tick_stores c ct row L w [(r, ok)] w1" by (rule poll_batch_stores [OF S N Cons.prems(1) s(1)])
  then have "tick_stores c ct row L w1 tr1 w'" using Cons.IH [OF _ s(2)] by (simp add: tick_stores_def)
  then show ?case using tick_stores_append [OF b] s(3) by blast
qed

lemma poll_turn_stores:
  assumes "store_accepts c" and "good_node c ct L node" and "polled_row c ct row w"
    and "poll_turn node latest c ct w = Some (Goes (tr, w'))"
  shows "tick_stores c ct row L w tr w'"
  using assms poll_ranges_store [OF assms(1-3)]
  by (auto simp: poll_turn_def Let_def tick_stores_def split: sum.splits if_splits)

section \<open>What a life stores\<close>

lemma decoder_irrelevant2 [simp]:
  "good_node (c\<lparr>cl_decoder := d\<rparr>) = good_node c" "tick_stores (c\<lparr>cl_decoder := d\<rparr>) = tick_stores c"
  by (simp_all add: fun_eq_iff good_node_def tick_stores_def stored_in_def)

lemma tick_stores_refl: "polled_row c ct row w \<Longrightarrow> tick_stores c ct row L w [] w"
  by (simp add: tick_stores_def)

text \<open>Others keep the row and the logs, and leave the chain's last block alone.\<close>

definition others_keep :: "('x, 'db) client \<Rightarrow> contract \<Rightarrow> contract \<Rightarrow> ('x, 'db) world \<Rightarrow> ('x, 'db) world \<Rightarrow> bool" where
  "others_keep c ct row w w' \<longleftrightarrow> last_block (ct_ChainID ct) w' = last_block (ct_ChainID ct) w \<and>
     (polled_row c ct row w \<longrightarrow> polled_row c ct row w') \<and> world_known c w \<subseteq> world_known c w'"

lemma monitorContract_turn_stores:
  assumes "store_accepts c" and "wake_node (good_node c ct L) k" and "polled_row c ct row w"
    and "monitorContract_turn k (c\<lparr>cl_decoder := d\<rparr>) ct (p, w) = Some (Goes (tr, p', w'))"
  shows "tick_stores c ct row L w tr w'"
proof (cases k)
  case PollContextDone
  then show ?thesis using assms(3,4) tick_stores_refl by auto
next
  case (PollTick latest node)
  then have "poll_turn node latest (c\<lparr>cl_decoder := d\<rparr>) ct w = Some (Goes (tr, w'))"
    using assms(4) by (auto simp: Let_def bind_step_Goes)
  from poll_turn_stores [OF _ _ _ this, of L row] show ?thesis
    using assms(1-3) PollTick by (simp add: wake_node_def)
qed

lemma poller_run_stores:
  assumes "poller_run (good_node c ct L) (others_keep c ct row) c ct s tr s'"
    and "store_accepts c" and "polled_row c ct row (snd s)"
  shows "tick_stores c ct row L (snd s) tr (snd s')"
  using assms(1)
proof (induction rule: poller_run.induct)
  case here
  show ?case by (rule tick_stores_refl [OF assms(3)])
next
  case (turn tr p w k d tr' s')
  obtain p' w' where s': "s' = (p', w')" by fastforce
  have "polled_row c ct row w" using turn.IH by (simp add: tick_stores_def)
  from monitorContract_turn_stores [OF assms(2) turn.hyps(4) this turn.hyps(5) [unfolded s']] show ?case
    using tick_stores_append [OF turn.IH [simplified]] by (simp add: s')
next
  case (others tr p w w')
  then show ?case using stored_in_mono [of c row L "fst ` set (filter snd tr)" w w']
    by (auto simp: tick_stores_def others_keep_def)
qed

text \<open>A block number below 2^63 reads the same in both ways.\<close>

lemma int64_of_uint: "uint (w :: u64) < 2 ^ 63 \<Longrightarrow> int64_of w = uint w"
proof -
  assume a: "uint w < 2 ^ 63"
  have "0 \<le> uint w" by simp
  with a have "- (2 ^ 63) \<le> uint w" "uint w < 2 ^ 63" by linarith+
  then have "signed_take_bit 63 (uint w) = uint w" by (rule signed_take_bit_int_eq_self)
  then show "int64_of w = uint w" using sint_uint [of w] by (simp add: int64_of_def)
qed

lemma fetched_iff: "r \<in> set (fetched tr) \<longleftrightarrow> (\<exists>x \<in> set tr. snd x \<and> r = uint_range (fst x))"
  by (auto simp: fetched_def)

lemma trace_below: "trace_between a tr b \<Longrightarrow> x \<in> set tr \<Longrightarrow> snd x \<Longrightarrow> uint (snd (fst x)) \<le> b"
proof -
  assume T: "trace_between a tr b" and x: "x \<in> set tr" "snd x"
  then have "uint_range (fst x) \<in> set (fetched tr)" by (auto simp: fetched_iff)
  then have "snd (uint_range (fst x)) \<le> b" using T unfolding trace_between_def by blast
  then show "uint (snd (fst x)) \<le> b" by (simp add: uint_range_def)
qed

text \<open>
  C2. The live half of the service, end to end, for an event whose row is found by the contract's
  printed address (so it was registered with its prefix) and is the first row of its chain and
  address: the query reads the events of that row only, so of several events of one address it
  answers those of one. When the database accepts every row, the node knows the time of every
  block and gives each log a topic, over the life of a goroutine that polls the contract in which
  no fetch failed, other goroutines doing what they like with everything but the chain's last
  block, this row and the logs stored - every log that the node has for the event, in the blocks
  by which the chain grew meanwhile (below block 2^63), is among the events that the query for
  its chain and address answers, when the page is large enough.
\<close>

theorem polled_logs_are_answered:
  assumes run: "poller_run (good_node c ct L) (others_keep c ct row) c ct (p, w) tr (p', w')"
    and ok: "\<forall>x \<in> set tr. snd x" and small: "uint (last_block (ct_ChainID ct) w') < 2 ^ 63"
    and S: "store_accepts c" and T: "api_tables (av_store E) (cl_store c)" and row: "polled_row c ct row w"
    and l: "l \<in> L" "last_block (ct_ChainID ct) w < lg_BlockNumber l" "lg_BlockNumber l \<le> last_block (ct_ChainID ct) w'"
    and first: "as_FindFirst (av_store E) (contract_filters chain (ge_ContractAddress g)) (cs_db (w_st w')) = Inr row"
    and g: "grpc_params g = (chain, tk, 0)" "ge_TxHash g = [] \<or> ge_TxHash g = g_HashHex (cl_geth c) (lg_TxHash l)"
      "int (length (as_events (av_store E) (cs_db (w_st w')))) \<le> tk"
    and ans: "grpc_GetEvents E (cs_db (w_st w')) g = Inr answer"
  shows "\<exists>e \<in> set (gr_Data answer). ed_BlockNumber e = block_of l \<and>
    ed_TxHash e = to_lower (g_HashHex (cl_geth c) (lg_TxHash l)) \<and> ed_LogIndex e = int32_wrap (int64_of (lg_Index l))"
proof -
  let ?a = "uint (last_block (ct_ChainID ct) w)" and ?b = "uint (last_block (ct_ChainID ct) w')"
  have B: "trace_between ?a tr ?b" using poller_run_trace [OF run] by (simp add: others_keep_def)
  have "?a < uint (lg_BlockNumber l)" "uint (lg_BlockNumber l) \<le> ?b" using l by (simp_all add: word_less_def word_le_def)
  then obtain r where "r \<in> set (attempted tr)" "in_range (uint (lg_BlockNumber l)) r"
    using B unfolding trace_between_def by blast
  then obtain x where x: "x \<in> set tr" "in_range (uint (lg_BlockNumber l)) (uint_range (fst x))" by (auto simp: attempted_def)
  have "uint (snd (fst x)) \<le> ?b" using trace_below [OF B x(1)] ok x(1) by blast
  then have e: "int64_of (fst (fst x)) = uint (fst (fst x))" "int64_of (snd (fst x)) = uint (snd (fst x))"
    "block_of l = uint (lg_BlockNumber l)"
    using x(2) small by (auto simp: in_range_def uint_range_def intro!: int64_of_uint)
  have "tick_stores c ct row L w tr w'" using poller_run_stores [OF run S] row by simp
  then have "stored_in c row L (fst ` set (filter snd tr)) w'" by (simp add: tick_stores_def)
  moreover have "fst x \<in> fst ` set (filter snd tr)" using x(1) ok by simp
  moreover have "int64_of (fst (fst x)) \<le> block_of l" "block_of l \<le> int64_of (snd (fst x))"
    using x(2) by (simp_all add: e in_range_def uint_range_def)
  ultimately have "log_key_of c row l \<in> world_known c w'" using l(1) unfolding stored_in_def by blast
  then show ?thesis
    using known_is_answered [OF T _ _ g(1,2,3) ans] first by (simp add: log_key_of_def)
qed

section \<open>What a tick sends\<close>

lemma offer_all_append: "offer_all evs' (offer_all evs c) = offer_all (evs @ evs') c"
  by (simp add: offer_all_def) (simp add: take_add [symmetric] min_def)

lemma deliver_append: "deliver_to key evs' (deliver_to key evs s) = deliver_to key (evs @ evs') s"
proof -
  have l: "live_under (deliver_to key evs s) = live_under s" by (simp add: deliver_to_def live_under_def fun_eq_iff)
  show ?thesis
    unfolding deliver_to_def [of key evs'] l by (simp add: deliver_to_def offer_all_append fun_eq_iff)
qed

lemma deliver_all_reach: "srv_reach cfg s \<Longrightarrow> srv_reach cfg (deliver_to (stream_key chain addr event) evs s)"
proof (induction evs arbitrary: s)
  case (Cons ev evs)
  then show ?case using deliver_reach [OF Cons.prems] Cons.IH by (metis deliver_Cons)
qed simp

text \<open>What the client does with logs leaves the contracts alone.\<close>

lemma process_log_contracts:
  assumes "log_store_ok (cl_store c)" and s: "processEventLog c addr sig chain l st cache = Goes (out, st', cache')"
  shows "st_FindContract (cl_store c) n a g (cs_db st') = st_FindContract (cl_store c) n a g (cs_db st)"
proof (cases "st_FindContract (cl_store c) chain (fst (contract_key c addr sig)) (snd (contract_key c addr sig)) (cs_db st)")
  case (Inl err)
  then show ?thesis using s by (simp add: processEventLog_def case_prod_beta)
next
  case (Inr ct)
  then have "contract_found c addr sig chain ct (cs_db st)" by (simp add: contract_found_def)
  from s this show ?thesis
    by (cases rule: processEventLog_cases) (simp_all add: log_store_okD(4) [OF assms(1)])
qed

lemma process_logs_contracts:
  assumes "log_store_ok (cl_store c)"
  shows "process_logs c addr sig chain logs st cache = Goes (outs, st') \<Longrightarrow>
    st_FindContract (cl_store c) n a g (cs_db st') = st_FindContract (cl_store c) n a g (cs_db st)"
proof (induction logs arbitrary: st cache outs)
  case (Cons l ls)
  then show ?case using process_log_contracts [OF assms] by (fastforce simp: result_simps)
qed simp

lemma FilterLogs_contracts:
  assumes "log_store_ok (cl_store c)" and "FilterLogs c node addr sig from to chain st = Goes (res, st')"
  shows "st_FindContract (cl_store c) n a g (cs_db st') = st_FindContract (cl_store c) n a g (cs_db st)"
  using assms(2) process_logs_contracts [OF assms(1)] by (auto simp: FilterLogs_def bind_step_Goes split: sum.splits)

text \<open>The logs a batch is answered with, and the events made of those of a tick.\<close>

definition batch_logs :: "node \<Rightarrow> ('x, 'db) client \<Rightarrow> contract \<Rightarrow> u64 \<times> u64 \<Rightarrow> eth_log list" where
  "batch_logs node c ct r = (case node (polled_query c ct r) of Inl err \<Rightarrow> [] | Inr logs \<Rightarrow> logs)"

definition tick_events :: "node \<Rightarrow> ('x, 'db) client \<Rightarrow> contract \<Rightarrow> poll_trace \<Rightarrow> pb_event list" where
  "tick_events node c ct tr = map (log_event c (ct_EventSignature ct)) (concat (map (\<lambda>(r, ok). batch_logs node c ct r) tr))"

definition sent_events :: "node \<Rightarrow> ('x, 'db) client \<Rightarrow> contract \<Rightarrow> poll_trace \<Rightarrow> db_error + contract \<Rightarrow> srv \<Rightarrow> srv" where
  "sent_events node c ct tr found s =
     (case found of
        Inl err \<Rightarrow> s
      | Inr row \<Rightarrow> deliver_to (stream_key (int32_wrap (ct_ChainID ct)) (ct_Address ct) (ct_EventName row)) (tick_events node c ct tr) s)"

abbreviation broadcast_row :: "('x, 'db) client \<Rightarrow> contract \<Rightarrow> ('x, 'db) world \<Rightarrow> db_error + contract" where
  "broadcast_row c ct w \<equiv>
     st_FindContract (cl_store c) (ct_ChainID ct) (to_lower (ct_Address ct)) (ct_EventSignature ct) (cs_db (w_st w))"

lemma sent_events_simps:
  "sent_events node c ct [] found s = s"
  "sent_events node c ct tr' found (sent_events node c ct tr found s) = sent_events node c ct (tr @ tr') found s"
  by (auto simp: sent_events_def tick_events_def deliver_append split: sum.splits)

lemma sent_events_reach: "srv_reach cfg s \<Longrightarrow> srv_reach cfg (sent_events node c ct tr found s)"
  by (auto simp: sent_events_def deliver_all_reach split: sum.splits)

lemma poll_batch_sends:
  assumes S: "log_store_ok (cl_store c)" and s: "srv_reach cfg s" "w_srv w = Some s"
    and b: "poll_batch node c ct r w = Goes (ok, w')"
  shows "broadcast_row c ct w' = broadcast_row c ct w \<and> w_srv w' = Some (sent_events node c ct [(r, ok)] (broadcast_row c ct w) s)"
  using b
proof (cases rule: poll_batch_parts)
  case (failed err)
  then show ?thesis using s(2) by (simp add: sent_events_def tick_events_def batch_logs_def split: sum.splits)
next
  case (answered logs st w2)
  have k: "st_FindContract (cl_store c) (ct_ChainID ct) (to_lower (ct_Address ct)) (ct_EventSignature ct) (cs_db st) =
      broadcast_row c ct w"
    by (rule FilterLogs_contracts [OF S answered(3)])
  have "w_srv w2 = Some (sent_events node c ct [(r, ok)] (broadcast_row c ct w) s)"
    using answered(4) logs_are_broadcast [OF s(1), of "w\<lparr>w_st := st\<rparr>" c "ct_ChainID ct" "ct_Address ct" "ct_EventSignature ct" logs]
      s(2) answered(1)
    by (auto simp: k sent_events_def tick_events_def batch_logs_def split: sum.splits)
  then show ?thesis using k answered(5,6) by simp
qed

lemma poll_ranges_send:
  assumes S: "log_store_ok (cl_store c)"
  shows "srv_reach cfg s \<Longrightarrow> w_srv w = Some s \<Longrightarrow> poll_ranges node c ct rs w = Goes (tr, w') \<Longrightarrow>
    w_srv w' = Some (sent_events node c ct tr (broadcast_row c ct w) s)"
proof (induction rs arbitrary: w s tr)
  case Nil
  then show ?case by (simp add: sent_events_simps)
next
  case (Cons r rs)
  obtain ok w1 tr1 where st: "poll_batch node c ct r w = Goes (ok, w1)" "poll_ranges node c ct rs w1 = Goes (tr1, w')"
    "tr = [(r, ok)] @ tr1" using Cons.prems(3) by (auto simp: bind_step_Goes)
  have B: "broadcast_row c ct w1 = broadcast_row c ct w"
    "w_srv w1 = Some (sent_events node c ct [(r, ok)] (broadcast_row c ct w) s)"
    using poll_batch_sends [OF S Cons.prems(1,2) st(1)] by blast+
  have "w_srv w' = Some (sent_events node c ct tr1 (broadcast_row c ct w1) (sent_events node c ct [(r, ok)] (broadcast_row c ct w) s))"
    by (rule Cons.IH [OF sent_events_reach [OF Cons.prems(1)] B(2) st(2)])
  then show ?case using B(1) sent_events_simps(2) st(3) by metis
qed

text \<open>
  C29. What a tick broadcasts that nothing interrupts: no stream opens, ends or takes an event from
  its channel and no other broadcast runs between its fetches and sends (where a clean-up does,
  a stream can be skipped or the send panic: \<open>broadcast_races_cleanup\<close>). When the streams' server is
  in a reachable state and the contract is in the database, every live stream under its chain,
  address and event name receives the events of all the logs of the batches that were fetched, in
  order, as many as its channel has room for, and no other stream receives anything; otherwise
  nothing is sent. A batch that was not fetched sends nothing and does not keep the later ones
  from being sent.
\<close>

theorem tick_is_broadcast:
  assumes "srv_reach cfg s" and "w_srv w = Some s" and "log_store_ok (cl_store c)"
    and "poll_turn node latest c ct w = Some (Goes (tr, w'))"
  shows "w_srv w' = Some (case st_FindContract (cl_store c) (ct_ChainID ct) (to_lower (ct_Address ct)) (ct_EventSignature ct) (cs_db (w_st w)) of
      Inl err \<Rightarrow> s
    | Inr row \<Rightarrow> deliver_to (stream_key (int32_wrap (ct_ChainID ct)) (ct_Address ct) (ct_EventName row))
        (map (log_event c (ct_EventSignature ct)) (concat (map (\<lambda>(r, ok). batch_logs node c ct r) tr))) s)"
proof -
  have "w_srv w' = Some (sent_events node c ct tr (broadcast_row c ct w) s)"
    using assms(2,4) poll_ranges_send [OF assms(3,1,2)]
    by (auto simp: poll_turn_def Let_def sent_events_simps split: sum.splits if_splits)
  then show ?thesis unfolding sent_events_def tick_events_def .
qed

section \<open>A contract that is polled\<close>

definition polled_node :: node where
  "polled_node q = Inr [sample_log 0, sample_log 1, sample_log 0]"

definition polled_world :: "(unit, tables) world" where
  "polled_world = (sample_world 4)\<lparr>w_srv := Some (new_server (\<lambda>_. undefined))\<rparr>"

lemma polled_sel:
  "ct_ChainID sample_contract = 39" "HexToAddress (cl_geth sample_client) (ct_Address sample_contract) = replicate 20 1"
  "HexToHash (cl_geth sample_client) (ct_EventSignature sample_contract) = replicate 32 7"
proof -
  have G: "cl_geth sample_client = sample_geth" by (simp add: sample_client_def sample_abi_def)
  have "has_prefix (hex_EncodeToHex (replicate 20 1)) ''0x''" unfolding hex_EncodeToHex_def by (rule has_prefix_append)
  moreover have "to_lower (hex_EncodeToHex (replicate 20 1)) = ''0x'' @ hex_encode (replicate 20 1)"
    using lower_hex_EncodeToHex [of "replicate 20 1"] unfolding hex_EncodeToHex_def .
  ultimately have "hex_address (replicate 20 1) (hex_EncodeToHex (replicate 20 1))" by (simp add: hex_address_def)
  then show "HexToAddress (cl_geth sample_client) (ct_Address sample_contract) = replicate 20 1"
    using hex_address_read(1) [OF sample_geth_ok] by (simp add: G sample_contract_def lower_hex_EncodeToHex)
  show "HexToHash (cl_geth sample_client) (ct_EventSignature sample_contract) = replicate 32 7"
    using hash_read(1) [OF sample_geth_ok, of "replicate 32 7"] by (simp add: G sample_contract_def hex_EncodeToHex_def)
qed (simp add: sample_contract_def)

lemma polled_world_sel:
  "last_block 39 polled_world = 4" "w_st polled_world = sample_st" "w_srv polled_world = Some (new_server (\<lambda>_. undefined))"
  by (simp_all add: polled_world_def sample_world_def last_block_def)

lemma poll_batches_5_7: "poll_batches 5 7 = Some [(5, 7)]"
  by (simp add: poll_batches.simps)

lemma polled_accepts: "store_accepts sample_client"
  using table_store_ok by (auto simp: store_accepts_def table_store_def)

lemma polled_good: "good_node sample_client sample_contract {sample_log 0} polled_node"
  by (auto simp: good_node_def node_safe_def node_has_def polled_node_def sample_keys)

lemma polled_tick:
  "\<exists>w'. poll_turn polled_node (Inr 7) sample_client sample_contract polled_world = Some (Goes ([((5, 7), True)], w')) \<and>
     last_block 39 w' = 7 \<and> fst (cs_db (w_st w')) = [sample_contract]"
proof -
  let ?logs = "[sample_log 0, sample_log 1, sample_log 0]"
  obtain st' rows where r: "process_logs sample_client (replicate 20 1) (replicate 32 7) 39 ?logs sample_st Map.empty =
      Goes ([Stored, Stored, Skipped], st')" and db: "cs_db st' = ([sample_contract], rows)"
    using sample_run by blast
  have f: "FilterLogs sample_client polled_node (replicate 20 1) (replicate 32 7) from to 39 sample_st = Goes (Inr ?logs, st')"
    for "from" to by (simp add: FilterLogs_def polled_node_def r del: process_logs.simps)
  have "w_srv (polled_world\<lparr>w_st := st'\<rparr>) = Some (new_server (\<lambda>_. undefined))" by (simp add: polled_world_sel(3))
  from logs_are_broadcast [OF srv_reach.start this] have "\<exists>w2. ProcessLogsEvent sample_client 39
      (ct_Address sample_contract) (ct_EventSignature sample_contract) ?logs (polled_world\<lparr>w_st := st'\<rparr>) = Goes w2"
    by (simp split: sum.splits del: ProcessLogsEvent.simps)
  then obtain w2 where p: "ProcessLogsEvent sample_client 39 (ct_Address sample_contract)
      (ct_EventSignature sample_contract) ?logs (polled_world\<lparr>w_st := st'\<rparr>) = Goes w2" by blast
  have b: "\<exists>w'. poll_batch polled_node sample_client sample_contract (5, 7) polled_world = Goes (True, w') \<and> w_st w' = st'"
    using ProcessLogsEvent_st [OF p] by (simp add: poll_batch_def polled_sel polled_world_sel(2) f p del: ProcessLogsEvent.simps)
  then obtain w' where w': "poll_batch polled_node sample_client sample_contract (5, 7) polled_world = Goes (True, w')" "w_st w' = st'"
    by blast
  have "poll_turn polled_node (Inr 7) sample_client sample_contract polled_world = Some (Goes ([((5, 7), True)], w'))"
    using polled_world_sel(1) w'(1) by (simp add: poll_turn_def polled_sel(1) poll_batches_5_7)
  moreover have "last_block 39 w' = 7" using poll_batch_last [OF w'(1)] by (simp add: polled_sel(1))
  ultimately show ?thesis using w'(2) db by auto
qed

lemma polled_run:
  assumes "poll_turn polled_node (Inr 7) sample_client sample_contract polled_world = Some (Goes (tr, w'))"
  shows "poller_run (good_node sample_client sample_contract {sample_log 0}) R sample_client sample_contract
    (\<lparr>pl_alive = True, pl_lastBackfillStatus = False\<rparr>, polled_world) tr (\<lparr>pl_alive = True, pl_lastBackfillStatus = False\<rparr>, w')"
proof -
  have d: "sample_client\<lparr>cl_decoder := cl_decoder sample_client\<rparr> = sample_client" by simp
  have k: "monitorContract_turn (PollTick (Inr 7) polled_node) (sample_client\<lparr>cl_decoder := cl_decoder sample_client\<rparr>)
      sample_contract (\<lparr>pl_alive = True, pl_lastBackfillStatus = False\<rparr>, polled_world) =
      Some (Goes (tr, \<lparr>pl_alive = True, pl_lastBackfillStatus = False\<rparr>, w'))"
    unfolding d using assms
    by (simp add: polled_world_def sample_world_def IsContractBackfilling_def NewMonitor_def)
  have "sane_head (PollTick (Inr 7) polled_node)" by (simp add: sane_head_def no_wrap_def)
  then show ?thesis
    using poller_run.turn [OF poller_run.here _ _ _ k] polled_good by (simp add: wake_node_def)
qed

theorem polling_over_a_life_witness:
  "\<exists>s'. poller_run (good_node sample_client sample_contract {sample_log 0}) (=) sample_client sample_contract
      (\<lparr>pl_alive = True, pl_lastBackfillStatus = False\<rparr>, polled_world) [((5, 7), True)] s' \<and>
    length (filter (in_range 6) (fetched [((5, 7), True)])) = 1"
proof -
  obtain w' where w': "poll_turn polled_node (Inr 7) sample_client sample_contract polled_world = Some (Goes ([((5, 7), True)], w'))"
    "last_block 39 w' = 7" using polled_tick by blast
  note run = polled_run [OF w'(1), of "(=)"]
  from polling_over_a_life [OF run, of 6] run show ?thesis
    using w'(2) polled_world_sel(1) by (auto simp: polled_sel(1))
qed

theorem polled_logs_are_answered_witness:
  "\<exists>w' g answer. poll_turn polled_node (Inr 7) sample_client sample_contract polled_world =
      Some (Goes ([((5, 7), True)], w')) \<and>
    grpc_GetEvents sample_env (cs_db (w_st w')) g = Inr answer \<and> (\<exists>e \<in> set (gr_Data answer). ed_BlockNumber e = block_of (sample_log 0))"
proof -
  obtain w' where w': "poll_turn polled_node (Inr 7) sample_client sample_contract polled_world = Some (Goes ([((5, 7), True)], w'))"
    "last_block 39 w' = 7" and db: "fst (cs_db (w_st w')) = [sample_contract]" using polled_tick by blast
  define n where "n = int (length (as_events table_api (cs_db (w_st w')))) + 1"
  define g where "g = \<lparr>ge_ChainId = 39, ge_ContractAddress = hex_EncodeToHex (replicate 20 1), ge_TxHash = [],
    ge_Take = n, ge_Skip = 0\<rparr>"
  have gp: "grpc_params g = (39, n, 0)" by (simp add: g_def grpc_params_def n_def)
  have f: "as_FindFirst table_api (contract_filters 39 (ge_ContractAddress g)) (cs_db (w_st w')) = Inr sample_contract"
    using db lower_hex_EncodeToHex [of "replicate 20 1"]
    by (cases "cs_db (w_st w')") (simp add: g_def table_api_def first_row_def contract_filters_def matches_def sample_contract_def)
  obtain a where a: "grpc_GetEvents sample_env (cs_db (w_st w')) g = Inr a"
    using f gp by (cases "cs_db (w_st w')")
      (auto simp: grpc_GetEvents_def grpc_rows_def g_def table_api_def hex_EncodeToHex_def sample_env_def)
  have row: "polled_row sample_client sample_contract sample_contract polled_world"
    using sample_found by (simp only: polled_sel polled_world_sel)
  have "\<exists>e \<in> set (gr_Data a). ed_BlockNumber e = block_of (sample_log 0)"
    using polled_logs_are_answered [OF polled_run [OF w'(1)] _ _ polled_accepts _ row _ _ _ _ gp _ _ a]
      tables.api_tables_axioms w'(2) polled_world_sel(1) f
    by (fastforce simp: polled_sel(1) sample_keys sample_env_def g_def n_def)
  then show ?thesis using w'(1) a by blast
qed

theorem tick_is_broadcast_witness:
  "\<exists>w'. poll_turn polled_node (Inr 7) sample_client sample_contract polled_world = Some (Goes ([((5, 7), True)], w')) \<and>
    w_srv w' = Some (deliver_to (stream_key 39 (ct_Address sample_contract) ''Transfer'')
      (map (log_event sample_client (ct_EventSignature sample_contract)) [sample_log 0, sample_log 1, sample_log 0])
      (new_server (\<lambda>_. undefined)))"
proof -
  obtain w' where w': "poll_turn polled_node (Inr 7) sample_client sample_contract polled_world = Some (Goes ([((5, 7), True)], w'))"
    using polled_tick by blast
  have row: "broadcast_row sample_client sample_contract polled_world = Inr sample_contract"
    using sample_contract_row [of "[]"] by (simp add: polled_world_sel(2) sample_st_def) (simp add: sample_contract_def lower_hex_EncodeToHex)
  have "batch_logs polled_node sample_client sample_contract (5, 7) = [sample_log 0, sample_log 1, sample_log 0]"
    by (simp add: batch_logs_def polled_node_def)
  moreover have "int32_wrap 39 = 39" by (simp add: int32_wrap_def)
  moreover have "ct_EventName sample_contract = ''Transfer''" by (simp add: sample_contract_def)
  ultimately show ?thesis
    using tick_is_broadcast [OF srv_reach.start polled_world_sel(3) _ w'] w' row table_store_ok by (simp add: polled_sel(1))
qed

section \<open>A contract registered without a prefix\<close>

text \<open>No row has the printed form of an address, whatever the chain and the signature.\<close>

definition unfindable :: "('x, 'db) client \<Rightarrow> byte list \<Rightarrow> 'db \<Rightarrow> bool" where
  "unfindable c addr db \<longleftrightarrow>
     (\<forall>chain sg. \<not> is_ok (st_FindContract (cl_store c) chain (to_lower (g_AddressHex (cl_geth c) addr)) sg db))"

lemma unfindable_filter:
  assumes "unfindable c addr (cs_db st)" and "FilterLogs c node addr sig from to chain st = Goes (res, st')"
  shows "st' = st"
  using assms FilterLogs_fails_silently [of c chain addr sig st node "from" to]
  by (auto simp: unfindable_def split: sum.splits)

lemma worker_event_contracts:
  assumes "log_store_ok (cl_store c)" and "worker_event find_any c ct sig l db = (out, db')"
  shows "st_FindContract (cl_store c) n a g db' = st_FindContract (cl_store c) n a g db"
  using assms(2) log_store_okD(4) [OF assms(1)]
  by (auto simp: worker_event_def Let_def split: if_splits prod.splits option.splits)

lemma unfindable_step:
  assumes "log_store_ok (cl_store (te_client T))"
  shows "task_step T t t' \<Longrightarrow> unfindable (te_client T) (ln_contract (te_listener T)) (cs_db (tk_st t)) \<Longrightarrow>
    unfindable (te_client T) (ln_contract (te_listener T)) (cs_db (tk_st t')) \<and> cs_pub (tk_st t') = cs_pub (tk_st t)"
proof (induction rule: task_step.induct)
  case (fetch t logs st)
  then show ?case using unfindable_filter by (fastforce simp: task_filter_def)
next
  case (fetch_error t err st)
  then show ?case using unfindable_filter by (fastforce simp: task_filter_def)
next
  case (handler_event t l ch out db)
  then show ?case using worker_event_contracts [OF assms handler_event(3)] by (simp add: unfindable_def)
qed simp_all

lemma unfindable_run:
  assumes "log_store_ok (cl_store (te_client T))" and "task_run T t0 t"
    and "unfindable (te_client T) (ln_contract (te_listener T)) (cs_db (tk_st t0))"
  shows "unfindable (te_client T) (ln_contract (te_listener T)) (cs_db (tk_st t)) \<and> cs_pub (tk_st t) = cs_pub (tk_st t0)"
  using assms(2,3)
proof (induction rule: task_run.induct)
  case (further t t' t'')
  then show ?case using unfindable_step [OF assms(1) further.hyps(2)] by simp
qed simp

text \<open>The handler stores what it takes from the channel, unless a log with that place is stored already.\<close>

lemma worker_event_stores:
  assumes "task_store_ok T"
    and "worker_event (te_find T) (te_client T) (te_contract T) sig l db = (out, db')"
  shows "is_ok (te_find T (snd (log_key_of (te_client T) (te_contract T) l)) db) \<or>
    log_key_of (te_client T) (te_contract T) l \<in> known_keys (cl_store (te_client T)) db'"
proof (cases "is_ok (te_find T (snd (log_key_of (te_client T) (te_contract T) l)) db)")
  case False
  then obtain d r where c: "st_CreateLog (cl_store (te_client T)) (log_key_of (te_client T) (te_contract T) l) d db = (r, db')"
    using assms(2) by (auto simp: worker_event_def Let_def split: prod.splits option.splits)
  then have "r = None" using task_store_okD(2) [OF assms(1)] by (metis fst_conv)
  then show ?thesis using log_store_okD(1) [OF task_store_okD(1) [OF assms(1)]] c by (simp add: known_keys_def)
qed simp

lemma taken_is_stored:
  assumes "task_store_ok T" and "task_step T t t'" and "ch_buf (tk_events t) = l # ch_buf (tk_events t')"
  shows "is_ok (te_find T (snd (log_key_of (te_client T) (te_contract T) l)) (cs_db (tk_st t))) \<or>
    log_key_of (te_client T) (te_contract T) l \<in> task_known T t'"
  using assms(2,3)
proof (induction rule: task_step.induct)
  case (handler_event t l' ch out db)
  then have "l' = l" by (auto simp: chan_recv_def split: list.splits if_splits)
  then show ?case using worker_event_stores [OF assms(1) handler_event(3)] by simp
next
  case (send t x ls to ch)
  have "ch_buf ch = ch_buf (tk_events t) @ [x]" using send(2) by (auto simp: chan_send_def split: if_splits)
  then have "length (ch_buf ch) = Suc (length (ch_buf (tk_events t)))" by simp
  moreover have "length (ch_buf (tk_events t)) = Suc (length (ch_buf ch))" using send(3) by simp
  ultimately show ?case by simp
next
  case (finish t ch)
  then show ?case by (auto simp: chan_close_def split: if_splits)
qed simp_all

lemma unfindable_poll:
  assumes "HexToAddress (cl_geth c) (ct_Address ct) = addr"
  shows "unfindable c addr (cs_db (w_st w)) \<Longrightarrow> poll_ranges node c ct rs w = Goes (tr, w') \<Longrightarrow> w_st w' = w_st w"
proof (induction rs arbitrary: w tr)
  case (Cons r rs)
  obtain ok w1 tr1 where s: "poll_batch node c ct r w = Goes (ok, w1)" "poll_ranges node c ct rs w1 = Goes (tr1, w')"
    using Cons.prems(2) by (auto simp: bind_step_Goes)
  from s(1) have "w_st w1 = w_st w"
  proof (cases rule: poll_batch_parts)
    case (answered logs st w2)
    then show ?thesis using unfindable_filter [OF Cons.prems(1)] assms by metis
  qed simp
  then show ?case using Cons.IH [OF _ s(2)] Cons.prems(1) by simp
qed simp

text \<open>
  C30. An address is accepted without its \<open>0x\<close> and stored without it, while \<open>FilterLogs\<close> looks the
  contract up by the printed address, which has the prefix. Unless that one is registered too, such
  a contract is only half served, when the database accepts every row: its backfill publishes
  nothing, and a fetch stores nothing; what stores a log is the handler that takes it from the
  channel, unless one with the same block, transaction and index is stored already. And a tick of
  the monitor, then or at any moment of the backfill, neither stores nor publishes anything for it.
\<close>

theorem unprefixed_contract_is_half_served:
  assumes "contract_rows (av_store E)" and "reads_rows (av_store E) (cl_store c)" and "geth_ok (cl_geth c)"
    and "rp_status (wb_resp s) = 0" and "\<not> has_prefix (to_lower (rr_ContractAddr req)) ''0x''"
    and "addr = HexToAddress (cl_geth c) (rr_ContractAddr req)"
    and "\<forall>ct \<in> set (as_contracts (av_store E) (ap_db s)). ct_Address ct \<noteq> to_lower (g_AddressHex (cl_geth c) addr)"
    and "cs_db st = ap_db (api_RegisterContract E (Inr req) s)"
    and "task_store_ok T" and "te_client T = c" and "ln_contract (te_listener T) = addr"
    and "task_run T (task_start st cache mo) t"
  shows "cs_pub (tk_st t) = cs_pub st
    \<and> (\<forall>res st'. task_filter T t = Goes (res, st') \<longrightarrow> st' = tk_st t)
    \<and> (\<forall>l t'. task_step T t t' \<longrightarrow> ch_buf (tk_events t) = l # ch_buf (tk_events t') \<longrightarrow>
        is_ok (te_find T (snd (log_key_of c (te_contract T) l)) (cs_db (tk_st t))) \<or>
        log_key_of c (te_contract T) l \<in> task_known T t')
    \<and> (\<forall>node latest ct w tr w'. HexToAddress (cl_geth c) (ct_Address ct) = addr \<longrightarrow> w_st w = tk_st t \<longrightarrow>
        poll_turn node latest c ct w = Some (Goes (tr, w')) \<longrightarrow> w_st w' = w_st w)"
proof -
  have "unfindable c addr (cs_db st)"
    using unprefixed_not_found [OF assms(1-5,7)] by (simp add: unfindable_def assms(8))
  then have U: "unfindable c addr (cs_db (tk_st t))" "cs_pub (tk_st t) = cs_pub st"
    using unfindable_run [OF task_store_okD(1) [OF assms(9)] assms(12)] by (simp_all add: task_start_def assms(10,11))
  have "st' = tk_st t" if "task_filter T t = Goes (res, st')" for res st'
    using that unfindable_filter U(1) assms(10,11) unfolding task_filter_def by blast
  moreover have "w_st w' = w_st w" if "HexToAddress (cl_geth c) (ct_Address ct) = addr" "w_st w = tk_st t"
    "poll_turn node latest c ct w = Some (Goes (tr, w'))" for node latest ct w tr w'
  proof -
    have "unfindable c addr (cs_db (w_st w))" using U(1) that(2) by simp
    from unfindable_poll [OF that(1) this] that(3) show ?thesis
      by (auto simp: poll_turn_def Let_def split: sum.splits if_splits)
  qed
  ultimately show ?thesis using U(2) taken_is_stored [OF assms(9)] assms(10) by blast
qed

text \<open>The backfill of such a contract up to the handler's first log.\<close>

definition unprefixed_st :: "(unit, tables) client_st" where
  "unprefixed_st = \<lparr>cs_db = ap_db (api_RegisterContract sample_env (Inr unprefixed_request) sample_api), cs_pub = []\<rparr>"

definition unprefixed_env :: "(unit, tables) task_env" where
  "unprefixed_env = sample_task_env\<lparr>te_node := \<lambda>q. Inr [sample_log 0]\<rparr>"

lemma unprefixed_no_events: "snd (ap_db (api_RegisterContract sample_env (Inr unprefixed_request) sample_api)) = []"
  unfolding unprefixed_request_def sample_registration_runs [OF short_sigs(3)]
  by (simp add: sample_registration_def sample_env_def sample_api_def table_api_def register_abi_def EnqueueTask_def
      send_json_def set_json_type_def Let_def)

lemma unprefixed_env_sel:
  "te_client unprefixed_env = sample_client" "te_contract unprefixed_env = sample_contract"
  "ln_contract (te_listener unprefixed_env) = replicate 20 1" "ln_startBlock (te_listener unprefixed_env) = 10"
  "te_latest unprefixed_env = Inr 50" "task_store_ok unprefixed_env"
  by (simp_all add: unprefixed_env_def sample_task_env_def sample_listener_def NewEventListener_def)
    (rule table_task_ok; simp)

theorem unprefixed_contract_is_half_served_witness:
  "rp_status (wb_resp (api_RegisterContract sample_env (Inr unprefixed_request) sample_api)) = 201 \<and>
   (\<exists>t t'. task_run unprefixed_env (task_start unprefixed_st Map.empty None) t \<and> task_step unprefixed_env t t' \<and>
     ch_buf (tk_events t) = sample_log 0 # ch_buf (tk_events t') \<and>
     tk_st t = unprefixed_st \<and> log_key_of sample_client sample_contract (sample_log 0) \<in> task_known unprefixed_env t')"
proof -
  let ?E = unprefixed_env and ?t0 = "task_start unprefixed_st Map.empty None :: (unit, tables) task"
  have G: "cl_geth sample_client = sample_geth" by (simp add: sample_client_def sample_abi_def)
  have pre: "\<not> has_prefix (to_lower (rr_ContractAddr unprefixed_request)) ''0x''" by code_simp
  have rows: "contract_rows (av_store sample_env)" "reads_rows (av_store sample_env) (cl_store sample_client)"
    using tables.contract_rows_axioms tables_read by simp_all
  note T = unprefixed_contract_is_half_served [OF rows, of sample_api unprefixed_request "replicate 20 1" unprefixed_st ?E
      Map.empty None, unfolded G, OF sample_geth_ok _ pre unprefixed_addr [symmetric] _ _ unprefixed_env_sel(6,1,3)]
  have base: "rp_status (wb_resp sample_api) = 0" "as_contracts (av_store sample_env) (ap_db sample_api) = []"
    by (simp_all add: sample_api_def table_api_def blank_resp_def)
  have e50: "int64_of 50 = 50" by (simp add: int64_of_def)
  obtain t1 where t1: "task_step ?E ?t0 t1" "tk_phase t1 = Fetching" "tk_cur t1 = 10" "tk_end t1 = 50"
      "\<not> tk_cancelled t1" "tk_events t1 = make_chan 100" "tk_st t1 = unprefixed_st" "\<not> tk_returned t1"
    using task_step.latest [of ?t0 ?E 50] by (auto simp: task_start_def unprefixed_env_sel e50)
  have r1: "task_run ?E ?t0 t1" using task_run.intros t1(1) by meson
  have safe: "node_safe (te_node ?E)" by (simp add: node_safe_def sample_keys unprefixed_env_def)
  obtain res st where f: "task_filter ?E t1 = Goes (res, st)"
    using FilterLogs_goes [OF safe] by (fastforce simp: task_filter_def)
  then have res: "res = Inr [sample_log 0]" by (auto simp: unprefixed_env_def task_filter_def FilterLogs_def bind_step_Goes)
  have st: "st = unprefixed_st" using T [OF base(1) _ _ r1] base(2) f t1(7) by (simp add: unprefixed_st_def)
  obtain t2 where t2: "task_step ?E t1 t2" "tk_phase t2 = Sending [sample_log 0] 50" "tk_events t2 = make_chan 100"
      "tk_st t2 = unprefixed_st" "\<not> tk_returned t2"
    using task_step.fetch [OF t1(2) _ t1(5) f [unfolded res st]] t1 by (auto simp: chunk_end_def)
  obtain t3 where t3: "task_step ?E t2 t3" "tk_events t3 = (make_chan 100)\<lparr>ch_buf := [sample_log 0]\<rparr>" "tk_st t3 = unprefixed_st"
      "\<not> tk_returned t3"
    using task_step.send [OF t2(2), of "(make_chan 100)\<lparr>ch_buf := [sample_log 0]\<rparr>" ?E] t2(3-5)
    by (auto simp: chan_send_def make_chan_def)
  have r3: "task_run ?E ?t0 t3" using r1 t2(1) t3(1) task_run.further by meson
  have recv: "chan_recv (tk_events t3) = Goes (Some (sample_log 0), make_chan 100)"
    by (simp add: chan_recv_def t3(2) make_chan_def)
  obtain out db where w: "worker_event (te_find ?E) (te_client ?E) (te_contract ?E) (te_sig ?E) (sample_log 0) (cs_db (tk_st t3)) = (out, db)"
    by (meson surj_pair)
  note s4 = task_step.handler_event [OF t3(4) recv w]
  define t4 where "t4 = t3\<lparr>tk_events := make_chan 100, tk_st := (tk_st t3)\<lparr>cs_db := db\<rparr>\<rparr>"
  have s: "task_step ?E t3 t4" and b: "ch_buf (tk_events t3) = sample_log 0 # ch_buf (tk_events t4)"
    using s4 by (simp_all add: t4_def t3(2) make_chan_def)
  have "\<not> is_ok (te_find ?E k (cs_db (tk_st t3)))" for k
    using unprefixed_no_events by (cases "cs_db unprefixed_st") (simp add: t3(3) unprefixed_env_def sample_task_env_def unprefixed_st_def first_row_def)
  then have "log_key_of sample_client sample_contract (sample_log 0) \<in> task_known ?E t4"
    using T [OF base(1) _ _ r3] base(2) s b unfolding unprefixed_env_sel by (simp add: unprefixed_st_def)
  then show ?thesis using r3 s b t3(3) unprefixed_accepted by blast
qed

end
