(* ===== verification/Routes.thy ===== *)
theory Routes
  imports Status
begin

text \<open>
  The routes of the HTTP server (\<open>Server.Start\<close> of \<open>internal/api/server.go\<close>): which handler answers a
  path, and through which middleware a request reaches it. The multiplexer is a library: whether
  a template matches a path, and what it answers itself when no route matches, are fields of a
  record; that the first route registered which matches is taken, that a route whose method does
  not match is passed over, and that middleware runs for matched routes only, is what it documents.
\<close>

section \<open>The table\<close>

datatype endpoint = Contracts | Events | ApiNotFound | MonitorStatus | Subscribe | TokenRequest | StatusOf | Health | Root

text \<open>Template, method (when the route has one), endpoint, in the order of registration.\<close>

definition api_routes :: "(string \<times> string option \<times> endpoint) list" where
  "api_routes = [
     (''/api/v1/contracts'', None, Contracts),
     (''/api/v1/events'', Some ''GET'', Events),
     (''/api/v1/'', None, ApiNotFound),
     (''/api/v1/monitor/status'', None, MonitorStatus),
     (''/api/v1/subscribe'', None, Subscribe),
     (''/api/v1/token'', None, TokenRequest),
     (''/api/v1/status/{chainId}/{address}/{eventName}'', Some ''GET'', StatusOf),
     (''/health'', None, Health),
     (''/'', None, Root)]"

text \<open>
  What the server was made with, the bodies as the decoders read them, and the library:
  \<open>ro_vars\<close> are the variables of the template of the status, \<open>ro_unmatched\<close> is the answer to a path
  without a route, or (\<open>True\<close>) with a route for other methods only.
\<close>

record ('x, 'db) router =
  ro_env :: "'db api_env"
  ro_jwt :: jwt_lib
  ro_secret :: string
  ro_jwtSecret :: string
  ro_gatewaySecret :: string
  ro_grpcSecret :: string
  ro_mon :: mon
  ro_lastBlock :: "int \<Rightarrow> u64 res"
  ro_metrics :: "string \<rightharpoonup> int"
  ro_later :: int
  ro_registration :: "request \<Rightarrow> string + register_request"
  ro_subscription :: "request \<Rightarrow> string + subscribe_request"
  ro_token :: "request \<Rightarrow> string + string \<times> int"
  ro_matches :: "string \<Rightarrow> string \<Rightarrow> bool"
  ro_vars :: "string \<Rightarrow> string \<times> string \<times> string"
  ro_unmatched :: "bool \<Rightarrow> resp \<Rightarrow> resp"

section \<open>Handlers\<close>

text \<open>The monitor of a running server is there, so that its status is answered.\<close>

definition monitor_status_of :: "mon \<Rightarrow> request \<Rightarrow> ('x, 'db) api \<Rightarrow> ('x, 'db) api" where
  "monitor_status_of m r s = (case monitor_status_route (Some m) r s of Goes s' \<Rightarrow> s' | _ \<Rightarrow> s)"

lemma monitor_status_goes: "monitor_status_route (Some m) r s = Goes (monitor_status_of m r s)"
  by (simp add: monitor_status_of_def monitor_status_route_def GetMonitorStatus_def Let_def)

text \<open>The handler of an endpoint, with the middleware of its subrouter.\<close>

fun endpoint_handler :: "('x, 'db) router \<Rightarrow> string \<Rightarrow> endpoint \<Rightarrow> request \<Rightarrow> ('x, 'db) api \<Rightarrow> ('x, 'db) api" where
  "endpoint_handler R path Contracts r s = contracts_route (ro_env R) (ro_secret R) (ro_registration R) r s"
| "endpoint_handler R path Events r s = events_route (ro_jwt R) (ro_jwtSecret R) (api_GetEvents (ro_env R)) r s"
| "endpoint_handler R path ApiNotFound r s = fail_with ''API endpoint not found'' 404 s"
| "endpoint_handler R path MonitorStatus r s = monitor_status_of (ro_mon R) r s"
| "endpoint_handler R path Subscribe r s = subscribe_route (ro_env R) (ro_subscription R) r s"
| "endpoint_handler R path TokenRequest r s =
     RequestTokenHandler (ro_jwt R) (Some (ro_gatewaySecret R)) (ro_grpcSecret R) (ro_later R) (ro_token R) r s"
| "endpoint_handler R path StatusOf r s =
     (let (chainId, address, eventName) = ro_vars R path
      in GetContractStatus (ro_env R) (ro_lastBlock R) (ro_metrics R) chainId address eventName s)"
| "endpoint_handler R path Health r s = health_route r s"
| "endpoint_handler R path Root r s = health_route r s"

text \<open>The logging middleware calls the next handler and logs.\<close>

definition loggingMiddleware :: "'a http_handler \<Rightarrow> 'a http_handler" where
  "loggingMiddleware next r s = next r s"

definition find_route :: "('x, 'db) router \<Rightarrow> string \<Rightarrow> string \<Rightarrow> endpoint option" where
  "find_route R path meth = map_option (\<lambda>(template, m, e). e)
     (find (\<lambda>(template, m, e). ro_matches R template path \<and> (m = None \<or> m = Some meth)) api_routes)"

definition http_serve :: "('x, 'db) router \<Rightarrow> string \<Rightarrow> request \<Rightarrow> ('x, 'db) api \<Rightarrow> ('x, 'db) api" where
  "http_serve R path r s =
     (case find_route R path (rq_method r) of
        Some e \<Rightarrow> loggingMiddleware (allowCORS (endpoint_handler R path e)) r s
      | None \<Rightarrow> on_resp (ro_unmatched R (list_ex (\<lambda>(template, m, e). ro_matches R template path) api_routes)) s)"

section \<open>What a request can change\<close>

text \<open>Rows, tasks and decoders stay; the counters stay. A response is written by \<open>on_resp\<close> only.\<close>

definition keeps_data :: "('x, 'db) api \<Rightarrow> ('x, 'db) api \<Rightarrow> bool" where
  "keeps_data s s' = (ap_db s' = ap_db s \<and> ap_queue s' = ap_queue s \<and> ap_clients s' = ap_clients s)"

definition only_writes :: "('x, 'db) api \<Rightarrow> ('x, 'db) api \<Rightarrow> bool" where
  "only_writes s s' = (\<exists>f. s' = on_resp f s)"

lemma only_writes_keeps: "only_writes s s' \<Longrightarrow> keeps_data s s' \<and> wb_count s' = wb_count s \<and> wb_expiry s' = wb_expiry s"
  by (auto simp: only_writes_def keeps_data_def)

named_theorems writes_intros \<open>handlers that only write a response\<close>

lemma only_writes_refl [writes_intros]: "only_writes s s"
  unfolding only_writes_def by (intro exI [of _ "\<lambda>w. w"]) (simp add: on_resp_def)

lemma only_writes_on_resp [writes_intros]: "only_writes s s' \<Longrightarrow> only_writes s (on_resp f s')"
  unfolding only_writes_def by (auto simp: on_resp_def intro: exI [of _ "\<lambda>w. f (g w)" for g])

lemma only_writes_sends [writes_intros]:
  "only_writes s s' \<Longrightarrow> only_writes s (fail_with m c s')" "only_writes s s' \<Longrightarrow> only_writes s (send_json j s')"
  "only_writes s s' \<Longrightarrow> only_writes s (set_json_type s')"
  unfolding fail_with_def send_json_def set_json_type_def by (erule only_writes_on_resp)+

lemma only_writes_cases [writes_intros]:
  "(P \<Longrightarrow> only_writes s a) \<Longrightarrow> (\<not> P \<Longrightarrow> only_writes s b) \<Longrightarrow> only_writes s (if P then a else b)"
  "(\<And>e. only_writes s (f e)) \<Longrightarrow> (\<And>x. only_writes s (g x)) \<Longrightarrow> only_writes s (case r of Inl e \<Rightarrow> f e | Inr x \<Rightarrow> g x)"
  "only_writes s a \<Longrightarrow> (\<And>x. only_writes s (h x)) \<Longrightarrow> only_writes s (case q of None \<Rightarrow> a | Some x \<Rightarrow> h x)"
  "only_writes s a \<Longrightarrow> (\<And>x. only_writes s (k x)) \<Longrightarrow> only_writes s (case e of ErrNotFound \<Rightarrow> a | DbError x \<Rightarrow> k x)"
  "(\<And>x y. only_writes s (l x y)) \<Longrightarrow> only_writes s (case p of (x, y) \<Rightarrow> l x y)"
  by (simp_all split: sum.split option.split db_error.split prod.split)

lemma writes_GetContracts [writes_intros]: "only_writes s (api_GetContracts E r s)"
  unfolding api_GetContracts_def Let_def by (intro writes_intros)

lemma writes_GetEvents [writes_intros]: "only_writes s (api_GetEvents E r s)"
  unfolding api_GetEvents_def by (intro writes_intros)

lemma writes_subscribe [writes_intros]: "only_writes s (subscribe_route E b r s)"
  unfolding subscribe_route_def by (intro writes_intros)

lemma writes_RequestToken [writes_intros]: "only_writes s (RequestTokenHandler J g k l t r s)"
  unfolding RequestTokenHandler_def by (intro writes_intros)

lemma writes_GetContractStatus [writes_intros]: "only_writes s (GetContractStatus E f m c a n s)"
  unfolding GetContractStatus_def Let_def by (intro writes_intros)

lemma writes_health [writes_intros]: "only_writes s (health_route r s)"
  unfolding health_route_def by (intro writes_intros)

lemma writes_monitor_status [writes_intros]: "only_writes s (monitor_status_of m r s)"
  unfolding monitor_status_of_def monitor_status_route_def GetMonitorStatus_def Let_def
  by (simp, intro conjI impI writes_intros)

text \<open>The counted route changes counters, and nothing else.\<close>

lemma keeps_events_route: "keeps_data s (events_route J k (api_GetEvents E) r s)"
proof -
  have c: "keeps_data s (count_success l w r' s1 s2) = keeps_data s s2" for l w r' s1 s2
    by (simp add: count_success_def keeps_data_def redis_incr_expire_def Let_def)
  have e: "keeps_data s (api_GetEvents E r' (limit_enter l r'' s))" for l r' r''
    using only_writes_keeps [OF writes_GetEvents [of "limit_enter l r'' s" E r']] by (simp add: keeps_data_def limit_enter_def)
  have f: "keeps_data s (on_resp g s)" for g by (simp add: keeps_data_def)
  show ?thesis
    by (simp add: events_route_def authMiddleware_def successBasedRateLimitMiddleware_def too_many_def c e f Let_def
        split: sum.split)
qed

lemma endpoint_keeps:
  assumes "e \<noteq> Contracts"
  shows "keeps_data s (endpoint_handler R path e r s)"
proof (cases "e = Events")
  case True
  then show ?thesis by (simp add: keeps_events_route)
next
  case False
  then have "only_writes s (endpoint_handler R path e r s)"
    using assms by (cases e) (simp_all, (intro writes_intros)+)
  then show ?thesis using only_writes_keeps by blast
qed

lemma http_serve_keeps:
  assumes "find_route R path (rq_method r) \<noteq> Some Contracts \<or> rq_method r = ''OPTIONS''"
  shows "keeps_data s (http_serve R path r s)"
proof -
  have "keeps_data s (endpoint_handler R path e r (on_resp cors_headers s))" if "e \<noteq> Contracts" for e
    using endpoint_keeps [OF that, of "on_resp cors_headers s" R path r] by (simp add: keeps_data_def)
  moreover have "keeps_data s (on_resp f s)" for f by (simp add: keeps_data_def)
  ultimately show ?thesis
    using assms by (auto simp: http_serve_def loggingMiddleware_def allowCORS_def Let_def split: option.split)
qed


section \<open>Who can change what\<close>

lemma denied_secret:
  assumes "rq_headers r ''Authorization'' = [] \<or> strip_bearer (rq_headers r ''Authorization'') \<noteq> secret"
  shows "keeps_data s (contracts_route E secret body r s)"
proof -
  have "contracts_route E secret body r s = secret_deny r s"
    unfolding contracts_route_def by (rule secret.denied) (use assms in blast)
  then show ?thesis by (simp add: secret_deny_def keeps_data_def)
qed

lemma listing_keeps: "rq_method r \<noteq> ''POST'' \<Longrightarrow> keeps_data s (contracts_route E secret body r s)"
proof -
  assume "rq_method r \<noteq> ''POST''"
  then have "only_writes s (contracts_route E secret body r s)"
    unfolding contracts_route_def contracts_handler_def secretMiddleware_def Let_def
    by (simp, intro conjI impI writes_intros)
  then show ?thesis using only_writes_keeps by blast
qed

text \<open>
  C19. Whatever is sent to whatever path: a request that changes the database, the task queue or a
  decoder is a POST to the path of the contracts whose Authorization header is the secret of the
  server, as it stands or after \<open>Bearer\<close>. A request without that leaves all of them as they are;
  and an \<open>OPTIONS\<close> request leaves them so whatever its headers say.
\<close>

theorem writes_need_secret:
  assumes "http_serve R path r s = s'"
    and "ap_db s' \<noteq> ap_db s \<or> ap_queue s' \<noteq> ap_queue s \<or> ap_clients s' \<noteq> ap_clients s"
  shows "rq_method r = ''POST'' \<and> find_route R path ''POST'' = Some Contracts \<and>
    rq_headers r ''Authorization'' \<noteq> [] \<and> strip_bearer (rq_headers r ''Authorization'') = ro_secret R"
proof -
  have k: "\<not> keeps_data s s'" using assms(2) by (simp add: keeps_data_def)
  then have f: "find_route R path (rq_method r) = Some Contracts" "rq_method r \<noteq> ''OPTIONS''"
    using http_serve_keeps [of R path r s] assms(1) by auto
  then have "s' = contracts_route (ro_env R) (ro_secret R) (ro_registration R) r (on_resp cors_headers s)"
    using assms(1) by (simp add: http_serve_def loggingMiddleware_def allowCORS_def)
  moreover have "keeps_data s t = keeps_data (on_resp cors_headers s) t" for t by (simp add: keeps_data_def)
  ultimately have n: "\<not> keeps_data (on_resp cors_headers s)
      (contracts_route (ro_env R) (ro_secret R) (ro_registration R) r (on_resp cors_headers s))" using k by simp
  have "rq_method r = ''POST''" using n listing_keeps by blast
  then show ?thesis using n denied_secret f(1) by metis
qed

section \<open>Without a configured secret\<close>

text \<open>
  When no secret is configured (the environment has no \<open>SECRET_KEY\<close>, which reads as the empty
  text), nothing is refused for it: a request to the contracts whose Authorization header is the
  bare \<open>Bearer\<close> prefix reaches the handler, and one for a token without an \<open>X-Secret\<close> header is
  answered as if there were no gateway secret to compare.
\<close>

theorem unset_secret_opens:
  assumes "ro_secret R = []" and "ro_gatewaySecret R = []" and "rq_method r \<noteq> ''OPTIONS''"
  shows "(find_route R path (rq_method r) = Some Contracts \<longrightarrow> rq_headers r ''Authorization'' = ''Bearer '' \<longrightarrow>
      http_serve R path r s = contracts_handler (ro_env R) (ro_registration R) r (on_resp cors_headers s))
    \<and> (find_route R path (rq_method r) = Some TokenRequest \<longrightarrow> rq_headers r ''X-Secret'' = [] \<longrightarrow>
      http_serve R path r s =
        RequestTokenHandler (ro_jwt R) None (ro_grpcSecret R) (ro_later R) (ro_token R) r (on_resp cors_headers s))"
  using assms
  by (simp add: http_serve_def loggingMiddleware_def allowCORS_def contracts_route_def secretMiddleware_def
      RequestTokenHandler_def has_prefix_def trim_prefix_def Let_def)

section \<open>Preflight requests\<close>

text \<open>What the multiplexer answers itself: only a status, under the headers there were.\<close>

definition mux_ok :: "('x, 'db) router \<Rightarrow> bool" where
  "mux_ok R = (\<forall>b w. rp_status w = 0 \<longrightarrow> rp_status (ro_unmatched R b w) = (if b then 405 else 404) \<and>
     rp_sent (ro_unmatched R b w) ''Access-Control-Allow-Origin'' = rp_header w ''Access-Control-Allow-Origin'')"

definition template_of :: "endpoint \<Rightarrow> string" where
  "template_of e = fst (the (find (\<lambda>(template, m, e'). e' = e) api_routes))"

lemma template_of_simps [simp]:
  "template_of Contracts = ''/api/v1/contracts''" "template_of Events = ''/api/v1/events''"
  "template_of ApiNotFound = ''/api/v1/''" "template_of MonitorStatus = ''/api/v1/monitor/status''"
  "template_of Subscribe = ''/api/v1/subscribe''" "template_of TokenRequest = ''/api/v1/token''"
  "template_of StatusOf = ''/api/v1/status/{chainId}/{address}/{eventName}''"
  "template_of Health = ''/health''" "template_of Root = ''/''"
  by (simp_all add: template_of_def api_routes_def)

text \<open>A path that only the template of one endpoint matches.\<close>

definition path_of :: "('x, 'db) router \<Rightarrow> endpoint \<Rightarrow> string \<Rightarrow> bool" where
  "path_of R e path = (\<forall>e'. ro_matches R (template_of e') path = (e' = e))"

lemma path_of_matches: "path_of R e path \<Longrightarrow> ro_matches R (template_of e') path = (e' = e)"
  by (simp add: path_of_def)

lemma find_route_of:
  assumes "path_of R e path"
  shows "find_route R path meth = (if e \<in> {Events, StatusOf} \<and> meth \<noteq> ''GET'' then None else Some e)"
    and "list_ex (\<lambda>(template, m, e). ro_matches R template path) api_routes"
  using path_of_matches [OF assms, of Contracts] path_of_matches [OF assms, of Events]
    path_of_matches [OF assms, of ApiNotFound] path_of_matches [OF assms, of MonitorStatus]
    path_of_matches [OF assms, of Subscribe] path_of_matches [OF assms, of TokenRequest]
    path_of_matches [OF assms, of StatusOf] path_of_matches [OF assms, of Health] path_of_matches [OF assms, of Root]
  by (cases e; simp add: find_route_def api_routes_def)+

text \<open>
  A preflight request: the middleware answers \<open>OPTIONS\<close> with the CORS headers for every
  endpoint that takes all methods, but the routes of the events and of the status take GET only,
  and the middleware does not run for a request that no route takes. So the preflight of the
  queries is answered 405 without the headers, and a browser does not send the query.
\<close>

theorem preflight_of_queries_fails:
  assumes "mux_ok R" and "path_of R e path" and "rq_method r = ''OPTIONS''" and "wb_resp s = blank_resp"
  shows "if e \<in> {Events, StatusOf}
    then rp_status (wb_resp (http_serve R path r s)) = 405 \<and>
      rp_sent (wb_resp (http_serve R path r s)) ''Access-Control-Allow-Origin'' = None
    else http_serve R path r s = on_resp cors_headers s \<and>
      rp_header (wb_resp (http_serve R path r s)) ''Access-Control-Allow-Origin'' = Some ''*''"
proof -
  note F = find_route_of [OF assms(2)]
  have mux: "rp_status (ro_unmatched R True blank_resp) = 405"
    "rp_sent (ro_unmatched R True blank_resp) ''Access-Control-Allow-Origin'' = None"
    using assms(1) by (simp_all add: mux_ok_def blank_resp_def)
  show ?thesis
  proof (cases "e \<in> {Events, StatusOf}")
    case True
    then have "http_serve R path r s = on_resp (ro_unmatched R True) s"
      using F assms(3) by (simp add: http_serve_def)
    then show ?thesis using True mux assms(4) by simp
  next
    case False
    then have "http_serve R path r s = on_resp cors_headers s"
      using F(1) [of "''OPTIONS''"] assms(3) by (simp add: http_serve_def loggingMiddleware_def allowCORS_def)
    then show ?thesis using False by (simp add: cors_headers_def header_Set_def)
  qed
qed

section \<open>A server that it happens in\<close>

definition sample_router :: "string \<Rightarrow> (unit, tables) router" where
  "sample_router key = \<lparr>ro_env = sample_env, ro_jwt = sample_jwt sample_claims, ro_secret = key, ro_jwtSecret = ''k'',
     ro_gatewaySecret = key, ro_grpcSecret = ''k'', ro_mon = NewMonitor, ro_lastBlock = (\<lambda>n. Inr 5), ro_metrics = Map.empty,
     ro_later = 0, ro_registration = (\<lambda>r. Inr (sample_registration ''0xAb'' [''A(address)'', ''BB(address)''])),
     ro_subscription = (\<lambda>r. Inl ''eof''), ro_token = (\<lambda>r. Inl ''eof''), ro_matches = (=),
     ro_vars = (\<lambda>p. ([], [], [])), ro_unmatched = (\<lambda>b. raw_WriteHeader (if b then 405 else 404))\<rparr>"

definition method_request :: "string \<Rightarrow> string \<Rightarrow> request" where
  "method_request m auth = \<lparr>rq_method = m, rq_headers = (\<lambda>_. [])(''Authorization'' := auth), rq_query = (\<lambda>_. []), rq_address = None\<rparr>"

lemma sample_path: "path_of (sample_router key) e (template_of e)"
  unfolding path_of_def by (rule allI, rename_tac e') (case_tac e; case_tac e'; simp add: sample_router_def)

theorem preflight_of_queries_fails_witness:
  "rp_status (wb_resp (http_serve (sample_router ''s'') ''/api/v1/events'' (method_request ''OPTIONS'' []) sample_api)) = 405"
proof -
  have "mux_ok (sample_router ''s'')" by (simp add: mux_ok_def sample_router_def raw_WriteHeader_def)
  from preflight_of_queries_fails [OF this sample_path [of _ Events], of "method_request ''OPTIONS'' []" sample_api]
  show ?thesis by (simp add: method_request_def sample_api_def)
qed

theorem unset_secret_opens_witness:
  "http_serve (sample_router []) ''/api/v1/contracts'' (method_request ''GET'' ''Bearer '') sample_api =
    contracts_handler sample_env (ro_registration (sample_router [])) (method_request ''GET'' ''Bearer '') (on_resp cors_headers sample_api)"
proof -
  have k: "ro_secret (sample_router []) = []" "ro_gatewaySecret (sample_router []) = []" "ro_env (sample_router []) = sample_env"
    by (simp_all add: sample_router_def)
  have "find_route (sample_router []) ''/api/v1/contracts'' ''GET'' = Some Contracts"
    using find_route_of(1) [OF sample_path [of "[]" Contracts], of "''GET''"] by simp
  then show ?thesis
    using unset_secret_opens [OF k(1,2), of "method_request ''GET'' ''Bearer ''" "''/api/v1/contracts''" sample_api] k(3)
    by (simp add: method_request_def)
qed

theorem writes_need_secret_witness:
  "ap_db (http_serve (sample_router ''s'') ''/api/v1/contracts'' (method_request ''POST'' ''Bearer s'') sample_api) \<noteq> ap_db sample_api
   \<and> strip_bearer (rq_headers (method_request ''POST'' ''Bearer s'') ''Authorization'') = ''s''"
proof -
  let ?R = "sample_router ''s''" and ?r = "method_request ''POST'' ''Bearer s''"
  have f: "find_route ?R ''/api/v1/contracts'' ''POST'' = Some Contracts"
    using find_route_of(1) [OF sample_path [of "''s''" Contracts], of "''POST''"] by simp
  have h: "rq_headers ?r ''Authorization'' = ''Bearer s''" "rq_method ?r = ''POST''" by (simp_all add: method_request_def)
  have k: "ro_secret ?R = ''s''" "ro_env ?R = sample_env"
    "ro_registration ?R = (\<lambda>r. Inr (sample_registration ''0xAb'' [''A(address)'', ''BB(address)'']))"
    by (simp_all add: sample_router_def)
  have "http_serve ?R ''/api/v1/contracts'' ?r sample_api =
      register_events sample_env (sample_registration ''0xAb'' [''A(address)'', ''BB(address)'']) [(fmt_d 10, ''A''), (fmt_d 11, ''BB'')] []
        (on_resp cors_headers sample_api)"
    by (simp add: http_serve_def f h k loggingMiddleware_def allowCORS_def contracts_route_def secretMiddleware_def
        contracts_handler_def sample_registration_runs [OF short_sigs(1)] has_prefix_def trim_prefix_def Let_def
        del: register_events.simps)
  moreover have "ap_db (register_events sample_env (sample_registration ''0xAb'' [''A(address)'', ''BB(address)''])
      [(fmt_d 10, ''A''), (fmt_d 11, ''BB'')] [] (on_resp cors_headers sample_api)) \<noteq> ap_db sample_api"
    by code_simp
  ultimately have n: "ap_db (http_serve ?R ''/api/v1/contracts'' ?r sample_api) \<noteq> ap_db sample_api" by simp
  show ?thesis using writes_need_secret [OF refl disjI1 [OF n]] n k(1) by simp
qed

end
