(* ===== verification/Monitor_Loops.thy ===== *)
theory Monitor_Loops
  imports Registration_Races
begin

text \<open>
  The two loops that \<open>Start\<close> of \<open>internal/monitor/monitor.go\<close> leaves running: \<open>logCurrentBlock\<close>,
  which every 30 seconds asks each chain for its latest block and logs it, and
  \<open>checkForNewContracts\<close>, every 10 seconds. \<open>Stop\<close> does not end them: each finds out at its next
  tick, from the flag that \<open>Start\<close> sets again.
\<close>

section \<open>Turns of a loop\<close>

text \<open>A turn returns whether the loop goes on, with the lines logged or the monitor as it then is.\<close>

definition logCurrentBlock_turn :: "(int \<times> u64 res) list \<Rightarrow> mon \<Rightarrow> bool \<times> (int \<times> u64) list" where
  "logCurrentBlock_turn heads m =
     (if \<not> mn_running m then (False, [])
      else (True, concat (map (\<lambda>(chainID, head). case head of Inl err \<Rightarrow> [] | Inr block \<Rightarrow> [(chainID, block)]) heads)))"

definition checkForNewContracts_turn :: "ctx \<Rightarrow> db_error + contract list \<Rightarrow> mon \<Rightarrow> bool \<times> mon" where
  "checkForNewContracts_turn ctx contracts m =
     (if \<not> mn_running m then (False, m) else (True, checkForNewContracts ctx contracts m))"

datatype loop_kind = LogBlocks | CheckNew

text \<open>What ends the wait of a \<open>select\<close>: the context, or the ticker (with the answers to come).\<close>

datatype loop_wake = WokenByContext | WokenByTick "(int \<times> u64 res) list" "db_error + contract list"

record loops =
  lp_mon :: mon
  lp_alive :: "(loop_kind \<times> ctx) list"
  lp_logged :: "(int \<times> u64) list"

definition loop_ends :: "nat \<Rightarrow> loops \<Rightarrow> loops" where
  "loop_ends i s = s\<lparr>lp_alive := take i (lp_alive s) @ drop (Suc i) (lp_alive s)\<rparr>"

text \<open>
  What can happen: \<open>Start\<close>, \<open>Stop\<close>, a turn of the loop at an index. A turn that the context woke
  needs a context that is done.
\<close>

datatype loops_act =
  StartMon ctx "db_error + contract list" "(int \<times> u64 res) list"
| StopMon
| LoopTurn nat loop_wake

fun loops_do :: "loops_act \<Rightarrow> loops \<Rightarrow> loops" where
  "loops_do (StartMon ctx contracts heads) s =
     (case monitor_Start ctx contracts heads (lp_mon s) of
        (Some err, m) \<Rightarrow> s\<lparr>lp_mon := m\<rparr>
      | (None, m) \<Rightarrow> s\<lparr>lp_mon := m, lp_alive := lp_alive s @ [(LogBlocks, ctx), (CheckNew, ctx)]\<rparr>)"
| "loops_do StopMon s = s\<lparr>lp_mon := monitor_Stop (lp_mon s)\<rparr>"
| "loops_do (LoopTurn i wake) s =
     (if length (lp_alive s) \<le> i then s
      else let (kind, ctx) = lp_alive s ! i in
        case wake of
          WokenByContext \<Rightarrow> if ctx_done (mn_contexts (lp_mon s)) ctx then loop_ends i s else s
        | WokenByTick heads contracts \<Rightarrow>
            (case kind of
               LogBlocks \<Rightarrow>
                 (let (goes_on, lines) = logCurrentBlock_turn heads (lp_mon s); s1 = s\<lparr>lp_logged := lp_logged s @ lines\<rparr>
                  in if goes_on then s1 else loop_ends i s1)
             | CheckNew \<Rightarrow>
                 (let (goes_on, m) = checkForNewContracts_turn ctx contracts (lp_mon s); s1 = s\<lparr>lp_mon := m\<rparr>
                  in if goes_on then s1 else loop_ends i s1)))"

definition loops_run :: "loops_act list \<Rightarrow> loops \<Rightarrow> loops" where
  "loops_run = fold loops_do"

lemma loops_run_simps [simp]:
  "loops_run [] s = s" "loops_run (a # as) s = loops_run as (loops_do a s)"
  "loops_run (as @ bs) s = loops_run bs (loops_run as s)"
  by (simp_all add: loops_run_def)

lemma loop_ends_sel [simp]:
  "lp_mon (loop_ends i s) = lp_mon s" "lp_logged (loop_ends i s) = lp_logged s"
  "i < length (lp_alive s) \<Longrightarrow> length (lp_alive (loop_ends i s)) = length (lp_alive s) - 1"
  by (simp_all add: loop_ends_def)

section \<open>What the loops can do to the monitor\<close>

text \<open>The tables a start or a check reads have a row per id.\<close>

fun rows_distinct :: "loops_act \<Rightarrow> bool" where
  "rows_distinct (StartMon ctx (Inr cs) heads) = distinct (map ct_ID cs)"
| "rows_distinct a = True"

lemma loops_mon:
  "lp_mon (loops_do (LoopTurn i w) s) = lp_mon s \<or>
   (\<exists>ctx r. lp_mon (loops_do (LoopTurn i w) s) = checkForNewContracts ctx r (lp_mon s))"
  by (auto simp: checkForNewContracts_turn_def logCurrentBlock_turn_def Let_def
      split: prod.split loop_wake.split loop_kind.split)

lemma loops_do_reach:
  assumes "mon_reach (lp_mon s)" and "rows_distinct a"
  shows "mon_reach (lp_mon (loops_do a s))"
proof (cases a)
  case (StartMon ctx contracts heads)
  have "mon_reach (snd (monitor_Start ctx contracts heads (lp_mon s)))"
    by (rule mon_reach.start [OF assms(1)]) (use assms(2) StartMon in simp)
  then show ?thesis
    using StartMon by (cases "monitor_Start ctx contracts heads (lp_mon s)") (auto split: option.split)
next
  case StopMon
  then show ?thesis using mon_reach.stop [OF assms(1)] by simp
next
  case (LoopTurn i w)
  then show ?thesis using loops_mon [of i w s] mon_reach.check [OF assms(1)] assms(1) by auto
qed

lemma loops_run_reach:
  "mon_reach (lp_mon s) \<Longrightarrow> \<forall>a \<in> set as. rows_distinct a \<Longrightarrow> mon_reach (lp_mon (loops_run as s))"
  by (induction as arbitrary: s) (simp_all add: loops_do_reach)

section \<open>Stopped for good\<close>

text \<open>A turn of a loop on a stopped monitor: the monitor stays, and a tick ends the loop.\<close>

lemma stopped_turn:
  assumes "\<not> mn_running (lp_mon s)"
  shows "lp_mon (loops_do (LoopTurn i w) s) = lp_mon s" "lp_logged (loops_do (LoopTurn i w) s) = lp_logged s"
    and "length (lp_alive (loops_do (LoopTurn i w) s)) \<le> length (lp_alive s)"
    and "i < length (lp_alive s) \<Longrightarrow> w \<noteq> WokenByContext \<Longrightarrow>
      length (lp_alive (loops_do (LoopTurn i w) s)) = length (lp_alive s) - 1"
  using assms
  by (auto simp: checkForNewContracts_turn_def logCurrentBlock_turn_def Let_def
      split: prod.split loop_wake.split loop_kind.split)

fun is_turn :: "loops_act \<Rightarrow> bool" where
  "is_turn (LoopTurn i w) = True"
| "is_turn a = False"

fun is_tick :: "loops_act \<Rightarrow> bool" where
  "is_tick (LoopTurn i (WokenByTick heads contracts)) = True"
| "is_tick a = False"

text \<open>Each tick meets a loop that is there, as long as one is.\<close>

fun ticks_meet :: "loops_act list \<Rightarrow> loops \<Rightarrow> bool" where
  "ticks_meet [] s = True"
| "ticks_meet (a # as) s = ((case a of LoopTurn i w \<Rightarrow> i < length (lp_alive s) \<or> lp_alive s = [] | _ \<Rightarrow> True) \<and>
     ticks_meet as (loops_do a s))"

lemma stopped_run:
  "\<not> mn_running (lp_mon s) \<Longrightarrow> \<forall>a \<in> set as. is_turn a \<Longrightarrow> ticks_meet as s \<Longrightarrow>
   lp_mon (loops_run as s) = lp_mon s \<and> lp_logged (loops_run as s) = lp_logged s \<and>
   length (lp_alive (loops_run as s)) \<le> length (lp_alive s) - length (filter is_tick as)"
proof (induction as arbitrary: s)
  case (Cons a as)
  obtain i w where a: "a = LoopTurn i w" using Cons.prems(2) by (cases a) auto
  note T = stopped_turn [OF Cons.prems(1), of i w]
  have run: "\<not> mn_running (lp_mon (loops_do a s))" using T(1) Cons.prems(1) a by metis
  have IH: "lp_mon (loops_run as (loops_do a s)) = lp_mon (loops_do a s) \<and>
      lp_logged (loops_run as (loops_do a s)) = lp_logged (loops_do a s) \<and>
      length (lp_alive (loops_run as (loops_do a s))) \<le> length (lp_alive (loops_do a s)) - length (filter is_tick as)"
    by (rule Cons.IH [OF run]) (use Cons.prems in auto)
  have "length (lp_alive (loops_do a s)) \<le> length (lp_alive s) - length (filter is_tick [a])"
  proof (cases "is_tick a")
    case True
    then have "w \<noteq> WokenByContext" using a by auto
    moreover have "i < length (lp_alive s) \<or> lp_alive s = []" using Cons.prems(3) a by simp
    ultimately show ?thesis using T(3,4) a True by fastforce
  next
    case False
    then show ?thesis using T(3) a by (simp del: loops_do.simps)
  qed
  then show ?case using IH T(1,2) a by (auto simp del: loops_do.simps)
qed simp

text \<open>
  A monitor that has been stopped and is not started again: whatever the loops do, in any
  order, the monitor stays as it is and nothing is logged; each tick ends a loop, so that after
  as many ticks as there were loops none is left.
\<close>

theorem stopped_loops_end:
  assumes "\<not> mn_running (lp_mon s)" and "\<forall>a \<in> set as. is_turn a" and "ticks_meet as s"
    and "length (lp_alive s) \<le> length (filter is_tick as)"
  shows "lp_alive (loops_run as s) = [] \<and> lp_mon (loops_run as s) = lp_mon s \<and> lp_logged (loops_run as s) = lp_logged s"
  using stopped_run [OF assms(1-3)] assms(4) by auto

section \<open>Stopped and started again\<close>

lemma restart:
  assumes "mn_running (lp_mon s)"
  shows "mn_running (lp_mon (loops_run [StopMon, StartMon ctx (Inr cs) heads] s))"
    and "lp_alive (loops_run [StopMon, StartMon ctx (Inr cs) heads] s) = lp_alive s @ [(LogBlocks, ctx), (CheckNew, ctx)]"
proof -
  have "\<not> mn_running (monitor_Stop (lp_mon s))" by (simp add: monitor_Stop_def)
  moreover have "mn_running (fold (watch_contract ctx) cs m) = mn_running m" for m
    by (induction cs arbitrary: m) (simp_all add: watch_contract_sel)
  ultimately show "mn_running (lp_mon (loops_run [StopMon, StartMon ctx (Inr cs) heads] s))"
    "lp_alive (loops_run [StopMon, StartMon ctx (Inr cs) heads] s) = lp_alive s @ [(LogBlocks, ctx), (CheckNew, ctx)]"
    by (simp_all add: monitor_Start_def Let_def init_blocks_sel)
qed

fun restarts :: "(ctx \<times> contract list \<times> (int \<times> u64 res) list) list \<Rightarrow> loops_act list" where
  "restarts [] = []"
| "restarts ((ctx, cs, heads) # rs) = StopMon # StartMon ctx (Inr cs) heads # restarts rs"

text \<open>
  When a running monitor is stopped and started again before its loops' next tick, the old
  loops see the new flag and go on: after any number of quick restarts, each adds its two loops
  to those that were there, and every one of them goes on at its tick. So several checks for
  new contracts run at the same time, and each logs the current blocks again.
\<close>

theorem restarts_pile_up_loops:
  assumes "mn_running (lp_mon s)"
  shows "mn_running (lp_mon (loops_run (restarts rs) s)) \<and>
    lp_alive (loops_run (restarts rs) s) = lp_alive s @ concat (map (\<lambda>(ctx, cs, heads). [(LogBlocks, ctx), (CheckNew, ctx)]) rs) \<and>
    (\<forall>i w. w \<noteq> WokenByContext \<longrightarrow>
      lp_alive (loops_do (LoopTurn i w) (loops_run (restarts rs) s)) = lp_alive (loops_run (restarts rs) s))"
proof -
  have run: "mn_running (lp_mon (loops_run (restarts rs) s)) \<and>
    lp_alive (loops_run (restarts rs) s) = lp_alive s @ concat (map (\<lambda>(ctx, cs, heads). [(LogBlocks, ctx), (CheckNew, ctx)]) rs)"
    using assms
  proof (induction rs arbitrary: s rule: restarts.induct)
    case (2 ctx cs heads rs)
    let ?s = "loops_run [StopMon, StartMon ctx (Inr cs) heads] s"
    have "loops_run (restarts ((ctx, cs, heads) # rs)) s = loops_run (restarts rs) ?s" by simp
    then show ?case using "2.IH" [of ?s] restart [OF "2.prems", of ctx cs heads] by simp
  qed simp
  moreover have "lp_alive (loops_do (LoopTurn i w) s') = lp_alive s'"
    if "mn_running (lp_mon s')" "w \<noteq> WokenByContext" for i w s'
    using that by (auto simp: checkForNewContracts_turn_def logCurrentBlock_turn_def Let_def
        split: prod.split loop_wake.split loop_kind.split)
  ultimately show ?thesis by blast
qed

definition started_loops :: loops where
  "started_loops = loops_do (StartMon [] (Inr [sample_contract]) []) \<lparr>lp_mon = NewMonitor, lp_alive = [], lp_logged = []\<rparr>"

lemma started_loops: "mn_running (lp_mon started_loops)" "lp_alive started_loops = [(LogBlocks, []), (CheckNew, [])]"
  by (simp_all add: started_loops_def monitor_Start_def NewMonitor_def init_blocks_def watch_contract_sel Let_def)

theorem restarts_pile_up_loops_witness:
  "length (lp_alive (loops_run (restarts [([], [sample_contract], []), ([], [], [])]) started_loops)) = 6"
  using restarts_pile_up_loops [OF started_loops(1), of "[([], [sample_contract], []), ([], [], [])]"] started_loops(2)
  by (simp del: restarts.simps)

theorem stopped_loops_end_witness:
  "lp_alive (loops_run [LoopTurn 1 (WokenByTick [] (Inr [])), LoopTurn 0 (WokenByTick [] (Inr []))]
    (loops_do StopMon started_loops)) = []"
proof -
  let ?as = "[LoopTurn 1 (WokenByTick [] (Inr [])), LoopTurn 0 (WokenByTick [] (Inr []))]"
  let ?s = "loops_do StopMon started_loops"
  have r: "\<not> mn_running (lp_mon ?s)" by (simp add: monitor_Stop_def)
  have al: "lp_alive ?s = [(LogBlocks, []), (CheckNew, [])]" by (simp add: started_loops)
  have "length (lp_alive (loops_do (LoopTurn 1 (WokenByTick [] (Inr []))) ?s)) = 1"
    using stopped_turn(4) [OF r, of 1 "WokenByTick [] (Inr [])"] al by simp
  then have m: "ticks_meet ?as ?s" using al by (simp del: loops_do.simps)
  show ?thesis by (rule stopped_loops_end [OF r _ m, THEN conjunct1]) (simp_all add: started_loops)
qed

end
