(* ===== verification/Subscription.thy ===== *)
theory Subscription
  imports Eth_Client
begin

text \<open>
  \<open>SubscribeToLogs\<close> of \<open>pkg/ethereum/client.go\<close>: a channel of logs that the RPC library feeds, and
  the goroutine that watches over it. The library sends a subscription's error on its channel
  once, after which it sends no more logs, and closes that channel when it is unsubscribed; this
  is what it documents. The channel of logs has no room: a send is a receipt. A query without
  blocks has 0 for both.
\<close>

section \<open>Opening\<close>

datatype watcher = Watching | Unsubscribing | Returned

text \<open>
  The subscription with its watcher: what the receiver has got, whether the channel of logs is
  closed, the error channel (an error not yet read, closed), whether the library still feeds
  logs, the context, and the errors that the watcher has logged.
\<close>

record subscription =
  sx_received :: "eth_log list"
  sx_closed :: bool
  sx_error :: "string option"
  sx_err_closed :: bool
  sx_feeding :: bool
  sx_done :: bool
  sx_watcher :: watcher
  sx_logged :: "string list"

definition SubscribeToLogs ::
  "(filter_query \<Rightarrow> string option) \<Rightarrow> byte list \<Rightarrow> byte list \<Rightarrow> subscription res" where
  "SubscribeToLogs subscribe contractAddress eventSignature =
     (case subscribe \<lparr>fq_FromBlock = 0, fq_ToBlock = 0, fq_Addresses = [contractAddress], fq_Topics = [[eventSignature]]\<rparr> of
        Some err \<Rightarrow> Inl (''failed to subscribe to logs: '' @ err)
      | None \<Rightarrow> Inr \<lparr>sx_received = [], sx_closed = False, sx_error = None, sx_err_closed = False, sx_feeding = True,
          sx_done = False, sx_watcher = Watching, sx_logged = []\<rparr>)"

section \<open>Steps\<close>

text \<open>
  The library feeds a log, or ends with an error; the context ends; the watcher reads an error and
  goes round its loop, or sees the context, unsubscribes, closes the channel of logs and returns.
  A feed into a closed channel would panic.
\<close>

datatype outcome = Running subscription | Crashed

inductive sub_step :: "subscription \<Rightarrow> outcome \<Rightarrow> bool" where
  feeds: "sx_feeding s \<Longrightarrow> \<not> sx_closed s \<Longrightarrow> sub_step s (Running (s\<lparr>sx_received := sx_received s @ [l]\<rparr>))"
| feeds_closed: "sx_feeding s \<Longrightarrow> sx_closed s \<Longrightarrow> sub_step s Crashed"
| fails: "sx_feeding s \<Longrightarrow> sub_step s (Running (s\<lparr>sx_feeding := False, sx_error := Some err\<rparr>))"
| context_ends: "\<not> sx_done s \<Longrightarrow> sub_step s (Running (s\<lparr>sx_done := True\<rparr>))"
| reads_error: "sx_watcher s = Watching \<Longrightarrow> sx_error s = Some err \<Longrightarrow>
    sub_step s (Running (s\<lparr>sx_error := None, sx_logged := sx_logged s @ [err]\<rparr>))"
| unsubscribes: "sx_watcher s = Watching \<Longrightarrow> sx_done s \<Longrightarrow>
    sub_step s (Running (s\<lparr>sx_watcher := Unsubscribing, sx_feeding := False, sx_err_closed := True\<rparr>))"
| closes: "sx_watcher s = Unsubscribing \<Longrightarrow> \<not> sx_closed s \<Longrightarrow>
    sub_step s (Running (s\<lparr>sx_watcher := Returned, sx_closed := True\<rparr>))"

inductive sub_reach :: "subscription \<Rightarrow> subscription \<Rightarrow> bool" for s0 where
  opened: "sub_reach s0 s0"
| steps: "sub_reach s0 s \<Longrightarrow> sub_step s (Running s') \<Longrightarrow> sub_reach s0 s'"

inductive_cases sub_step_running: "sub_step s (Running s')"
inductive_cases sub_step_crashed: "sub_step s Crashed"

section \<open>What holds in between\<close>

definition sub_inv :: "subscription \<Rightarrow> bool" where
  "sub_inv s = (sx_closed s = (sx_watcher s = Returned) \<and> (sx_watcher s \<noteq> Watching \<longrightarrow> sx_done s \<and> \<not> sx_feeding s) \<and>
     length (sx_logged s) + (if sx_error s = None then 0 else 1) \<le> 1 \<and>
     (sx_error s \<noteq> None \<or> sx_logged s \<noteq> [] \<longrightarrow> \<not> sx_feeding s) \<and>
     (\<not> sx_feeding s \<longrightarrow> sx_error s \<noteq> None \<or> sx_logged s \<noteq> [] \<or> sx_watcher s \<noteq> Watching))"

lemma sub_inv_opened: "SubscribeToLogs f a g = Inr s \<Longrightarrow> sub_inv s"
  by (auto simp: SubscribeToLogs_def sub_inv_def split: option.splits)

lemma sub_inv_step: "sub_step s (Running s') \<Longrightarrow> sub_inv s \<Longrightarrow> sub_inv s'"
  by (erule sub_step_running) (auto simp: sub_inv_def)

lemma sub_inv_reach: "sub_reach s0 s \<Longrightarrow> sub_inv s0 \<Longrightarrow> sub_inv s"
  by (induction rule: sub_reach.induct) (auto intro: sub_inv_step)

text \<open>Once the library has stopped feeding, nothing more is received.\<close>

lemma nothing_fed: "sub_reach s s' \<Longrightarrow> \<not> sx_feeding s \<Longrightarrow> \<not> sx_feeding s' \<and> sx_received s' = sx_received s"
  by (induction rule: sub_reach.induct) (auto elim!: sub_step_running)

text \<open>
  The life of a subscription: whatever happens, a log is never sent into the closed channel,
  and the channel is closed once, by the watcher, after the context has ended. But when the
  subscription itself fails, the receiver is not told: the watcher logs the error and goes on
  waiting, and until the context ends the channel stays open and nothing ever arrives on it.
\<close>

theorem subscription_life:
  assumes "SubscribeToLogs f a g = Inr s0" and "sub_reach s0 s"
  shows "\<not> sub_step s Crashed \<and> (sx_closed s \<longrightarrow> sx_done s) \<and>
    (\<forall>s'. \<not> sx_feeding s \<longrightarrow> sub_reach s s' \<longrightarrow>
      sx_received s' = sx_received s \<and> (\<not> sx_done s' \<longrightarrow> \<not> sx_closed s' \<and> sx_watcher s' = Watching))"
proof -
  have inv: "sub_inv s" using sub_inv_reach [OF assms(2) sub_inv_opened [OF assms(1)]] .
  have "\<not> sub_step s Crashed" using inv by (auto elim!: sub_step_crashed simp: sub_inv_def)
  moreover have "sx_received s' = sx_received s \<and> (\<not> sx_done s' \<longrightarrow> \<not> sx_closed s' \<and> sx_watcher s' = Watching)"
    if "\<not> sx_feeding s" "sub_reach s s'" for s'
    using nothing_fed [OF that(2,1)] sub_inv_reach [OF that(2) inv] by (auto simp: sub_inv_def)
  ultimately show ?thesis using inv by (auto simp: sub_inv_def)
qed

theorem subscription_life_witness:
  "\<exists>s0 s. SubscribeToLogs (\<lambda>q. None) [] [] = Inr s0 \<and> sub_reach s0 s \<and> sx_logged s = [''reset''] \<and> \<not> sx_closed s \<and>
    \<not> sub_step s Crashed"
proof -
  obtain s0 where s0: "SubscribeToLogs (\<lambda>q. None) [] [] = Inr s0" "sx_feeding s0" "sx_watcher s0 = Watching"
    "sx_logged s0 = []" "\<not> sx_closed s0" by (simp add: SubscribeToLogs_def)
  let ?s1 = "s0\<lparr>sx_feeding := False, sx_error := Some ''reset''\<rparr>"
  let ?s2 = "?s1\<lparr>sx_error := None, sx_logged := sx_logged ?s1 @ [''reset'']\<rparr>"
  have "sub_step s0 (Running ?s1)" using s0(2) by (rule sub_step.fails)
  moreover have "sub_step ?s1 (Running ?s2)" by (rule sub_step.reads_error) (simp_all add: s0)
  ultimately have r: "sub_reach s0 ?s2" using sub_reach.intros by meson
  show ?thesis using subscription_life [OF s0(1) r] r s0 by (intro exI [of _ s0] exI [of _ ?s2]) simp
qed

end
