(* ===== verification/Stream_Delivery.thy ===== *)
theory Stream_Delivery
  imports Streams
begin

text \<open>
  What a client of a stream receives, and what is counted of it (\<open>StreamEvents\<close> of
  \<open>pkg/grpc/server.go\<close>): the executions of the server with the events that its broadcasts put
  into the channels, and with a Redis that may be known to answer.
\<close>

section \<open>Executions\<close>

text \<open>The steps other than broadcasts; \<open>up\<close>: Redis counts whatever is sent to it, and drops no counter.\<close>

fun redis_counts :: "stream_turn \<Rightarrow> bool" where
  "redis_counts (Event incr_ok expire_ok send_ok) = incr_ok"
| "redis_counts t = True"

inductive srv_moves :: "srv_cfg \<Rightarrow> bool \<Rightarrow> srv \<Rightarrow> srv \<Rightarrow> bool" for cfg up where
  opened: "stream_open cfg now md chain addr event s = Inr (i, s') \<Longrightarrow> srv_moves cfg up s s'"
| header: "i < sv_next s \<Longrightarrow> sm_live (sv_streams s i) \<Longrightarrow> stream_header sent now i s = Goes (b, s') \<Longrightarrow> srv_moves cfg up s s'"
| turn: "i < sv_next s \<Longrightarrow> sm_live (sv_streams s i) \<Longrightarrow> stream_loop t now i s = Goes (b, s') \<Longrightarrow>
    up \<longrightarrow> redis_counts t \<Longrightarrow> srv_moves cfg up s s'"
| gone: "srv_moves cfg up s (stream_cancel i s)"
| disconnect: "DisconnectStream cfg now md s = Goes (r, s') \<Longrightarrow> srv_moves cfg up s s'"
| sched: "run_turn now now' (sv_sched s) = (subs, sch) \<Longrightarrow> srv_moves cfg up s (s\<lparr>sv_sched := sch\<rparr>)"
| dropped: "\<not> up \<Longrightarrow> sv_usage_expiry s key = Some e \<Longrightarrow> e \<le> now \<Longrightarrow> srv_moves cfg up s (usage_drop key s)"

lemma moves_reach: "srv_moves cfg up s s' \<Longrightarrow> srv_reach cfg s \<Longrightarrow> srv_reach cfg s'"
  by (induction rule: srv_moves.induct) (auto intro: srv_reach.intros)

text \<open>A send of a broadcast, and what it puts into which channel.\<close>

definition bcast_target :: "broadcast \<Rightarrow> srv \<Rightarrow> nat" where
  "bcast_target b s = slice_elems (sb_arrays (sv_subs s)) (bc_slice b) ! bc_index b"

definition bcast_taken :: "broadcast \<Rightarrow> srv \<Rightarrow> (nat \<times> pb_event) list" where
  "bcast_taken b s =
     (let c = sv_chans s (bcast_target b s)
      in if length (ch_buf c) < ch_cap c then [(bcast_target b s, bc_event b)] else [])"

inductive srv_runs :: "srv_cfg \<Rightarrow> bool \<Rightarrow> srv \<Rightarrow> (nat \<times> pb_event) list \<Rightarrow> srv \<Rightarrow> bool" for cfg up s0 where
  here: "srv_runs cfg up s0 [] s0"
| move: "srv_runs cfg up s0 h s \<Longrightarrow> srv_moves cfg up s s' \<Longrightarrow> srv_runs cfg up s0 h s'"
| bcast: "srv_runs cfg up s0 h s \<Longrightarrow> bcast_step b s = Goes (b', s') \<Longrightarrow> srv_runs cfg up s0 (h @ bcast_taken b s) s'"

lemma runs_reach: "srv_runs cfg up s0 h s \<Longrightarrow> srv_reach cfg s0 \<Longrightarrow> srv_reach cfg s"
  by (induction rule: srv_runs.induct) (auto intro: moves_reach srv_reach.bcast)

definition taken_by :: "nat \<Rightarrow> (nat \<times> pb_event) list \<Rightarrow> pb_event list" where
  "taken_by i h = map snd (filter (\<lambda>x. fst x = i) h)"

lemma taken_by_append [simp]: "taken_by i (h @ h') = taken_by i h @ taken_by i h'" "taken_by i [] = []"
  by (simp_all add: taken_by_def)

section \<open>Steps, seen from one stream\<close>

text \<open>
  A stream that was given \<open>got\<close> has sent a beginning of it, and while it lives, the rest is in its
  channel.
\<close>

definition delivers :: "pb_event list \<Rightarrow> srv \<Rightarrow> nat \<Rightarrow> bool" where
  "delivers got s i \<longleftrightarrow> i < sv_next s \<and> (\<exists>rest. got = sm_sent (sv_streams s i) @ rest) \<and>
     (sm_live (sv_streams s i) \<longrightarrow> got = sm_sent (sv_streams s i) @ ch_buf (sv_chans s i))"

lemma delivers_same:
  assumes "delivers got s i" and "sv_next s \<le> sv_next s'" and "sm_sent (sv_streams s' i) = sm_sent (sv_streams s i)"
    and "sm_live (sv_streams s' i) \<Longrightarrow> sm_live (sv_streams s i) \<and> ch_buf (sv_chans s' i) = ch_buf (sv_chans s i)"
  shows "delivers got s' i"
  using assms by (auto simp: delivers_def)

lemma stream_cancel_sent [simp]: "sm_sent (sv_streams (stream_cancel i s) j) = sm_sent (sv_streams s j)"
  by (simp add: stream_cancel_def)

lemma register_delivers:
  assumes "delivers got s i" and "register_stream cfg token key claims s = (j, s')"
  shows "delivers got s' i"
  using assms(1)
proof (rule delivers_same)
  have n: "i < sv_next s" using assms(1) by (simp add: delivers_def)
  show "sv_next s \<le> sv_next s'" "sm_sent (sv_streams s' i) = sm_sent (sv_streams s i)"
    "sm_live (sv_streams s' i) \<Longrightarrow> sm_live (sv_streams s i) \<and> ch_buf (sv_chans s' i) = ch_buf (sv_chans s i)"
    using assms(2) n by (auto simp: register_stream_def Let_def conn_Close_def split: option.splits)
qed

lemma cleanup_fields:
  assumes "stream_cleanup clean now j s = Goes s'"
  shows "sv_next s' = sv_next s" "sm_sent (sv_streams s' i) = sm_sent (sv_streams s i)"
    "sm_live (sv_streams s' i) = (i \<noteq> j \<and> sm_live (sv_streams s i))" "i \<noteq> j \<Longrightarrow> sv_chans s' i = sv_chans s i"
    "sm_token (sv_streams s' i) = sm_token (sv_streams s i)" "sv_usage s' = sv_usage s"
    "sv_usage_expiry s' = sv_usage_expiry s" "sm_claims (sv_streams s' i) = sm_claims (sv_streams s i)"
  using assms by (auto simp: stream_cleanup_def Let_def result_simps split: if_splits)

lemma cleanup_delivers: "delivers got s i \<Longrightarrow> stream_cleanup clean now j s = Goes s' \<Longrightarrow> delivers got s' i"
  by (erule delivers_same) (auto simp: cleanup_fields)

lemma received: "chan_recv c = Goes (Some ev, c') \<Longrightarrow> ch_buf c = ev # ch_buf c'"
  by (auto simp: chan_recv_def split: list.splits if_splits)

lemma turn_delivers:
  assumes D: "delivers got s i" and t: "stream_loop t now j s = Goes (b, s')" and live: "sm_live (sv_streams s j)"
  shows "delivers got s' i"
  using t
proof (cases rule: stream_loop_cases)
  case ended
  then show ?thesis using cleanup_delivers [OF D] by simp
next
  case (sent a e ev c s1)
  then show ?thesis using D live received [OF sent(2)] by (cases "i = j") (auto simp: delivers_def)
next
  case (failed a e ev c s1)
  then show ?thesis
    using D live received [OF failed(2)] by (cases "i = j") (auto simp: delivers_def cleanup_fields [OF failed(4)])
qed

lemma disconnect_fields:
  assumes "DisconnectStream cfg now md s = Goes (r, s')"
  shows "sv_next s' = sv_next s" "sm_sent (sv_streams s' i) = sm_sent (sv_streams s i)" "sv_chans s' = sv_chans s"
    "sm_live (sv_streams s' i) = sm_live (sv_streams s i)" "sm_token (sv_streams s' i) = sm_token (sv_streams s i)"
    "sv_usage s' = sv_usage s" "sv_usage_expiry s' = sv_usage_expiry s"
    "sm_claims (sv_streams s' i) = sm_claims (sv_streams s i)"
  using assms
  by (auto simp: DisconnectStream_def Let_def result_simps disconnect_begin_def disconnect_finish_def stream_cancel_def
      split: option.splits sum.splits if_splits)

lemma move_delivers: "srv_moves cfg up s s' \<Longrightarrow> delivers got s i \<Longrightarrow> delivers got s' i"
proof (induction rule: srv_moves.induct)
  case (opened now md chain addr event s j s')
  then show ?case by (auto simp: stream_open_def Let_def intro: register_delivers split: option.splits sum.splits if_splits)
next
  case (header j s sent now b s')
  then show ?case by (auto simp: stream_header_def result_simps intro: cleanup_delivers split: if_splits)
next
  case (turn j s t now b s')
  then show ?case using turn_delivers by blast
next
  case (disconnect now md s r s')
  then show ?case by (simp add: delivers_def disconnect_fields [OF disconnect(1)])
qed (simp_all add: delivers_def)

lemma bcast_delivers:
  assumes inv: "srv_inv s" and D: "delivers got s i" and b: "bcast_step b s = Goes (b', s')"
  shows "delivers (got @ taken_by i (bcast_taken b s)) s' i"
proof -
  let ?j = "bcast_target b s"
  obtain c where c: "chan_try_send (bc_event b) (sv_chans s ?j) = Goes c" and s': "s' = s\<lparr>sv_chans := (sv_chans s)(?j := c)\<rparr>"
    using b by (auto simp: bcast_step_def bcast_target_def Let_def result_simps)
  have open_: "\<not> ch_closed (sv_chans s ?j)" using c by (auto simp: chan_try_send_def chan_send_def)
  have live: "sm_live (sv_streams s i)" if "i = ?j"
    using srv_invD(2) [OF inv, of i] D open_ that by (simp add: chan_ok_def delivers_def)
  show ?thesis
    using D c open_ live
    by (auto simp: delivers_def s' bcast_taken_def Let_def taken_by_def chan_try_send_def chan_send_def split: if_splits)
qed

text \<open>
  C9. A stream is a queue: whatever else happens on the server, the client has been sent, in
  order and without a gap, a beginning of the events that were waiting for it and of those that
  broadcasts have put into its channel since; and while the stream lives, the others are in the
  channel, in order. So no event is sent twice or overtakes another, and only the end of a
  stream loses what its channel had taken.
\<close>

theorem stream_is_a_queue:
  assumes "srv_runs cfg up s0 h s" and "srv_reach cfg s0" and "i < sv_next s0"
    and "sm_live (sv_streams s0 i)" and "got = sm_sent (sv_streams s0 i) @ ch_buf (sv_chans s0 i) @ taken_by i h"
  shows "(\<exists>rest. got = sm_sent (sv_streams s i) @ rest)
    \<and> (sm_live (sv_streams s i) \<longrightarrow> got = sm_sent (sv_streams s i) @ ch_buf (sv_chans s i))"
proof -
  have "delivers (sm_sent (sv_streams s0 i) @ ch_buf (sv_chans s0 i) @ taken_by i h) s i"
    using assms(1)
  proof (induction rule: srv_runs.induct)
    case here
    show ?case using assms(3) by (simp add: delivers_def)
  next
    case (move h s s')
    then show ?case using move_delivers by blast
  next
    case (bcast h s b b' s')
    then show ?case
      using bcast_delivers [OF srv_reach_inv [OF runs_reach [OF bcast.hyps(1) assms(2)]] bcast.IH bcast.hyps(2)] by simp
  qed
  then show ?thesis using assms(5) by (simp add: delivers_def)
qed

section \<open>What is counted\<close>

definition bytes_of :: "pb_event list \<Rightarrow> int" where
  "bytes_of evs = (\<Sum>ev\<leftarrow>evs. int (length (pe_Data ev)))"

lemma bytes_simps [simp]: "bytes_of [] = 0" "bytes_of (ev # evs) = int (length (pe_Data ev)) + bytes_of evs"
  "bytes_of (evs @ evs') = bytes_of evs + bytes_of evs'"
  by (simp_all add: bytes_of_def)

lemma bytes_nonneg [simp]: "0 \<le> bytes_of evs"
  by (induction evs) auto

definition sum_token :: "(nat \<Rightarrow> int) \<Rightarrow> string \<Rightarrow> srv \<Rightarrow> int" where
  "sum_token f t s = (\<Sum>i\<in>{..<sv_next s}. if sm_token (sv_streams s i) = t then f i else 0)"

text \<open>The bytes sent on the streams of a token, and those of the events put into their channels.\<close>

definition sent_bytes :: "string \<Rightarrow> srv \<Rightarrow> int" where
  "sent_bytes t s = sum_token (\<lambda>i. bytes_of (sm_sent (sv_streams s i))) t s"

definition given_bytes :: "string \<Rightarrow> (nat \<times> pb_event) list \<Rightarrow> srv \<Rightarrow> int" where
  "given_bytes t h s = sum_token (\<lambda>i. bytes_of (taken_by i h)) t s"

definition taken_off :: "(nat \<times> pb_event) list \<Rightarrow> srv \<Rightarrow> nat \<Rightarrow> int" where
  "taken_off h s i = bytes_of (taken_by i h) - (if sm_live (sv_streams s i) then bytes_of (ch_buf (sv_chans s i)) else 0)"

definition usage_inv :: "bool \<Rightarrow> (nat \<times> pb_event) list \<Rightarrow> srv \<Rightarrow> bool" where
  "usage_inv up h s \<longleftrightarrow> (\<forall>t. 0 \<le> sv_usage s (usage_key t) \<and>
     sv_usage s (usage_key t) \<le> sum_token (taken_off h s) t s \<and>
     (up \<longrightarrow> sent_bytes t s \<le> sv_usage s (usage_key t)))"

lemma sum_token_mono:
  assumes "sv_next s' = sv_next s" and "\<And>i. i < sv_next s \<Longrightarrow> sm_token (sv_streams s' i) = sm_token (sv_streams s i)"
    and "d = 0 \<or> j < sv_next s" and "\<And>i. i < sv_next s \<Longrightarrow> f i + (if i = j then d else 0) \<le> f' i"
  shows "sum_token f t s + (if sm_token (sv_streams s j) = t then d else 0) \<le> sum_token f' t s'"
proof -
  let ?g = "\<lambda>i. (if sm_token (sv_streams s i) = t then f i else 0) +
    (if i = j then if sm_token (sv_streams s j) = t then d else 0 else 0)"
  have "(\<Sum>i\<in>{..<sv_next s}. ?g i) = sum_token f t s + (if sm_token (sv_streams s j) = t then d else 0)"
    using assms(3) by (auto simp: sum.distrib sum_token_def)
  moreover have "(\<Sum>i\<in>{..<sv_next s}. ?g i) \<le> sum_token f' t s'"
    unfolding sum_token_def assms(1) using assms(2,4) by (intro sum_mono) fastforce
  ultimately show ?thesis by simp
qed

lemma sum_token_neg: "sum_token (\<lambda>i. - f i) t s = - sum_token f t s"
  by (simp add: sum_token_def sum_negf [symmetric] if_distrib cong: if_cong)

lemma usage_key_eq [simp]: "(usage_key t = usage_key t') = (t = t')"
  by (simp add: usage_key_def)

lemma usage_inv_step:
  assumes inv: "usage_inv up h s"
    and same: "sv_next s' = sv_next s" "\<And>i. i < sv_next s \<Longrightarrow> sm_token (sv_streams s' i) = sm_token (sv_streams s i)"
    and d: "0 \<le> d" "d = 0 \<or> j < sv_next s"
    and use: "\<And>t. sv_usage s' (usage_key t) = sv_usage s (usage_key t) + (if sm_token (sv_streams s j) = t then d else 0)"
    and off: "\<And>i. i < sv_next s \<Longrightarrow> taken_off h s i + (if i = j then d else 0) \<le> taken_off h' s' i"
    and sent: "\<And>i. up \<Longrightarrow> i < sv_next s \<Longrightarrow>
      bytes_of (sm_sent (sv_streams s' i)) \<le> bytes_of (sm_sent (sv_streams s i)) + (if i = j then d else 0)"
  shows "usage_inv up h' s'"
  unfolding usage_inv_def
proof (intro allI conjI impI)
  fix t
  show "0 \<le> sv_usage s' (usage_key t)" using inv use [of t] d(1) by (simp add: usage_inv_def)
  show "sv_usage s' (usage_key t) \<le> sum_token (taken_off h' s') t s'"
  proof -
    have "sum_token (taken_off h s) t s + (if sm_token (sv_streams s j) = t then d else 0) \<le> sum_token (taken_off h' s') t s'"
      by (rule sum_token_mono [OF same d(2) off])
    moreover have "sv_usage s (usage_key t) \<le> sum_token (taken_off h s) t s" using inv by (simp add: usage_inv_def)
    ultimately show ?thesis using use [of t] by simp
  qed
  assume up: up
  have "sum_token (\<lambda>i. - bytes_of (sm_sent (sv_streams s i))) t s + (if sm_token (sv_streams s j) = t then - d else 0)
      \<le> sum_token (\<lambda>i. - bytes_of (sm_sent (sv_streams s' i))) t s'"
  proof (rule sum_token_mono [OF same])
    show "- d = 0 \<or> j < sv_next s" using d(2) by auto
    show "- bytes_of (sm_sent (sv_streams s i)) + (if i = j then - d else 0) \<le> - bytes_of (sm_sent (sv_streams s' i))"
      if "i < sv_next s" for i using sent [OF up that] by (auto split: if_splits)
  qed
  then show "sent_bytes t s' \<le> sv_usage s' (usage_key t)"
  proof -
    assume m: "sum_token (\<lambda>i. - bytes_of (sm_sent (sv_streams s i))) t s + (if sm_token (sv_streams s j) = t then - d else 0)
      \<le> sum_token (\<lambda>i. - bytes_of (sm_sent (sv_streams s' i))) t s'"
    have "sent_bytes t s \<le> sv_usage s (usage_key t)" using inv up by (simp add: usage_inv_def)
    then show ?thesis using m use [of t] unfolding sent_bytes_def sum_token_neg by (auto split: if_splits)
  qed
qed

text \<open>A step that counts nothing.\<close>

lemma usage_inv_same:
  assumes "usage_inv up h s" and "sv_next s' = sv_next s" and "sv_usage s' = sv_usage s"
    and "\<And>i. sm_token (sv_streams s' i) = sm_token (sv_streams s i)" and "\<And>i. sm_sent (sv_streams s' i) = sm_sent (sv_streams s i)"
    and "\<And>i. i < sv_next s \<Longrightarrow> taken_off h s i \<le> taken_off h' s' i"
  shows "usage_inv up h' s'"
  by (rule usage_inv_step [OF assms(1), where d = 0]) (use assms in auto)

lemma usage_inv_cleanup:
  "usage_inv up h s \<Longrightarrow> stream_cleanup clean now j s = Goes s' \<Longrightarrow> usage_inv up h s'"
  by (erule usage_inv_same) (auto simp: cleanup_fields taken_off_def)

text \<open>An event that is taken off counts as much as it has bytes, or nothing when Redis fails.\<close>

lemma usage_inv_event:
  assumes inv: "usage_inv up h s" and j: "j < sv_next s" "sm_live (sv_streams s j)"
    and up: "up \<longrightarrow> a" and recv: "chan_recv (sv_chans s j) = Goes (Some ev, c)"
    and s1: "s1 = count_usage a e (sv_streams s j) ev (s\<lparr>sv_chans := (sv_chans s)(j := c)\<rparr>)"
    and same: "sv_next s' = sv_next s" "sv_usage s' = sv_usage s1"
      "\<And>i. sm_token (sv_streams s' i) = sm_token (sv_streams s i)" "\<And>i. sm_live (sv_streams s' i) \<Longrightarrow> sm_live (sv_streams s i)"
      "\<And>i. sm_live (sv_streams s' i) \<Longrightarrow> sv_chans s' i = sv_chans s1 i"
    and sent: "\<And>i. sm_sent (sv_streams s' i) = sm_sent (sv_streams s i) \<or> i = j \<and> sm_sent (sv_streams s' i) = sm_sent (sv_streams s i) @ [ev]"
  shows "usage_inv up h s'"
proof (rule usage_inv_step [OF inv, where j = j and d = "if a then int (length (pe_Data ev)) else 0"])
  let ?d = "if a then int (length (pe_Data ev)) else 0"
  show "sv_usage s' (usage_key t) = sv_usage s (usage_key t) + (if sm_token (sv_streams s j) = t then ?d else 0)" for t
    by (simp add: same(2) s1 count_usage_def Let_def)
  show "taken_off h s i + (if i = j then ?d else 0) \<le> taken_off h s' i" for i
    using j(2) received [OF recv] same(4,5) [of i] by (cases "sm_live (sv_streams s' i)") (auto simp: taken_off_def s1)
  show "bytes_of (sm_sent (sv_streams s' i)) \<le> bytes_of (sm_sent (sv_streams s i)) + (if i = j then ?d else 0)" if up for i
    using sent [of i] up that by auto
qed (use j same in auto)

lemma usage_inv_turn:
  assumes inv: "usage_inv up h s" and j: "j < sv_next s" "sm_live (sv_streams s j)"
    and t: "stream_loop t now j s = Goes (b, s')" and up: "up \<longrightarrow> redis_counts t"
  shows "usage_inv up h s'"
  using t
proof (cases rule: stream_loop_cases)
  case ended
  then show ?thesis using usage_inv_cleanup [OF inv] by simp
next
  case (sent a e ev c s1)
  then show ?thesis using up by (intro usage_inv_event [OF inv j _ sent(2,3)]) (auto split: if_splits)
next
  case (failed a e ev c s1)
  then show ?thesis
    using up by (intro usage_inv_event [OF inv j _ failed(2,3)]) (auto simp: cleanup_fields [OF failed(4)])
qed

text \<open>A stream that opens has sent nothing, and what its channel was given is at least its content.\<close>

lemma usage_inv_register:
  assumes inv: "usage_inv up h s" and r: "register_stream cfg token key claims s = (j, s')"
  shows "usage_inv up h s'"
proof -
  have n: "sv_next s' = Suc (sv_next s)" and u: "sv_usage s' = sv_usage s"
    and old: "\<And>i. i < sv_next s \<Longrightarrow> sm_token (sv_streams s' i) = sm_token (sv_streams s i) \<and>
      sm_sent (sv_streams s' i) = sm_sent (sv_streams s i) \<and> taken_off h s' i = taken_off h s i"
    and new: "sm_sent (sv_streams s' (sv_next s)) = []" "taken_off h s' (sv_next s) \<ge> 0"
    using r by (auto simp: register_stream_def Let_def conn_Close_def stream_cancel_def taken_off_def make_chan_def split: option.splits if_splits)
  have s: "sum_token f t s' = sum_token f' t s + (if sm_token (sv_streams s' (sv_next s)) = t then f (sv_next s) else 0)"
    if "\<And>i. i < sv_next s \<Longrightarrow> f i = f' i" for f f' t
  proof -
    have "(\<Sum>i\<in>{..<sv_next s}. if sm_token (sv_streams s' i) = t then f i else 0) = sum_token f' t s"
      unfolding sum_token_def using old that by (intro sum.cong) auto
    then show ?thesis by (simp add: sum_token_def n lessThan_Suc add.commute)
  qed
  have "sum_token (taken_off h s) t s \<le> sum_token (taken_off h s') t s'" for t
    using s [of "taken_off h s'" "taken_off h s" t] old new(2) by simp
  moreover have "sent_bytes t s' = sent_bytes t s" for t
    using s [of "\<lambda>i. bytes_of (sm_sent (sv_streams s' i))" "\<lambda>i. bytes_of (sm_sent (sv_streams s i))" t] old new(1)
    by (simp add: sent_bytes_def)
  ultimately show ?thesis using inv u unfolding usage_inv_def by (metis order_trans)
qed

lemma usage_inv_move: "srv_moves cfg up s s' \<Longrightarrow> usage_inv up h s \<Longrightarrow> usage_inv up h s'"
proof (induction rule: srv_moves.induct)
  case (opened now md chain addr event s j s')
  then show ?case by (auto simp: stream_open_def Let_def intro: usage_inv_register split: option.splits sum.splits if_splits)
next
  case (header j s sent now b s')
  then show ?case by (auto simp: stream_header_def result_simps intro: usage_inv_cleanup split: if_splits)
next
  case (turn j s t now b s')
  then show ?case using usage_inv_turn by blast
next
  case (gone s i)
  then show ?case by (rule usage_inv_same) (auto simp: taken_off_def stream_cancel_def)
next
  case (disconnect now md s r s')
  from disconnect(2) show ?case
    by (rule usage_inv_same) (auto simp: disconnect_fields [OF disconnect(1)] taken_off_def)
next
  case (sched now now' s subs sch)
  from sched(2) show ?case by (rule usage_inv_same) (auto simp: taken_off_def)
next
  case (dropped s key e now)
  have "taken_off h (usage_drop key s) = taken_off h s" by (simp add: taken_off_def fun_eq_iff)
  then have "sum_token (taken_off h (usage_drop key s)) t (usage_drop key s) = sum_token (taken_off h s) t s" for t
    by (simp add: sum_token_def)
  then show ?case using dropped(1,4) unfolding usage_inv_def by (auto simp: usage_drop_def intro: order_trans)
qed

lemma usage_inv_bcast:
  assumes inv: "usage_inv up h s" and b: "bcast_step b s = Goes (b', s')"
  shows "usage_inv up (h @ bcast_taken b s) s'"
proof -
  let ?j = "bcast_target b s"
  obtain c where c: "chan_try_send (bc_event b) (sv_chans s ?j) = Goes c" and s': "s' = s\<lparr>sv_chans := (sv_chans s)(?j := c)\<rparr>"
    using b by (auto simp: bcast_step_def bcast_target_def Let_def result_simps)
  show ?thesis
    by (rule usage_inv_same [OF inv])
      (use c in \<open>auto simp: s' taken_off_def bcast_taken_def Let_def taken_by_def chan_try_send_def chan_send_def split: if_splits\<close>)
qed

lemma usage_inv_runs: "srv_runs cfg up s0 h s \<Longrightarrow> usage_inv up [] s0 \<Longrightarrow> usage_inv up h s"
  by (induction rule: srv_runs.induct) (auto intro: usage_inv_move usage_inv_bcast)

text \<open>A counter's expiry is that of the claims of a stream of its token.\<close>

definition expiry_inv :: "srv \<Rightarrow> bool" where
  "expiry_inv s \<longleftrightarrow> (\<forall>t e. sv_usage_expiry s (usage_key t) = Some e \<longrightarrow>
     (\<exists>i < sv_next s. sm_token (sv_streams s i) = t \<and> e = usage_until (sm_claims (sv_streams s i))))"

lemma expiry_inv_same:
  assumes "expiry_inv s" and "sv_next s \<le> sv_next s'" and "sv_usage_expiry s' = sv_usage_expiry s"
    and "\<And>i. i < sv_next s \<Longrightarrow> sm_token (sv_streams s' i) = sm_token (sv_streams s i) \<and>
      sm_claims (sv_streams s' i) = sm_claims (sv_streams s i)"
  shows "expiry_inv s'"
  using assms unfolding expiry_inv_def by (metis order_less_le_trans)

lemma count_usage_expiry:
  "sv_usage_expiry (count_usage a e sm ev s) =
     (if (if a then sv_usage s (usage_key (sm_token sm)) + int (length (pe_Data ev)) else 0) = int (length (pe_Data ev)) \<and> e
      then (sv_usage_expiry s)(usage_key (sm_token sm) \<mapsto> usage_until (sm_claims sm)) else sv_usage_expiry s)"
  by (simp add: count_usage_def Let_def)

lemma expiry_inv_count:
  assumes "expiry_inv s" and "j < sv_next s" and "sv_streams s' = sv_streams s" and "sv_next s' = sv_next s"
    and "sv_usage_expiry s' = sv_usage_expiry s"
  shows "expiry_inv (count_usage a e (sv_streams s j) ev s')"
  using assms unfolding expiry_inv_def by (auto simp: count_usage_expiry)

lemma expiry_inv_turn:
  assumes inv: "expiry_inv s" and j: "j < sv_next s" and t: "stream_loop t now j s = Goes (b, s')"
  shows "expiry_inv s'"
  using t
proof (cases rule: stream_loop_cases)
  case ended
  then show ?thesis using expiry_inv_same [OF inv] cleanup_fields by simp
next
  case (sent a e ev c s1)
  have "expiry_inv s1" using expiry_inv_count [OF inv j] by (simp add: sent(3))
  then show ?thesis by (rule expiry_inv_same) (simp_all add: sent(3,4))
next
  case (failed a e ev c s1)
  have "expiry_inv s1" using expiry_inv_count [OF inv j] by (simp add: failed(3))
  then show ?thesis by (rule expiry_inv_same) (simp_all add: cleanup_fields [OF failed(4)])
qed

lemma expiry_inv_move: "srv_moves cfg up s s' \<Longrightarrow> expiry_inv s \<Longrightarrow> expiry_inv s'"
proof (induction rule: srv_moves.induct)
  case (opened now md chain addr event s j s')
  obtain token key claims where "register_stream cfg token key claims s = (j, s')"
    using opened(1) by (auto simp: stream_open_def Let_def split: option.splits sum.splits if_splits)
  then show ?case
    by (intro expiry_inv_same [OF opened(2)])
      (auto simp: register_stream_def Let_def conn_Close_def stream_cancel_def split: option.splits)
next
  case (header j s sent now b s')
  then show ?case
    by (auto simp: stream_header_def result_simps cleanup_fields intro: expiry_inv_same split: if_splits)
next
  case (turn j s t now b s')
  then show ?case using expiry_inv_turn by blast
next
  case (gone s i)
  then show ?case by (rule expiry_inv_same) (auto simp: stream_cancel_def)
next
  case (disconnect now md s r s')
  from disconnect(2) show ?case by (rule expiry_inv_same) (simp_all add: disconnect_fields [OF disconnect(1)])
next
  case (sched now now' s subs sch)
  from sched(2) show ?case by (rule expiry_inv_same) simp_all
next
  case (dropped s key e now)
  then show ?case by (auto simp: expiry_inv_def usage_drop_def)
qed

lemma expiry_inv_runs: "srv_runs cfg up s0 h s \<Longrightarrow> expiry_inv s0 \<Longrightarrow> expiry_inv s"
proof (induction rule: srv_runs.induct)
  case (bcast h s b b' s')
  then have "expiry_inv s" by blast
  then show ?case by (rule expiry_inv_same) (use bcast.hyps(2) in \<open>auto simp: bcast_step_def Let_def result_simps\<close>)
qed (auto intro: expiry_inv_move)

text \<open>
  C36. The counter of a token's bytes, which Redis drops some time after it has expired: at
  every moment it is at most the bytes of the events that broadcasts put into the channels of
  the token's streams, whatever Redis does; and as long as Redis counts what is sent to it and
  has dropped no counter, at least the bytes that these streams have sent. (An event is counted
  before it is sent, so one whose sending fails is counted too.) A counter only ever has the
  expiry of the claims of a stream of its token, ten minutes after the token's own.
\<close>

theorem usage_is_bounded:
  assumes "srv_runs cfg up (new_server m) h s"
  shows "sv_usage s (usage_key t) \<le> given_bytes t h s \<and> (up \<longrightarrow> sent_bytes t s \<le> sv_usage s (usage_key t))
    \<and> (sv_usage_expiry s (usage_key t) = Some e \<longrightarrow>
        (\<exists>i < sv_next s. sm_token (sv_streams s i) = t \<and> e = usage_until (sm_claims (sv_streams s i))))"
proof -
  have "usage_inv up [] (new_server m)" "expiry_inv (new_server m)"
    by (simp_all add: usage_inv_def sent_bytes_def sum_token_def new_server_def expiry_inv_def)
  from usage_inv_runs [OF assms this(1)] expiry_inv_runs [OF assms this(2)]
  have U: "usage_inv up h s" "expiry_inv s" .
  have "sum_token (taken_off h s) t s \<le> given_bytes t h s"
    unfolding given_bytes_def sum_token_def by (intro sum_mono) (auto simp: taken_off_def)
  then show ?thesis using U unfolding usage_inv_def expiry_inv_def by (meson order_trans)
qed

section \<open>One event on its way\<close>

lemma one_event:
  obtains m s1 s2 s3 where "srv_runs sample_cfg True (new_server m) [] s1" "srv_reach sample_cfg s1" "sv_next s1 = 1"
    "sm_live (sv_streams s1 0)" "sm_sent (sv_streams s1 0) = []" "ch_buf (sv_chans s1 0) = []"
    "srv_runs sample_cfg True s1 [(0, sample_event)] s3" "srv_runs sample_cfg True (new_server m) [(0, sample_event)] s3"
    "sm_sent (sv_streams s3 0) = [sample_event]" "sm_token (sv_streams s3 0) = ''tk''" "sv_next s3 = 1"
proof -
  let ?key = "stream_key 39 ''0xab'' ''Transfer''"
  define m :: "nat \<Rightarrow> jwt_claims session_job" where
    "m = (\<lambda>_. \<lparr>job_token = [], job_claims = sample_claims, job_runAt = 0, job_canceled = False, job_index = 0\<rparr>)"
  define s0 where "s0 = new_server m"
  obtain i s1 where o1: "register_stream sample_cfg ''tk'' ?key sample_claims s0 = (i, s1)" by fastforce
  have b: "sv_blacklist s0 = Map.empty" "sv_next s0 = 0" by (simp_all add: s0_def new_server_def)
  have r0: "srv_reach sample_cfg s0" unfolding s0_def by (rule srv_reach.start)
  have mv: "srv_moves sample_cfg True s0 s1" by (rule srv_moves.opened [OF stream_open_sample [OF b(1), unfolded o1]])
  have r1: "srv_reach sample_cfg s1" by (rule moves_reach [OF mv r0])
  have s1: "sv_next s1 = 1" "sm_live (sv_streams s1 0)" "sm_sent (sv_streams s1 0) = []" "sv_chans s1 0 = make_chan 100"
    "sm_token (sv_streams s1 0) = ''tk''" "sv_subs s1 = sub_add (sc_grow sample_cfg) ?key 0 (sv_subs s0)"
    using o1 b by (auto simp: register_stream_def Let_def s0_def new_server_def)
  have wf: "sub_wf (sv_subs s0)" using srv_invD(1) [OF srv_reach_inv [OF r0]] by (simp add: subs.tracks_def)
  have "sub_elems (sv_subs s0) ?key = []"
    by (simp add: s0_def new_server_def no_subscribers_def sub_elems_def slice_elems_def)
  then have "sub_elems (sv_subs s1) ?key = [0]" using sub_add_law [OF wf] by (simp add: s1(6))
  then have tg: "bcast_target (bcast_start 39 ''0xab'' ''Transfer'' sample_event s1) s1 = 0"
    by (simp add: bcast_target_def bcast_start_def sub_elems_def)
  let ?b = "bcast_start 39 ''0xab'' ''Transfer'' sample_event s1"
  define s2 where "s2 = s1\<lparr>sv_chans := (sv_chans s1)(0 := (make_chan 100)\<lparr>ch_buf := [sample_event]\<rparr>)\<rparr>"
  have ev: "bc_event ?b = sample_event" by (simp add: bcast_start_def)
  have bc: "\<exists>b'. bcast_step ?b s1 = Goes (b', s2)" and tk: "bcast_taken ?b s1 = [(0, sample_event)]"
    using s1(4) by (simp_all add: bcast_step_def bcast_target_def [symmetric] tg ev s2_def chan_try_send_def chan_send_def
        make_chan_def bcast_taken_def Let_def)
  define s3 where "s3 = (count_usage True True (sv_streams s1 0) sample_event (s2\<lparr>sv_chans := (sv_chans s2)(0 := make_chan 100)\<rparr>))
      \<lparr>sv_streams := (sv_streams s1)(0 := (sv_streams s1 0)\<lparr>sm_sent := [sample_event]\<rparr>)\<rparr>"
  have turn: "stream_loop (Event True True True) 0 0 s2 = Goes (True, s3)"
    by (simp add: chan_recv_def s2_def s3_def s1(3) make_chan_def Let_def)
  have mv3: "srv_moves sample_cfg True s2 s3" by (rule srv_moves.turn [OF _ _ turn]) (simp_all add: s2_def s1)
  have run: "srv_runs sample_cfg True s [] s1 \<Longrightarrow> srv_runs sample_cfg True s [(0, sample_event)] s3" for s
    using srv_runs.bcast [where b = ?b] srv_runs.move [OF _ mv3] bc tk by (metis append_Nil)
  have "srv_runs sample_cfg True (new_server m) [] s1"
    using srv_runs.move [OF srv_runs.here mv] by (simp add: s0_def)
  then show thesis
    using r1 s1 run srv_runs.here by (intro that [of m s1 s3]) (auto simp: make_chan_def s3_def s2_def)
qed

theorem stream_is_a_queue_witness:
  "\<exists>s0 s. srv_runs sample_cfg True s0 [(0, sample_event)] s \<and> sm_sent (sv_streams s0 0) = [] \<and>
    (\<exists>rest. [sample_event] = sm_sent (sv_streams s 0) @ rest)"
proof (rule one_event)
  fix m s1 s3
  assume s: "srv_reach sample_cfg s1" "sv_next s1 = 1" "sm_live (sv_streams s1 0)" "sm_sent (sv_streams s1 0) = []"
    "ch_buf (sv_chans s1 0) = []" "srv_runs sample_cfg True s1 [(0, sample_event)] s3"
  have "\<exists>rest. [sample_event] = sm_sent (sv_streams s3 0) @ rest"
    using stream_is_a_queue [OF s(6,1) _ s(3) refl] s(2,4,5) by (simp add: taken_by_def)
  then show ?thesis using s(4,6) by blast
qed

theorem usage_is_bounded_witness:
  "\<exists>m h s. srv_runs sample_cfg True (new_server m) h s \<and> sent_bytes ''tk'' s = 2 \<and> sv_usage s (usage_key ''tk'') = 2"
proof (rule one_event)
  fix m s1 s3
  assume s: "srv_runs sample_cfg True (new_server m) [(0, sample_event)] s3"
    "sm_sent (sv_streams s3 0) = [sample_event]" "sm_token (sv_streams s3 0) = ''tk''" "sv_next s3 = 1"
  have "sent_bytes ''tk'' s3 = 2" "given_bytes ''tk'' [(0, sample_event)] s3 = 2"
    using s(2-4) by (simp_all add: sent_bytes_def given_bytes_def sum_token_def sample_event_def taken_by_def)
  then show ?thesis using usage_is_bounded [OF s(1), of "''tk''", THEN conjunct1] usage_is_bounded [OF s(1), of "''tk''", THEN conjunct2, THEN conjunct1] s(1)
    by (intro exI [of _ m] exI [of _ "[(0, sample_event)]"] exI [of _ s3]) simp
qed

end
