(* ===== verification/Work_Queue.thy ===== *)
theory Work_Queue
  imports Contract_Api
begin

text \<open>
  The worker and its queue (\<open>internal/worker/worker.go\<close>): what is registered with the task queue's
  server, and what the handler answers it. The queue is a library; it takes a task for done when its
  handler returns no error before the task's context is done, and delivers it again when the
  handler returns an error or the task's time runs out first.
\<close>

section \<open>The worker\<close>

text \<open>The server is its Redis address with the number of tasks it works on at a time.\<close>

record ('x, 'db) worker =
  wk_server :: "string \<times> nat"
  wk_ethClients :: "int \<rightharpoonup> ('x, 'db) client"
  wk_redisAddr :: string
  wk_db :: 'db
  wk_decoder :: event_decoder
  wk_metrics :: "string \<rightharpoonup> int"
  wk_monitor :: "mon option"

definition NewWorker ::
  "string \<Rightarrow> (int \<rightharpoonup> ('x, 'db) client) \<Rightarrow> 'db \<Rightarrow> mon option \<Rightarrow> (string \<rightharpoonup> int) \<Rightarrow> ('x, 'db) worker" where
  "NewWorker redisAddr ethClients db monitor metrics =
     \<lparr>wk_server = (redisAddr, 10), wk_ethClients = ethClients, wk_redisAddr = redisAddr, wk_db = db,
      wk_decoder = NewEventDecoder, wk_metrics = metrics, wk_monitor = monitor\<rparr>"

text \<open>The server runs with the handlers registered; how it runs and stops is the library's.\<close>

definition worker_mux :: "'h \<Rightarrow> (string \<times> 'h) list" where
  "worker_mux handleBackfill = [(TypeBackfill, handleBackfill)]"

definition worker_Start :: "(string \<times> nat \<Rightarrow> (string \<times> 'h) list \<Rightarrow> string option) \<Rightarrow> 'h \<Rightarrow> ('x, 'db) worker \<Rightarrow> string option" where
  "worker_Start run handleBackfill w = run (wk_server w) (worker_mux handleBackfill)"

definition worker_Shutdown :: "(string \<times> nat \<Rightarrow> 's) \<Rightarrow> ('x, 'db) worker \<Rightarrow> string option \<times> 's" where
  "worker_Shutdown shutdown w = (None, shutdown (wk_server w))"

section \<open>What the handler answers\<close>

text \<open>
  The answer of the handler, if it has one yet: an error of its beginning, or what its loop has
  returned.
\<close>

definition handleBackfill_answer :: "begin_result \<Rightarrow> ('x, 'db) task \<Rightarrow> string option option" where
  "handleBackfill_answer r t = (case r of Fails err \<Rightarrow> Some (Some err) | Skips \<Rightarrow> Some None | Runs ct \<Rightarrow> tk_result t)"

lemma loop_returns_nil_step: "task_step E t t' \<Longrightarrow> tk_result t \<in> {None, Some None} \<Longrightarrow> tk_result t' \<in> {None, Some None}"
  by (induction rule: task_step.induct) auto

lemma loop_returns_nil:
  assumes "task_run E (task_start st cache mo) t"
  shows "tk_result t \<in> {None, Some None}"
  using assms
proof (induction "task_start st cache mo" t rule: task_run.induct)
  case here
  show ?case by (simp add: task_start_def)
qed (rule loop_returns_nil_step)

text \<open>A node that refuses every query for logs.\<close>

definition node_down :: "node \<Rightarrow> bool" where
  "node_down node = (\<forall>q. \<not> is_ok (node q))"

lemma node_down_safe: "node_down node \<Longrightarrow> node_safe node"
  unfolding node_down_def node_safe_def by (metis is_ok.simps(2))

lemma node_down_filter:
  assumes "node_down (te_node E)" and "task_filter E t = Goes (res, st)"
  shows "\<not> is_ok res \<and> st = tk_st t"
  using assms by (auto simp: node_down_def task_filter_def FilterLogs_def is_ok_iff split: sum.splits)

text \<open>With such a node a task stores and sends nothing, and its status is where it begins.\<close>

definition begun_status :: "('x, 'db) task_env \<Rightarrow> (string \<rightharpoonup> int) \<Rightarrow> int option" where
  "begun_status E cache = (case te_latest E of
     Inl err \<Rightarrow> cache (te_key E)
   | Inr b \<Rightarrow> if ln_startBlock (te_listener E) < int64_of b then Some (ln_startBlock (te_listener E)) else None)"

definition idle :: "('x, 'db) task_env \<Rightarrow> ('x, 'db) client_st \<Rightarrow> (string \<rightharpoonup> int) \<Rightarrow> ('x, 'db) task \<Rightarrow> bool" where
  "idle E st cache t \<longleftrightarrow> tk_st t = st \<and> ch_buf (tk_events t) = [] \<and>
     (case tk_phase t of
        Starting \<Rightarrow> tk_cache t = cache
      | Fetching \<Rightarrow> tk_cur t = ln_startBlock (te_listener E) \<and> (\<exists>b. te_latest E = Inr b \<and> tk_end t = int64_of b) \<and>
          tk_cache t (te_key E) = Some (ln_startBlock (te_listener E))
      | Sending ls to \<Rightarrow> False
      | _ \<Rightarrow> tk_cache t (te_key E) = begun_status E cache)"

lemma idle_step: "task_step E t t' \<Longrightarrow> node_down (te_node E) \<Longrightarrow> idle E st cache t \<Longrightarrow> idle E st cache t'"
proof (induction rule: task_step.induct)
  case (fetch t logs st')
  then show ?case using node_down_filter [OF fetch(5,4)] by simp
next
  case (fetch_error t err st')
  then show ?case using node_down_filter [OF fetch_error(5,4)] by (auto simp: idle_def begun_status_def)
next
  case (finish t ch)
  then show ?case by (auto simp: idle_def begun_status_def chan_close_def split: if_splits)
qed (auto simp: idle_def begun_status_def chan_recv_def split: if_splits lphase.splits)

lemma idle_run:
  assumes "task_run E (task_start st cache mo) t" and "node_down (te_node E)"
  shows "idle E st cache t"
  using assms(1)
proof (induction "task_start st cache mo" t rule: task_run.induct)
  case here
  show ?case by (simp add: idle_def task_start_def make_chan_def)
qed (use idle_step assms(2) in blast)

text \<open>
  C37. What the queue learns of a backfill. In every execution the handler answers an error exactly
  when it could not begin: the payload does not unmarshal, the chain has no client, or the
  contract is not found; and then the monitor is as it was. Whatever happens in its loop, it
  answers none. So a backfill whose node refuses every query stores nothing, and still, unless
  its context ends first, goes on to the answer of a success, with its status left at
  the start block (if there was a block to fetch): the queue takes it for done.
\<close>

theorem failed_backfills_are_done:
  assumes "handleBackfill_begin payload clients ctx db mo = (r, mo')"
    and "task_run E (task_start st cache mo') t"
  shows "((\<exists>err. handleBackfill_answer r t = Some (Some err)) \<longleftrightarrow>
      (case payload of Inl err \<Rightarrow> True
       | Inr p \<Rightarrow> (case clients (bp_ChainID p) of None \<Rightarrow> True
           | Some c \<Rightarrow> \<not> is_ok (st_FindContract (cl_store c) (bp_ChainID p) (to_lower (bp_ContractAddr p)) (bp_EventSig p) db))))
    \<and> ((\<exists>err. handleBackfill_answer r t = Some (Some err)) \<longrightarrow> mo' = mo)
    \<and> (node_down (te_node E) \<longrightarrow> r = Runs ct \<longrightarrow> tk_st t = st \<and>
        ((\<exists>t'. task_step E t t' \<and> (tk_cancelled t' = tk_cancelled t \<or> handleBackfill_answer r t \<noteq> None)) \<or>
         handleBackfill_answer r t = Some None \<and> tk_phase t = Marked) \<and>
        (tk_phase t = Marked \<longrightarrow> tk_cache t (te_key E) = begun_status E cache))"
proof (intro conjI impI)
  have nil: "tk_result t \<noteq> Some (Some err)" for err using loop_returns_nil [OF assms(2)] by auto
  show "(\<exists>err. handleBackfill_answer r t = Some (Some err)) \<longleftrightarrow>
      (case payload of Inl err \<Rightarrow> True
       | Inr p \<Rightarrow> (case clients (bp_ChainID p) of None \<Rightarrow> True
           | Some c \<Rightarrow> \<not> is_ok (st_FindContract (cl_store c) (bp_ChainID p) (to_lower (bp_ContractAddr p)) (bp_EventSig p) db)))"
    using assms(1) nil by (auto simp: handleBackfill_begin_def handleBackfill_answer_def split: sum.splits option.splits if_splits)
  show "mo' = mo" if "\<exists>err. handleBackfill_answer r t = Some (Some err)"
    using assms(1) that nil by (auto simp: handleBackfill_begin_def handleBackfill_answer_def split: sum.splits option.splits if_splits)
next
  assume down: "node_down (te_node E)" and r: "r = Runs ct"
  note I = idle_run [OF assms(2) down]
  show "tk_st t = st" using I by (simp add: idle_def)
  show "tk_cache t (te_key E) = begun_status E cache" if "tk_phase t = Marked" using I that by (simp add: idle_def)
  show "(\<exists>t'. task_step E t t' \<and> (tk_cancelled t' = tk_cancelled t \<or> handleBackfill_answer r t \<noteq> None)) \<or>
      handleBackfill_answer r t = Some None \<and> tk_phase t = Marked"
    using task_progress [OF task_inv_run [OF assms(2) task_inv_start] node_down_safe [OF down]] loop_returns_nil [OF assms(2)]
    by (auto simp: r handleBackfill_answer_def)
qed

definition down_env :: "(unit, tables) task_env" where
  "down_env = sample_task_env\<lparr>te_node := \<lambda>q. Inl ''down''\<rparr>"

text \<open>An execution in which nothing is cancelled: the listener fails, and the handler is told.\<close>

lemma down_run:
  obtains t where "task_run down_env (task_start sample_st Map.empty None) t" "tk_result t = Some None"
    "\<not> tk_cancelled t" "tk_phase t = Marked" "tk_cache t (te_key down_env) = Some 10"
proof -
  let ?E = down_env
  let ?t0 = "task_start sample_st Map.empty None"
  let ?t1 = "?t0\<lparr>tk_phase := Fetching, tk_cur := ln_startBlock (te_listener ?E), tk_end := int64_of 50,
    tk_cache := (tk_cache ?t0)(te_key ?E \<mapsto> ln_startBlock (te_listener ?E))\<rparr>"
  let ?t2 = "?t1\<lparr>tk_st := sample_st, tk_phase := Ending\<rparr>"
  let ?t3 = "?t2\<lparr>tk_phase := Signalled, tk_done := True\<rparr>"
  let ?t4 = "?t3\<lparr>tk_phase := Marked, tk_mon := mark_complete ?E (tk_mon ?t3)\<rparr>"
  let ?t5 = "?t4\<lparr>tk_result := Some None\<rparr>"
  have s: "te_latest ?E = Inr 50" "ln_startBlock (te_listener ?E) = 10" "te_node ?E q = Inl ''down''" for q
    by (simp_all add: down_env_def sample_task_env_def sample_listener_def NewEventListener_def)
  have b: "int64_of 50 = 50" by (simp add: int64_of_def)
  have "task_step ?E ?t0 ?t1" by (rule task_step.latest) (simp_all add: s task_start_def)
  moreover have "task_step ?E ?t1 ?t2"
    by (rule task_step.fetch_error) (simp_all add: s b task_start_def task_filter_def FilterLogs_def)
  moreover have "task_step ?E ?t2 ?t3" by (rule task_step.signal) simp
  moreover have "task_step ?E ?t3 ?t4" by (rule task_step.mark) simp
  moreover have "task_step ?E ?t4 ?t5" by (rule task_step.handler_done) (simp_all add: task_start_def)
  ultimately have "task_run ?E ?t0 ?t5" using task_run.intros by meson
  then show thesis by (rule that) (simp_all add: task_start_def s)
qed

theorem failed_backfills_are_done_witness:
  "\<exists>t. task_run down_env (task_start sample_st Map.empty None) t \<and> \<not> tk_cancelled t \<and>
    handleBackfill_answer (Runs sample_contract) t = Some None \<and> tk_st t = sample_st \<and>
    begun_status down_env Map.empty = Some 10"
proof (rule down_run)
  fix t assume t: "task_run down_env (task_start sample_st Map.empty None) t" "tk_result t = Some None"
    "\<not> tk_cancelled t" "tk_phase t = Marked" "tk_cache t (te_key down_env) = Some 10"
  define p where "p = \<lparr>bp_ChainID = 39, bp_ContractAddr = to_lower (hex_EncodeToHex (replicate 20 1)),
    bp_EventSig = hex_EncodeToHex (replicate 32 7), bp_StartBlock = 10\<rparr>"
  have b: "handleBackfill_begin (Inr p) [39 \<mapsto> sample_client] [] (cs_db sample_st) None = (Runs sample_contract, None)"
    by (simp add: handleBackfill_begin_def p_def sample_st_def sample_contract_row)
  have down: "node_down (te_node down_env)" by (simp add: node_down_def down_env_def)
  from failed_backfills_are_done [OF b t(1), of sample_contract] down t show ?thesis
    by (auto simp: handleBackfill_answer_def)
qed

text \<open>
  Every task that a registration enqueues has the type whose handler the worker registers: the
  queue never meets a task without one.
\<close>

theorem enqueued_tasks_are_handled:
  assumes "contract_rows (av_store E)" and "rp_status (wb_resp s) = 0"
  shows "\<exists>new. ap_queue (api_RegisterContract E body s) = ap_queue s @ new \<and>
    (\<forall>x \<in> set new. map_of (worker_mux handleBackfill) (fst x) = Some handleBackfill)"
proof (cases rule: registration_cases [OF assms(2), of E body])
  case (2 req es)
  then show ?thesis
    using register_events_registered [OF assms, of req es "[]"]
    by (auto simp: registered_def tasks_for_def worker_mux_def)
qed auto

end
