(* ===== verification/Helpers.thy ===== *)
theory Helpers
  imports Hex Types Go_Json
begin

text \<open>
  \<open>helper/common/common.go\<close> and \<open>helper/keystore/keystore.go\<close>: small functions on numbers, bytes and
  slices, numbers in JSON, and a key kept in a file. Floating point and directories are left out.
\<close>

section \<open>Numbers, bytes and slices\<close>

definition common_Min :: "u64 \<Rightarrow> u64 \<Rightarrow> u64" where
  "common_Min a b = (if a < b then a else b)"

definition common_Max :: "u64 \<Rightarrow> u64 \<Rightarrow> u64" where
  "common_Max a b = (if a > b then a else b)"

definition PadLeftOrTrim :: "byte list \<Rightarrow> nat \<Rightarrow> byte list" where
  "PadLeftOrTrim bb size' =
     (let l = length bb in
      if l = size' then bb
      else if l > size' then drop (l - size') bb
      else copy_at (replicate size' 0) (size' - l) bb)"

definition HasCommonElement :: "int list \<Rightarrow> int list \<Rightarrow> bool" where
  "HasCommonElement xs ys =
     (let elementMap = fold (\<lambda>num m. m(num := True)) xs (\<lambda>_. False)
      in list_ex (\<lambda>num. elementMap num) ys)"

text \<open>\<open>int\<close> has 64 bits.\<close>

definition IntSliceToInt64Slice :: "int list \<Rightarrow> int list" where
  "IntSliceToInt64Slice in' = map int64_wrap in'"

text \<open>
  Bytes are padded on the left with zeros, or cut to the low-order ones: the result has the size
  asked for and is the same big-endian number modulo a power of 256. With 32 and 20 it is the
  conversion to a hash and to an address of \<open>types\<close>.
\<close>

theorem pad_left_or_trim:
  "length (PadLeftOrTrim bb n) = n \<and> be_val (PadLeftOrTrim bb n) = be_val bb mod 256 ^ n
   \<and> PadLeftOrTrim bb 32 = BytesToHash bb \<and> PadLeftOrTrim bb 20 = BytesToAddress bb"
proof -
  have p: "PadLeftOrTrim bb m = replicate (m - length bb) 0 @ drop (length bb - m) bb" for m
    by (auto simp: PadLeftOrTrim_def copy_at_def Let_def)
  have "length (PadLeftOrTrim bb n) = n" by (simp add: p)
  then show ?thesis unfolding p be_val_low BytesToHash_eq BytesToAddress_eq by simp
qed

text \<open>The map of the first slice finds exactly the common elements.\<close>

theorem has_common_element:
  "HasCommonElement xs ys \<longleftrightarrow> set xs \<inter> set ys \<noteq> {}"
proof -
  have "fold (\<lambda>num m. m(num := True)) xs f n = (f n \<or> n \<in> set xs)" for f n
    by (induction xs arbitrary: f) auto
  then show ?thesis by (auto simp: HasCommonElement_def list_ex_iff)
qed

section \<open>Numbers in JSON\<close>

text \<open>What \<open>json.Unmarshal\<close> makes of a value: a string, a number (rounded by a parameter), or other.\<close>

datatype 'f raw_value = RawFloat 'f | RawString string | RawOther

definition ConvertUnmarshalledInt :: "('f \<Rightarrow> int) \<Rightarrow> 'f raw_value \<Rightarrow> string + int" where
  "ConvertUnmarshalledInt roundFloat x =
     (case x of
        RawFloat f \<Rightarrow> Inr (roundFloat f)
      | RawString tx \<Rightarrow> (case types_ParseUint64orHex (Some tx) of Inl err \<Rightarrow> Inl ''parse error'' | Inr v \<Rightarrow> Inr (int64_of v))
      | RawOther \<Rightarrow> Inl ''unsupported type for unmarshalled integer'')"

definition json_number_Marshal :: "u64 \<Rightarrow> string" where
  "json_number_Marshal w = quote_char # hex_EncodeUint64 w @ [quote_char]"

definition json_number_Unmarshal :: "('f \<Rightarrow> int) \<Rightarrow> string + 'f raw_value \<Rightarrow> string + u64" where
  "json_number_Unmarshal roundFloat decoded =
     bind_res decoded (\<lambda>rawValue. bind_res (ConvertUnmarshalledInt roundFloat rawValue)
       (\<lambda>val. if val < 0 then Inl ''must be positive value'' else Inr (u64_of_int val)))"

lemma json_char_plain: "48 \<le> (of_char c :: nat) \<Longrightarrow> of_char c \<notin> {60, 62, 92 :: nat} \<Longrightarrow> json_char c = [c]"
  by (auto simp: json_char_def quote_char_def backslash_def Let_def)

lemma json_char_digit: "d < 16 \<Longrightarrow> json_char (digit_char d) = [digit_char d]"
  by (rule json_char_plain) (simp_all add: of_char_digit_char)

lemma concat_single: "\<forall>c \<in> set s. f c = [c] \<Longrightarrow> concat (map f s) = s"
  by (induction s) auto

lemma json_chars_digits: "concat (map json_char (digits 16 n)) = digits 16 n"
proof (intro concat_single ballI)
  fix c assume "c \<in> set (digits 16 n)"
  then obtain d where "d < 16" "c = digit_char d" using digits_chars [of 16 c n] by auto
  then show "json_char c = [c]" by (simp add: json_char_digit)
qed

text \<open>
  A number is written as a JSON string of its hexadecimal form. It is read back when it is below
  2^63; from there on the number that was just written is refused, as a negative one.
\<close>

theorem json_number_roundtrip:
  "json_number_Marshal w = json_string (hex_EncodeUint64 w)
   \<and> json_number_Unmarshal roundFloat (Inr (RawString (hex_EncodeUint64 w))) =
      (if unat w < 2 ^ 63 then Inr w else Inl ''must be positive value'')"
proof
  have x: "json_char CHR ''0'' = ''0''" "json_char CHR ''x'' = ''x''" by code_simp+
  show "json_number_Marshal w = json_string (hex_EncodeUint64 w)"
    by (simp add: json_number_Marshal_def json_string_def hex_EncodeUint64_def json_chars_digits x)
  have p: "types_ParseUint64orHex (Some (hex_EncodeUint64 w)) = Inr w"
    using types_u64_codec.dec_enc [of w] by (simp add: hex_EncodeUint64_def types_EncodeUint64_def)
  have neg: "int64_of w < 0 \<longleftrightarrow> \<not> unat w < 2 ^ 63"
  proof (cases "unat w < 2 ^ 63")
    case True
    then show ?thesis using int64_of_small [of w] by simp
  next
    case False
    have "9223372036854775808 \<le> unat w" using False by simp
    then have u: "9223372036854775808 \<le> uint w" "uint w < 18446744073709551616"
      using unat_u64_bound [of w] uint_nat [of w] by linarith+
    have "int64_of w = (uint w + 2 ^ 63) mod 2 ^ 64 - 2 ^ 63"
      by (simp add: int64_of_def sint_uint signed_take_bit_eq_take_bit_shift take_bit_eq_mod add.commute)
    also have "uint w + 2 ^ 63 = (uint w - 2 ^ 63) + 2 ^ 64" by simp
    also have "((uint w - 2 ^ 63) + 2 ^ 64) mod 2 ^ 64 = (uint w - 2 ^ 63) mod 2 ^ 64" by (rule mod_add_self2)
    also have "(uint w - 2 ^ 63) mod 2 ^ 64 = uint w - 2 ^ 63"
      using u by (intro mod_pos_pos_trivial) simp_all
    finally show ?thesis using False u by simp
  qed
  show "json_number_Unmarshal roundFloat (Inr (RawString (hex_EncodeUint64 w))) =
      (if unat w < 2 ^ 63 then Inr w else Inl ''must be positive value'')"
    by (simp add: json_number_Unmarshal_def ConvertUnmarshalledInt_def p neg, simp add: u64_of_int_def int64_of_def)
qed

section \<open>A key in a file\<close>

text \<open>
  The files, and the errors of the system: of \<open>Stat\<close> (other than a missing file), of a read, and of
  a write together with what it leaves in the file.
\<close>

record file_system =
  fs_files :: "string \<rightharpoonup> byte list"
  fs_stat_err :: "string \<Rightarrow> string option"
  fs_read_err :: "string \<Rightarrow> string option"
  fs_write_err :: "string \<Rightarrow> (string \<times> byte list option) option"

definition encode_key :: "byte list \<Rightarrow> byte list" where
  "encode_key keyBuff = ascii_bytes (hex_encode keyBuff)"

definition CreateIfNotExists :: "string \<Rightarrow> byte list res \<Rightarrow> file_system \<Rightarrow> byte list res \<times> file_system" where
  "CreateIfNotExists path create fs =
     (case fs_stat_err fs path of
        Some err \<Rightarrow> (Inl (''failed to stat ('' @ path @ ''): '' @ err), fs)
      | None \<Rightarrow>
          (case fs_files fs path of
             Some keyBuff \<Rightarrow>
               (case fs_read_err fs path of
                  Some err \<Rightarrow> (Inl (''unable to read private key from disk ('' @ path @ ''), '' @ err), fs)
                | None \<Rightarrow> (Inr keyBuff, fs))
           | None \<Rightarrow>
               (case create of
                  Inl err \<Rightarrow> (Inl (''unable to generate private key, '' @ err), fs)
                | Inr keyBuff \<Rightarrow>
                    (case fs_write_err fs path of
                       Some (err, left) \<Rightarrow> (Inl (''unable to write private key to disk ('' @ path @ ''), '' @ err),
                         fs\<lparr>fs_files := (fs_files fs)(path := left)\<rparr>)
                     | None \<Rightarrow> (Inr (encode_key keyBuff), fs\<lparr>fs_files := (fs_files fs)(path \<mapsto> encode_key keyBuff)\<rparr>)))))"

definition CreatePrivateKey :: "byte list res \<Rightarrow> byte list res" where
  "CreatePrivateKey create =
     (case create of
        Inl err \<Rightarrow> Inl (''unable to generate private key, '' @ err)
      | Inr keyBuff \<Rightarrow> Inr (encode_key keyBuff))"

lemma char_of_byte: "char_of (unat (of_nat (of_char c) :: byte)) = c"
proof -
  have "unat (of_nat (of_char c) :: byte) = (of_char c :: nat)" by (simp add: unat_of_nat)
  then show ?thesis by simp
qed

text \<open>
  A key that was created is what every later call answers, with whatever function it could
  create another, and the file stays as it is; the text in the file is the hexadecimal form of the
  key (the comment says Base64) and reads back to it.
\<close>

theorem key_is_kept:
  assumes "CreateIfNotExists path (Inr key) fs = (Inr buf, fs1)" and "fs_files fs path = None"
    and "fs_stat_err fs path = None" and "fs_read_err fs path = None"
  shows "CreateIfNotExists path create' fs1 = (Inr buf, fs1) \<and> CreatePrivateKey (Inr key) = Inr buf
    \<and> hex_decode (map (char_of \<circ> unat) buf) = (key, None)"
proof -
  have b: "buf = encode_key key" "fs1 = fs\<lparr>fs_files := (fs_files fs)(path \<mapsto> encode_key key)\<rparr>"
    using assms by (auto simp: CreateIfNotExists_def split: option.splits)
  have "map (char_of \<circ> unat) buf = hex_encode key"
    unfolding b encode_key_def ascii_bytes_def by (simp add: o_def char_of_byte map_idI)
  then show ?thesis using b assms(3,4) by (simp add: CreateIfNotExists_def CreatePrivateKey_def)
qed

end
