(* ===== verification/Data_Dirs.thy ===== *)
theory Data_Dirs
  imports Go_Strings
begin

text \<open>
  The directories of \<open>helper/common/common.go\<close> over a file system of the operating system: files and
  directories under absolute paths, and directories that may not be entered. A path is the list
  of its parts, as \<open>filepath\<close> cleans it.
\<close>

section \<open>Paths and files\<close>

type_synonym path = "string list"

definition clean_parts :: "string list \<Rightarrow> path" where
  "clean_parts xs = fold (\<lambda>x acc. if x = [] \<or> x = ''.'' then acc else if x = ''..'' then butlast acc else acc @ [x]) xs []"

datatype entry = Dir | File

datatype fs_error = NotADirectory | NotPermitted

datatype stat = Found entry | NotFound | StatFails fs_error

record fsys =
  fs_entries :: "path \<rightharpoonup> entry"
  fs_denied :: "path \<Rightarrow> bool"
  fs_cwd :: path
  fs_getwd :: bool

definition abs_path :: "fsys \<Rightarrow> string \<Rightarrow> path" where
  "abs_path F s = (if has_prefix s ''/'' then clean_parts (split s ''/'') else clean_parts (fs_cwd F @ split s ''/''))"

text \<open>\<open>filepath.Join\<close> leaves out an empty part; \<open>abs_path\<close> cleans the rest.\<close>

definition path_Join :: "string \<Rightarrow> string \<Rightarrow> string" where
  "path_Join a b = (if a = [] then b else if b = [] then a else a @ ''/'' @ b)"

text \<open>\<open>filepath.Abs\<close> fails for a relative path when the working directory is not known.\<close>

definition path_Abs :: "fsys \<Rightarrow> string \<Rightarrow> path option" where
  "path_Abs F s = (if \<not> has_prefix s ''/'' \<and> \<not> fs_getwd F then None else Some (abs_path F s))"

text \<open>\<open>os.Stat\<close> goes through the directories above.\<close>

fun stat_walk :: "fsys \<Rightarrow> path \<Rightarrow> path \<Rightarrow> stat" where
  "stat_walk F pre [] = (case fs_entries F pre of Some e \<Rightarrow> Found e | None \<Rightarrow> NotFound)"
| "stat_walk F pre (x # xs) =
     (case fs_entries F pre of
        None \<Rightarrow> NotFound
      | Some File \<Rightarrow> StatFails NotADirectory
      | Some Dir \<Rightarrow> if fs_denied F pre then StatFails NotPermitted else stat_walk F (pre @ [x]) xs)"

definition os_Stat :: "fsys \<Rightarrow> path \<Rightarrow> stat" where
  "os_Stat F p = stat_walk F [] p"

text \<open>\<open>os.MkdirAll\<close> makes what is missing on the way.\<close>

fun mkdir_walk :: "path \<Rightarrow> path \<Rightarrow> fsys \<Rightarrow> fs_error option \<times> fsys" where
  "mkdir_walk pre [] F = (None, F)"
| "mkdir_walk pre (x # xs) F =
     (if fs_denied F pre then (Some NotPermitted, F)
      else case fs_entries F (pre @ [x]) of
          Some File \<Rightarrow> (Some NotADirectory, F)
        | Some Dir \<Rightarrow> mkdir_walk (pre @ [x]) xs F
        | None \<Rightarrow> mkdir_walk (pre @ [x]) xs (F\<lparr>fs_entries := (fs_entries F)(pre @ [x] \<mapsto> Dir)\<rparr>))"

definition os_MkdirAll :: "path \<Rightarrow> fsys \<Rightarrow> fs_error option \<times> fsys" where
  "os_MkdirAll p F = mkdir_walk [] p F"

section \<open>The functions\<close>

definition createDir :: "string \<Rightarrow> fsys \<Rightarrow> fs_error option \<times> fsys" where
  "createDir path F =
     (case os_Stat F (abs_path F path) of
        StatFails err \<Rightarrow> (Some err, F)
      | NotFound \<Rightarrow> os_MkdirAll (abs_path F path) F
      | Found e \<Rightarrow> (None, F))"

datatype dir_error = DataDirFailed string fs_error | PathFailed string fs_error

fun create_paths :: "string \<Rightarrow> string list \<Rightarrow> fsys \<Rightarrow> dir_error option \<times> fsys" where
  "create_paths dataDir [] F = (None, F)"
| "create_paths dataDir (p # ps) F =
     (case createDir (path_Join dataDir p) F of
        (Some err, F') \<Rightarrow> (Some (PathFailed (path_Join dataDir p) err), F')
      | (None, F') \<Rightarrow> create_paths dataDir ps F')"

definition SetupDataDir :: "string \<Rightarrow> string list \<Rightarrow> fsys \<Rightarrow> dir_error option \<times> fsys" where
  "SetupDataDir dataDir paths F =
     (case createDir dataDir F of
        (Some err, F') \<Rightarrow> (Some (DataDirFailed dataDir err), F')
      | (None, F') \<Rightarrow> create_paths dataDir paths F')"

definition DirectoryExists :: "fsys \<Rightarrow> string \<Rightarrow> bool" where
  "DirectoryExists F directoryPath =
     (case path_Abs F directoryPath of
        None \<Rightarrow> False
      | Some p \<Rightarrow> (case os_Stat F p of NotFound \<Rightarrow> False | Found File \<Rightarrow> False | Found Dir \<Rightarrow> True | StatFails err \<Rightarrow> True))"

section \<open>What is made\<close>

text \<open>One file system has grown out of another by directories.\<close>

definition grown :: "fsys \<Rightarrow> fsys \<Rightarrow> bool" where
  "grown F G = ((\<forall>p. fs_entries G p = fs_entries F p \<or> fs_entries F p = None \<and> fs_entries G p = Some Dir) \<and>
     fs_denied G = fs_denied F \<and> fs_cwd G = fs_cwd F \<and> fs_getwd G = fs_getwd F)"

lemma grown_refl [simp]: "grown F F"
  by (simp add: grown_def)

lemma grown_trans: "grown F G \<Longrightarrow> grown G H \<Longrightarrow> grown F H"
  unfolding grown_def by metis

lemma grown_entry: "grown F G \<Longrightarrow> fs_entries F p = Some e \<Longrightarrow> fs_entries G p = Some e"
  unfolding grown_def by (metis option.distinct(1))

lemma grown_add: "fs_entries F p = None \<Longrightarrow> grown F (F\<lparr>fs_entries := (fs_entries F)(p \<mapsto> Dir)\<rparr>)"
  by (auto simp: grown_def)

lemma grown_abs: "grown F G \<Longrightarrow> abs_path G s = abs_path F s"
  by (simp add: grown_def abs_path_def)

lemma grown_found: "grown F G \<Longrightarrow> stat_walk F pre xs = Found e \<Longrightarrow> stat_walk G pre xs = Found e"
proof (induction F pre xs rule: stat_walk.induct)
  case (1 F pre)
  then show ?case by (auto split: option.splits dest: grown_entry)
next
  case (2 F pre x xs)
  then have e: "fs_entries F pre = Some Dir" "\<not> fs_denied F pre" "stat_walk F (pre @ [x]) xs = Found e"
    by (auto split: option.splits entry.splits if_splits)
  then have "fs_entries G pre = Some Dir" "\<not> fs_denied G pre"
    using grown_entry [OF 2(2)] 2(2) by (simp_all add: grown_def)
  then show ?case using "2.IH" [OF e(1) refl e(2) 2(2) e(3)] by simp
qed

lemma mkdir_grows: "mkdir_walk pre xs F = (r, G) \<Longrightarrow> grown F G"
proof (induction pre xs F rule: mkdir_walk.induct)
  case (2 pre x xs F)
  show ?case
  proof (cases "fs_denied F pre")
    case False
    show ?thesis
    proof (cases "fs_entries F (pre @ [x])")
      case None
      then show ?thesis using 2 False grown_add [OF None] grown_trans by simp
    next
      case (Some e)
      then show ?thesis using 2 False by (cases e) simp_all
    qed
  qed (use 2 in simp)
qed simp

lemma mkdir_made:
  "mkdir_walk pre xs F = (None, G) \<Longrightarrow> fs_entries F pre = Some Dir \<Longrightarrow> stat_walk G pre xs = Found Dir"
proof (induction pre xs F rule: mkdir_walk.induct)
  case (2 pre x xs F)
  have d: "\<not> fs_denied F pre" using 2(3) by (auto split: if_splits)
  have g: "grown F G" by (rule mkdir_grows [OF 2(3)])
  then have G: "fs_entries G pre = Some Dir" "\<not> fs_denied G pre"
    using grown_entry [OF g 2(4)] d g by (simp_all add: grown_def)
  have "stat_walk G (pre @ [x]) xs = Found Dir"
  proof (cases "fs_entries F (pre @ [x])")
    case None
    then show ?thesis using "2.IH"(1) [OF d None] 2(3) d by simp
  next
    case (Some e)
    then show ?thesis using "2.IH"(2) [OF d Some] 2(3) d by (cases e) simp_all
  qed
  then show ?case using G by simp
qed simp

lemma createDir_done:
  assumes "createDir p F = (r, G)" and "fs_entries F [] = Some Dir"
  shows "grown F G" "r = None \<Longrightarrow> \<exists>e. os_Stat G (abs_path F p) = Found e"
  using assms mkdir_grows [of "[]" "abs_path F p" F r G] mkdir_made [of "[]" "abs_path F p" F G]
  by (auto simp: createDir_def os_MkdirAll_def os_Stat_def split: stat.splits)

lemma grown_root: "grown F G \<Longrightarrow> fs_entries F [] = Some Dir \<Longrightarrow> fs_entries G [] = Some Dir"
  by (rule grown_entry)

lemma createDir_again: "os_Stat F (abs_path F p) = Found e \<Longrightarrow> createDir p F = (None, F)"
  by (simp add: createDir_def)

lemma create_paths_done:
  "create_paths d ps F = (r, G) \<Longrightarrow> fs_entries F [] = Some Dir \<Longrightarrow>
   grown F G \<and> (r = None \<longrightarrow> (\<forall>p \<in> set ps. \<exists>e. os_Stat G (abs_path F (path_Join d p)) = Found e))"
proof (induction ps arbitrary: F)
  case (Cons p ps)
  obtain r1 F1 where c: "createDir (path_Join d p) F = (r1, F1)" by fastforce
  note C = createDir_done [OF c Cons.prems(2)]
  show ?case
  proof (cases r1)
    case None
    then have p: "create_paths d ps F1 = (r, G)" using Cons.prems(1) c by simp
    note IH = Cons.IH [OF p grown_root [OF C(1) Cons.prems(2)]]
    obtain e where "os_Stat F1 (abs_path F (path_Join d p)) = Found e" using C(2) None by blast
    then have "os_Stat G (abs_path F (path_Join d p)) = Found e"
      using grown_found IH unfolding os_Stat_def by blast
    then show ?thesis using IH grown_trans [OF C(1)] grown_abs [OF C(1)] by auto
  next
    case (Some err)
    then show ?thesis using Cons.prems(1) c C(1) by auto
  qed
qed simp

lemma create_paths_again:
  "\<forall>p \<in> set ps. \<exists>e. os_Stat F (abs_path F (path_Join d p)) = Found e \<Longrightarrow> create_paths d ps F = (None, F)"
  by (induction ps) (auto simp: createDir_again)

text \<open>
  Setting up a data directory only ever adds directories: nothing that was there is removed
  or replaced, also when it fails. When it succeeds, something is found under the path of the
  directory and of each of the paths in it, and doing it again succeeds and changes nothing.
\<close>

theorem data_dir_set_up:
  assumes "SetupDataDir d ps F = (r, G)" and "fs_entries F [] = Some Dir"
  shows "grown F G \<and> (r = None \<longrightarrow>
    (\<exists>e. os_Stat G (abs_path G d) = Found e) \<and> (\<forall>p \<in> set ps. \<exists>e. os_Stat G (abs_path G (path_Join d p)) = Found e) \<and>
    SetupDataDir d ps G = (None, G))"
proof -
  obtain r1 F1 where c: "createDir d F = (r1, F1)" by fastforce
  note C = createDir_done [OF c assms(2)]
  show ?thesis
  proof (cases r1)
    case None
    then have p: "create_paths d ps F1 = (r, G)" using assms(1) c by (simp add: SetupDataDir_def)
    note P = create_paths_done [OF p grown_root [OF C(1) assms(2)]]
    have g: "grown F G" using P grown_trans [OF C(1)] by blast
    obtain e where "os_Stat F1 (abs_path F d) = Found e" using C(2) None by blast
    then have e: "os_Stat G (abs_path G d) = Found e"
      using grown_found P grown_abs [OF g] unfolding os_Stat_def by metis
    have ps: "\<forall>p \<in> set ps. \<exists>e. os_Stat G (abs_path G (path_Join d p)) = Found e" if "r = None"
      using P that grown_abs [OF g] grown_abs [OF C(1)] by auto
    show ?thesis using g e ps create_paths_again [of ps G d] createDir_again [OF e] by (auto simp: SetupDataDir_def)
  next
    case (Some err)
    then show ?thesis using assms(1) c C(1) by (auto simp: SetupDataDir_def)
  qed
qed

text \<open>
  What is found need not be a directory: a plain file under the name is taken for the
  directory, the setup of it succeeds and changes nothing, although no directory exists there.
  And \<open>DirectoryExists\<close> answers yes whenever the question fails for another reason than that
  nothing is there: below a plain file, or where the way may not be entered.
\<close>

theorem file_taken_for_directory:
  assumes "os_Stat F (abs_path F d) = Found File"
  shows "SetupDataDir d [] F = (None, F) \<and> \<not> DirectoryExists F d \<and>
    (fs_getwd F \<and> os_Stat F (abs_path F p) = StatFails err \<longrightarrow> DirectoryExists F p)"
  using assms createDir_again [OF assms]
  by (simp add: SetupDataDir_def DirectoryExists_def path_Abs_def)

definition sample_fs :: fsys where
  "sample_fs = \<lparr>fs_entries = [[] \<mapsto> Dir, [''data''] \<mapsto> File], fs_denied = (\<lambda>p. False), fs_cwd = [], fs_getwd = True\<rparr>"

lemma sample_paths:
  "abs_path sample_fs ''data'' = [''data'']" "abs_path sample_fs ''data/x'' = [''data'', ''x'']"
  "abs_path sample_fs ''/srv'' = [''srv'']"
  by code_simp+

theorem file_taken_for_directory_witness:
  "SetupDataDir ''data'' [] sample_fs = (None, sample_fs) \<and> \<not> DirectoryExists sample_fs ''data'' \<and>
   DirectoryExists sample_fs ''data/x''"
proof -
  have "os_Stat sample_fs (abs_path sample_fs ''data'') = Found File"
    "os_Stat sample_fs (abs_path sample_fs ''data/x'') = StatFails NotADirectory"
    by (simp_all add: sample_paths os_Stat_def) (simp_all add: sample_fs_def)
  moreover have "fs_getwd sample_fs" by (simp add: sample_fs_def)
  ultimately show ?thesis using file_taken_for_directory by blast
qed

theorem data_dir_set_up_witness:
  "\<exists>G. SetupDataDir ''/srv'' [] sample_fs = (None, G) \<and> SetupDataDir ''/srv'' [] G = (None, G)"
proof -
  have "os_Stat sample_fs [''srv''] = NotFound" by (simp add: os_Stat_def sample_fs_def)
  then obtain G where G: "SetupDataDir ''/srv'' [] sample_fs = (None, G)"
    by (simp add: SetupDataDir_def createDir_def sample_paths os_MkdirAll_def) (simp add: sample_fs_def)
  have "fs_entries sample_fs [] = Some Dir" by (simp add: sample_fs_def)
  then show ?thesis using data_dir_set_up [OF G] G by blast
qed

end
