(* ===== verification/Progress.thy ===== *)
theory Progress
  imports Go_Channel
begin

text \<open>
  \<open>helper/progress/chain.go\<close>: the progression of a batch sync, shared by the caller and the update
  loops. Stopping takes two steps: the signal is handed to one running loop, which returns, and
  then the progression is cleared. The events come from a package that is not in the repository;
  what the loop uses of an event, whether it is a fork and the numbers of its new chain, is an argument.
\<close>

section \<open>The operations\<close>

record progression =
  pg_SyncType :: string
  pg_StartingBlock :: u64
  pg_CurrentBlock :: u64
  pg_HighestBlock :: u64

record wrapper =
  pw_progression :: "progression option"
  pw_syncType :: string
  pw_loops :: nat
  pw_stopping :: bool

definition NewProgressionWrapper :: "string \<Rightarrow> wrapper" where
  "NewProgressionWrapper syncType =
     \<lparr>pw_progression = None, pw_syncType = syncType, pw_loops = 0, pw_stopping = False\<rparr>"

definition StartProgression :: "u64 \<Rightarrow> wrapper \<Rightarrow> wrapper" where
  "StartProgression startingBlock pw =
     pw\<lparr>pw_progression := Some \<lparr>pg_SyncType = pw_syncType pw, pg_StartingBlock = startingBlock,
          pg_CurrentBlock = 0, pg_HighestBlock = 0\<rparr>, pw_loops := Suc (pw_loops pw)\<rparr>"

definition UpdateCurrentProgression :: "u64 \<Rightarrow> wrapper \<Rightarrow> wrapper go_step" where
  "UpdateCurrentProgression currentBlock pw =
     (case pw_progression pw of
        None \<Rightarrow> Panics
      | Some p \<Rightarrow> Goes (pw\<lparr>pw_progression := Some (p\<lparr>pg_CurrentBlock := currentBlock\<rparr>)\<rparr>))"

definition UpdateHighestProgression :: "u64 \<Rightarrow> wrapper \<Rightarrow> wrapper go_step" where
  "UpdateHighestProgression highestBlock pw =
     (case pw_progression pw of
        None \<Rightarrow> Panics
      | Some p \<Rightarrow> Goes (pw\<lparr>pw_progression := Some (p\<lparr>pg_HighestBlock := highestBlock\<rparr>)\<rparr>))"

definition GetProgression :: "wrapper \<Rightarrow> progression option" where
  "GetProgression pw = pw_progression pw"

text \<open>One event in the update loop.\<close>

definition loop_event :: "bool \<Rightarrow> u64 list \<Rightarrow> wrapper \<Rightarrow> wrapper go_step" where
  "loop_event fork newChain pw =
     (if fork then Goes pw
      else if length newChain = 0 then Goes pw
      else UpdateCurrentProgression (newChain ! (length newChain - 1)) pw)"

text \<open>The two steps of \<open>StopProgression\<close>; the first waits for a loop that receives.\<close>

definition stop_signal :: "wrapper \<Rightarrow> wrapper go_step" where
  "stop_signal pw =
     (if pw_loops pw = 0 then Blocks else Goes (pw\<lparr>pw_loops := pw_loops pw - 1, pw_stopping := True\<rparr>))"

definition stop_clear :: "wrapper \<Rightarrow> wrapper" where
  "stop_clear pw = pw\<lparr>pw_progression := None, pw_stopping := False\<rparr>"

section \<open>One caller\<close>

text \<open>
  A caller that starts a batch only when none is in progress, and lets a stop finish before
  its next call; the running loops take events at any time.
\<close>

inductive batch_reach :: "wrapper \<Rightarrow> bool" where
  new: "batch_reach (NewProgressionWrapper syncType)"
| start: "batch_reach pw \<Longrightarrow> GetProgression pw = None \<Longrightarrow> \<not> pw_stopping pw \<Longrightarrow> batch_reach (StartProgression b pw)"
| event: "batch_reach pw \<Longrightarrow> 0 < pw_loops pw \<Longrightarrow> loop_event fork chain pw = Goes pw' \<Longrightarrow> batch_reach pw'"
| highest: "batch_reach pw \<Longrightarrow> \<not> pw_stopping pw \<Longrightarrow> UpdateHighestProgression b pw = Goes pw' \<Longrightarrow> batch_reach pw'"
| signal: "batch_reach pw \<Longrightarrow> \<not> pw_stopping pw \<Longrightarrow> stop_signal pw = Goes pw' \<Longrightarrow> batch_reach pw'"
| clear: "batch_reach pw \<Longrightarrow> pw_stopping pw \<Longrightarrow> batch_reach (stop_clear pw)"

definition batch_inv :: "wrapper \<Rightarrow> bool" where
  "batch_inv pw = (pw_loops pw = (if pw_progression pw = None \<or> pw_stopping pw then 0 else 1) \<and>
     (pw_stopping pw \<longrightarrow> pw_progression pw \<noteq> None))"

lemma batch_reach_inv: "batch_reach pw \<Longrightarrow> batch_inv pw"
proof (induction rule: batch_reach.induct)
  case (event pw fork chain pw')
  then show ?case
    by (auto simp: batch_inv_def loop_event_def UpdateCurrentProgression_def split: if_splits option.splits)
next
  case (highest pw b pw')
  then show ?case
    by (auto simp: batch_inv_def UpdateHighestProgression_def split: if_splits option.splits)
qed (auto simp: batch_inv_def NewProgressionWrapper_def StartProgression_def GetProgression_def stop_signal_def
      stop_clear_def split: if_splits)

text \<open>
  With such a caller one update loop runs exactly while a batch is in progress and not being
  stopped: no event it takes panics, an event that is no fork moves the current block to the last
  block of its chain, and stopping a batch in progress does not block.
\<close>

theorem batch_updates_are_safe:
  assumes "batch_reach pw"
  shows "pw_loops pw = (if GetProgression pw = None \<or> pw_stopping pw then 0 else 1) \<and>
    (0 < pw_loops pw \<longrightarrow> (\<exists>pw'. loop_event fork chain pw = Goes pw' \<and>
        (\<not> fork \<and> chain \<noteq> [] \<longrightarrow> map_option pg_CurrentBlock (GetProgression pw') = Some (last chain)))) \<and>
    (GetProgression pw \<noteq> None \<and> \<not> pw_stopping pw \<longrightarrow> stop_signal pw \<noteq> Blocks)"
proof -
  have i: "batch_inv pw" by (rule batch_reach_inv [OF assms])
  have "\<exists>pw'. loop_event fork chain pw = Goes pw' \<and>
      (\<not> fork \<and> chain \<noteq> [] \<longrightarrow> map_option pg_CurrentBlock (GetProgression pw') = Some (last chain))" if l: "0 < pw_loops pw"
  proof -
    obtain p where "pw_progression pw = Some p" using i l by (cases "pw_progression pw") (auto simp: batch_inv_def)
    then show ?thesis
      by (auto simp: loop_event_def UpdateCurrentProgression_def GetProgression_def last_conv_nth)
  qed
  then show ?thesis using i by (auto simp: batch_inv_def GetProgression_def stop_signal_def)
qed

theorem batch_updates_are_safe_witness:
  "\<exists>pw'. loop_event False [7, 8] (StartProgression 5 (NewProgressionWrapper ''bulk-sync'')) = Goes pw' \<and>
    map_option pg_CurrentBlock (GetProgression pw') = Some 8"
proof -
  have "batch_reach (StartProgression 5 (NewProgressionWrapper ''bulk-sync''))"
    by (intro batch_reach.intros) (simp_all add: NewProgressionWrapper_def GetProgression_def)
  from batch_updates_are_safe [OF this, of False "[7, 8]"] show ?thesis
    by (simp add: StartProgression_def NewProgressionWrapper_def)
qed

text \<open>
  Without that discipline it fails: after a second start one stop leaves a loop running with no
  progression, and its next event panics, as does a highest block before any start.
\<close>

theorem second_start_panics:
  "case stop_signal (StartProgression b (StartProgression a (NewProgressionWrapper syncType))) of
     Goes pw \<Rightarrow> pw_loops (stop_clear pw) = 1 \<and> loop_event False (c # cs) (stop_clear pw) = Panics
   | _ \<Rightarrow> False"
  by (simp add: stop_signal_def StartProgression_def NewProgressionWrapper_def stop_clear_def loop_event_def
      UpdateCurrentProgression_def)

end
