(* ===== verification/Signatures.thy ===== *)
theory Signatures
  imports Eth_Utils Go_Channel
begin

text \<open>
  \<open>VerifySignature\<close> of \<open>pkg/grpc/server.go\<close>. The cryptography of go-ethereum is a record of
  functions; \<open>crypto_ok\<close> states what they promise each other. Nothing calls the function yet.
\<close>

record eth_crypto =
  ec_Decode :: "string \<Rightarrow> byte list res"
  ec_TextHash :: "byte list \<Rightarrow> byte list"
  ec_Sign :: "byte list \<Rightarrow> byte list \<Rightarrow> byte list"
  ec_SigToPub :: "byte list \<Rightarrow> byte list \<Rightarrow> byte list res"
  ec_PublicKey :: "byte list \<Rightarrow> byte list"
  ec_PubkeyToAddress :: "byte list \<Rightarrow> byte list"

text \<open>
  \<open>0x\<close> and hexadecimal digits decode to their bytes. A signature has 65 bytes, the last one 0 or
  1, and gives back the signer's public key; with any other last byte than 0 to 3 no key.
\<close>

definition crypto_ok :: "eth_crypto \<Rightarrow> bool" where
  "crypto_ok X =
     ((\<forall>b. ec_Decode X (''0x'' @ hex_encode b) = Inr b) \<and>
      (\<forall>key h. length (ec_Sign X key h) = 65 \<and> ec_Sign X key h ! 64 \<in> {0, 1} \<and>
         ec_SigToPub X h (ec_Sign X key h) = Inr (ec_PublicKey X key)) \<and>
      (\<forall>h s. length s = 65 \<longrightarrow> 3 < s ! 64 \<longrightarrow> \<not> is_ok (ec_SigToPub X h s)))"

definition RecoveryIDOffset :: nat where
  "RecoveryIDOffset = 64"

text \<open>The bytes of a message, and the update of one byte that the signature may not have.\<close>

definition VerifySignature :: "eth_crypto \<Rightarrow> geth \<Rightarrow> string \<Rightarrow> string \<Rightarrow> string \<Rightarrow> bool go_step" where
  "VerifySignature X G fromAddress message signatureHex =
     (case ec_Decode X signatureHex of
        Inl err \<Rightarrow> Goes False
      | Inr signature \<Rightarrow>
          if \<not> RecoveryIDOffset < length signature then Panics
          else let signature' = signature[RecoveryIDOffset := signature ! RecoveryIDOffset - 27];
                   messageHash = ec_TextHash X (ascii_bytes message)
            in case ec_SigToPub X messageHash signature' of
                 Inl err \<Rightarrow> Goes False
               | Inr pubKey \<Rightarrow> Goes (g_HexToAddress G fromAddress = ec_PubkeyToAddress X pubKey))"

text \<open>The signature as wallets send it: 27 added to the last byte.\<close>

definition wallet_signature :: "eth_crypto \<Rightarrow> byte list \<Rightarrow> string \<Rightarrow> byte list" where
  "wallet_signature X key message =
     (let s = ec_Sign X key (ec_TextHash X (ascii_bytes message)) in s[64 := s ! 64 + 27])"

text \<open>
  A wallet's signature is accepted for the signer's address and no other. The same signature
  without the 27 is refused: the subtraction wraps around. A text that decodes to 64 bytes or fewer
  makes the function panic instead of refusing.
\<close>

theorem signature_verification:
  assumes "crypto_ok X"
  shows "VerifySignature X G from message (''0x'' @ hex_encode (wallet_signature X key message)) =
      Goes (g_HexToAddress G from = ec_PubkeyToAddress X (ec_PublicKey X key))
    \<and> VerifySignature X G from message (''0x'' @ hex_encode (ec_Sign X key (ec_TextHash X (ascii_bytes message)))) = Goes False
    \<and> (length b \<le> 64 \<longrightarrow> VerifySignature X G from message (''0x'' @ hex_encode b) = Panics)"
proof -
  let ?h = "ec_TextHash X (ascii_bytes message)"
  let ?s = "ec_Sign X key ?h"
  have D: "ec_Decode X (''0x'' @ hex_encode b) = Inr b" for b using assms by (simp add: crypto_ok_def)
  have S: "length ?s = 65" "?s ! 64 \<in> {0, 1}" "ec_SigToPub X ?h ?s = Inr (ec_PublicKey X key)"
    using assms by (auto simp: crypto_ok_def)
  have w: "(wallet_signature X key message)[64 := wallet_signature X key message ! 64 - 27] = ?s"
    "length (wallet_signature X key message) = 65"
    using S(1) by (simp_all add: wallet_signature_def Let_def)
  have "(3 :: byte) < ?s ! 64 - 27" using S(2) by auto
  then have "\<not> is_ok (ec_SigToPub X ?h (?s[64 := ?s ! 64 - 27]))"
    using assms S(1) unfolding crypto_ok_def by (metis length_list_update nth_list_update_eq eval_nat_numeral(3) lessI)
  then obtain err where e: "ec_SigToPub X ?h (?s[64 := ?s ! 64 - 27]) = Inl err"
    by (cases "ec_SigToPub X ?h (?s[64 := ?s ! 64 - 27])") auto
  have "VerifySignature X G from message (''0x'' @ hex_encode (wallet_signature X key message)) =
      Goes (g_HexToAddress G from = ec_PubkeyToAddress X (ec_PublicKey X key))"
    unfolding VerifySignature_def D RecoveryIDOffset_def Let_def sum.case w using S by simp
  moreover have "VerifySignature X G from message (''0x'' @ hex_encode ?s) = Goes False"
    unfolding VerifySignature_def D RecoveryIDOffset_def Let_def sum.case using S(1) e by simp
  moreover have "length b \<le> 64 \<longrightarrow> VerifySignature X G from message (''0x'' @ hex_encode b) = Panics"
    unfolding VerifySignature_def D RecoveryIDOffset_def sum.case by simp
  ultimately show ?thesis by blast
qed

definition sample_crypto :: eth_crypto where
  "sample_crypto = \<lparr>ec_Decode = (\<lambda>s. case hex_decode (drop 2 s) of (b, None) \<Rightarrow> Inr b | (b, Some e) \<Rightarrow> Inl ''bad hex''),
     ec_TextHash = (\<lambda>b. b), ec_Sign = (\<lambda>key h. replicate 64 9 @ [1]),
     ec_SigToPub = (\<lambda>h s. if length s = 65 \<and> s ! 64 \<le> 3 then Inr [7] else Inl ''bad signature''),
     ec_PublicKey = (\<lambda>key. [7]), ec_PubkeyToAddress = BytesToAddress\<rparr>"

lemma sample_crypto_ok: "crypto_ok sample_crypto"
  by (auto simp: crypto_ok_def sample_crypto_def nth_append dest: leD)

theorem signature_verification_witness:
  "VerifySignature sample_crypto sample_geth (hex_EncodeToHex [8]) ''m'' (''0x'' @ hex_encode (wallet_signature sample_crypto [] ''m'')) =
     Goes (g_HexToAddress sample_geth (hex_EncodeToHex [8]) = BytesToAddress [7])
   \<and> VerifySignature sample_crypto sample_geth (hex_EncodeToHex [8]) ''m'' (''0x'' @ hex_encode [1]) = Panics"
  using signature_verification [OF sample_crypto_ok, of sample_geth "hex_EncodeToHex [8]" "''m''" "[]" "[1]"]
  by (simp add: sample_crypto_def del: hex_encode_Cons)

end
