(* ===== verification/Spec2Isabelle.thy ===== *)
theory Spec2Isabelle
  imports Session Serve Poller Routes Monitor_Life Monitor_Loops Subscription Stream_Delivery Work_Queue Helpers Data_Dirs
    Progress Signatures
begin

text \<open>
  A verification of event-pool, a Go service that watches events of smart contracts on EVM chains,
  stores their logs in a database, and hands them to clients over HTTP, gRPC streams and Redis.

  \<^bold>\<open>How the parts work together.\<close> A contract's events are registered over HTTP
  (\<open>internal/api/contract.go\<close>), which writes one row per event and enqueues a backfill task for each.
  The worker (\<open>internal/worker/worker.go\<close>) takes a task, registers the contract with the monitor and
  runs a listener (\<open>internal/listener/listener.go\<close>) that walks over the past blocks in chunks, and
  shows where it is in a map of statuses. The monitor (\<open>internal/monitor/monitor.go\<close>) runs one
  goroutine per contract that polls the new blocks in batches. Both fetch through the chain's client
  (\<open>pkg/ethereum/client.go\<close>), which decodes each log (\<open>event_decoder.go\<close>), publishes it through the
  producer (\<open>pkg/eventproducer\<close>) and stores it once. The monitor also broadcasts each log to the
  streams that subscribed to it (\<open>pkg/grpc/server.go\<close>); when a client leaves unexpectedly, its session
  receipt is scheduled (\<open>pkg/grpc/session.go\<close>). Tokens (\<open>internal/jwt\<close>), two interceptors and the
  HTTP middleware guard the ways in; the queries and the status read what was stored.

  \<^bold>\<open>The theories.\<close>
  \<^item> \<open>Go_Prelude\<close>, \<open>Go_Strings\<close>, \<open>Go_Strconv\<close>, \<open>Go_Slice\<close>, \<open>Go_Channel\<close>, \<open>Go_Heap\<close>, \<open>Go_Json\<close>: what the code uses
    of the language and its library: 64-bit integers as words, results as sums, strings and their
    functions, numbers printed and parsed, slices over shared arrays, channels with \<open>Goes\<close>,
    \<open>Blocks\<close> and \<open>Panics\<close> as the outcomes of a step, \<open>container/heap\<close>, JSON text. \<open>Contexts\<close>,
    \<open>Store\<close>, \<open>Gates\<close> and \<open>Block_Ranges\<close>: contexts as paths of cancellable ids, the database client
    as a record of queries, interceptors as gates (a locale, with their composition), and ranges
    that cover an interval once (a locale, interpreted on the batches and on the chunks).
  \<^item> \<open>Hex\<close> (\<open>helper/hex\<close>, \<open>types/encoding.go\<close>), \<open>Types\<close> (\<open>types/types.go\<close>, \<open>helper/keccak\<close>), \<open>Helpers\<close>
    (\<open>helper/common\<close>, \<open>helper/keystore\<close>), \<open>Progress\<close> (\<open>helper/progress\<close>): encodings and their round trips,
    the contract of an encoder and decoder as the locale \<open>codec\<close>, the hasher's pool, a batch sync.
  \<^item> \<open>Session\<close>: the heap of receipt jobs with its map of tokens, the turns of \<open>run\<close>, cancelling and
    rescheduling; refinement of one receipt per token, and when jobs are submitted.
  \<^item> \<open>Eth_Utils\<close>, \<open>Eth_Decoder\<close>, \<open>Eth_Client\<close>, \<open>Event_Producer\<close>: signatures, decoding, the processing of
    a log from the node to the database, and the producer's channel.
  \<^item> \<open>Subscribers\<close>, \<open>Streams\<close>, \<open>Stream_Delivery\<close>: the registry of streams as slices of channels;
    opening, cleaning up, broadcasting and disconnecting as steps that interleave; what a client
    receives of the broadcasts, and what is counted of it.
  \<^item> \<open>Monitor\<close>, \<open>Listener\<close>, \<open>Worker\<close>: the operations of a monitor, polling and backfilling, and the two
    goroutines of a backfill task as a step relation.
  \<^item> \<open>Jwt_Auth\<close>, \<open>Signatures\<close>, \<open>Http\<close>, \<open>Rate_Limit\<close>: tokens, interceptors, wallet signatures, responses
    and the middleware.
  \<^item> \<open>Contract_Api\<close>, \<open>Api_Queries\<close>, \<open>Status\<close>: registration, queries, token endpoint and status
    (\<open>internal/api\<close>, \<open>pkg/grpc/http_server.go\<close>, \<open>GetEvents\<close> of \<open>pkg/grpc/server.go\<close>). \<open>Routes\<close>: the table of
    routes, the middleware in front of each, and who can change what. \<open>Pipeline\<close>: from a
    registration through its backfill task to the query. \<open>Poller\<close>: the goroutine of a monitored
    contract over its life, from the node to the query and the streams. \<open>Work_Queue\<close>: the worker,
    what it registers with the task queue and what its handler answers, of its beginning and of
    its loop.
  \<^item> \<open>Interleaving\<close>, \<open>Registration_Races\<close>, \<open>Monitor_Loops\<close>: goroutines as schedules of turns, with the
    locale \<open>rely_guarantee\<close>; the critical sections of a registration, interleaved; the loops that
    \<open>Start\<close> leaves running. \<open>Monitor_Life\<close>: the life of a monitor in critical sections, when no two
    registrations of one contract are under way at once. \<open>Subscription\<close>: \<open>SubscribeToLogs\<close>, which nothing calls.
  \<^item> \<open>Config\<close>, \<open>Serve\<close> (\<open>internal/config\<close>, \<open>internal/db\<close>, \<open>cmd/serve.go\<close>): how the service comes up and goes
    down. \<open>Data_Dirs\<close>: the directories of \<open>helper/common\<close>.

  \<^bold>\<open>How state corresponds.\<close> A struct is a record with its fields in order, a \<open>sync.Map\<close> or map a
  function to options (an association list where the code ranges over it), a slice that is shared
  an array with a window on it. A function that can fail returns a sum, errors first; one that can
  block or panic returns a \<open>go_step\<close>. Goroutines are step relations or sequences of steps, and a
  critical section is one step. Some steps are coarser, and each says so where it is defined: the
  clean-up of a stream closes, cancels and schedules the receipt in the step of its critical
  section; a turn of a stream's loop receives, counts and sends; a tick of the poll does all its
  batches; the operations of \<open>Monitor\<close> have their sequential meaning, and \<open>Registration_Races\<close> takes
  them apart; \<open>backfill_loop\<close> sends without the channel's capacity, which \<open>task_step\<close> has; the client's
  \<open>Publish\<close> is taken as accepted, while \<open>producer_Publish\<close> waits and panics. The clock, the node's answers, Redis, the task queue and the
  decoded bodies of requests are arguments or fields of the state.

  \<^bold>\<open>Code outside the repository.\<close> go-ethereum, the JWT library, Prisma's queries and sha3 are
  parameters: \<open>geth_ok\<close>, \<open>jwt_ok\<close>, \<open>log_store_ok\<close>, \<open>contract_rows\<close>, \<open>api_tables\<close> and
  \<open>service_tables\<close> state what their documentation promises (the last three as locales, each
  extending the one before, interpreted on tables that are lists), and
  each is met by the concrete functions the witnesses use.

  \<^bold>\<open>Termination.\<close> The chunk loop has the distance to the end as its measure. \<open>poll_batches\<close> is a partial
  function, whose None is non-termination; \<open>poll_batches_terminate\<close> says when it ends. The heap
  operations recurse on an index within the list. No fuel is used: the steps of a backfill task
  are ordered by a lexicographic measure.

  \<^bold>\<open>What the lemmas show.\<close> Invariants of the registry, the scheduler and the monitor under all their
  operations; that polling and backfilling fetch each block once, with their exceptions; that a
  log is stored and published once when nothing fails, and is what the queries then answer, from
  the registration of a contract on (and for which contracts this does not hold); that broadcasts reach the subscribers; that both event queries are one; that
  no request passes the guards; what a start-up leaves when it fails; what goroutines do to each
  other, and when they cannot; how errors leave the state. Where the code does not do what it
  means to, a theorem states what it does.

  \<^bold>\<open>Not modelled.\<close> How the libraries behave by themselves, in particular the server of the task queue:
  on the signal that \<open>RunServe\<close> waits for it shuts itself down, and it delivers a task again whose
  context ended before its handler answered. The command tree (\<open>main.go\<close>, \<open>cmd/root.go\<close>), generated code, the websocket wrapper,
  test helpers; the unmarshalling of the configuration and of request bodies, which libraries do;
  logging, but for the text the code returns. The floating point of \<open>helper/common\<close>, and signals.
  \<open>helper/config\<close> reads types of a package that the repository does not have.
\<close>

section \<open>From the node to the query\<close>

text \<open>
  What the client has processed is what the API answers: when the logs of a query went through
  without an error, each of them is among the events that the gRPC query (and so the HTTP one)
  answers for the contract's chain and address, with its block, transaction and index, if
  the contract is the one found first and the page starts at the first row and has room; with
  the log's transaction as filter as well as without.
\<close>

theorem processed_logs_are_answered:
  assumes "api_tables (av_store E) (cl_store c)" and "log_store_ok (cl_store c)"
    and "contract_found c addr sig chain ct (cs_db st)"
    and "process_logs c addr sig chain logs st Map.empty = Goes (outs, st')" and "set outs \<subseteq> {Skipped, Stored}"
    and "l \<in> set logs" and "grpc_params g = (chain, tk, 0)" and "int (length (as_events (av_store E) (cs_db st'))) \<le> tk"
    and "as_FindFirst (av_store E) (contract_filters chain (ge_ContractAddress g)) (cs_db st') = Inr ct"
    and "ge_TxHash g = [] \<or> ge_TxHash g = g_HashHex (cl_geth c) (lg_TxHash l)"
    and "grpc_GetEvents E (cs_db st') g = Inr a"
  shows "\<exists>d \<in> set (gr_Data a). ed_BlockNumber d = int64_of (lg_BlockNumber l) \<and>
    ed_TxHash d = to_lower (g_HashHex (cl_geth c) (lg_TxHash l)) \<and> ed_LogIndex d = int32_wrap (int64_of (lg_Index l))"
proof -
  have "known_keys (cl_store c) (cs_db st') = known_keys (cl_store c) (cs_db st) \<union> log_key_of c ct ` set logs"
    using process_logs_good [OF assms(2,3) _ assms(4,5)] by (simp add: cache_ok_def)
  then have k: "log_key_of c ct l \<in> known_keys (cl_store c) (cs_db st')" using assms(6) by blast
  show ?thesis
    using known_is_answered [OF assms(1) k [unfolded log_key_of_def] _ assms(7,10,8,11)] assms(9) by simp
qed

theorem processed_logs_are_answered_witness:
  "\<exists>st' g a. process_logs sample_client (replicate 20 1) (replicate 32 7) 39
      [sample_log 0, sample_log 1, sample_log 0] sample_st Map.empty = Goes ([Stored, Stored, Skipped], st') \<and>
    grpc_GetEvents sample_env (cs_db st') g = Inr a \<and> (\<exists>d \<in> set (gr_Data a). ed_BlockNumber d = int64_of 5)"
proof -
  obtain st' where r: "process_logs sample_client (replicate 20 1) (replicate 32 7) 39
     [sample_log 0, sample_log 1, sample_log 0] sample_st Map.empty = Goes ([Stored, Stored, Skipped], st')"
    and db: "fst (cs_db st') = [sample_contract]"
    using sample_run by fastforce
  define n where "n = int (length (as_events table_api (cs_db st'))) + 1"
  define g where "g = \<lparr>ge_ChainId = 39, ge_ContractAddress = hex_EncodeToHex (replicate 20 1), ge_TxHash = [],
    ge_Take = n, ge_Skip = 0\<rparr>"
  have gp: "grpc_params g = (39, n, 0)" by (simp add: g_def grpc_params_def n_def)
  have c: "contract_found sample_client (replicate 20 1) (replicate 32 7) 39 sample_contract (cs_db st')"
    using process_logs_good [OF _ sample_found _ r] table_store_ok by (simp add: cache_ok_def sample_client_def)
  have f: "as_FindFirst table_api (contract_filters 39 (ge_ContractAddress g)) (cs_db st') = Inr sample_contract"
    using db lower_hex_EncodeToHex [of "replicate 20 1"]
    by (cases "cs_db st'") (simp add: g_def table_api_def first_row_def contract_filters_def matches_def sample_contract_def)
  obtain a where a: "grpc_GetEvents sample_env (cs_db st') g = Inr a"
    using f gp by (cases "cs_db st'") (auto simp: grpc_GetEvents_def grpc_rows_def g_def table_api_def hex_EncodeToHex_def)
  from processed_logs_are_answered [of sample_env sample_client _ _ _ sample_contract sample_st _ _ st' "sample_log 0" g n a,
      OF _ _ sample_found r _ _ gp _ _ _ a] f
  have "\<exists>d \<in> set (gr_Data a). ed_BlockNumber d = int64_of 5"
    using tables.api_tables_axioms table_store_ok by (auto simp: n_def g_def sample_keys)
  then show ?thesis using r a by blast
qed

section \<open>From the configuration to the routes\<close>

text \<open>The routes of a service: its secrets and its monitor, around the rest of a router.\<close>

definition service_router :: "('x, 'db) service \<Rightarrow> ('x, 'db) router \<Rightarrow> ('x, 'db) router" where
  "service_router sy R = R\<lparr>ro_secret := cf_SecretKey (sy_cfg sy), ro_jwtSecret := cf_JwtSecret (sy_cfg sy),
     ro_gatewaySecret := sy_gatewaySecret sy, ro_grpcSecret := sy_jwtSecret sy, ro_mon := sy_mon sy\<rparr>"

lemma served_without_secret:
  assumes "RunServe E global = (Waits sy, b)" and "vp_GetString (be_viper E) ''SECRET_KEY'' = []"
  shows "cf_SecretKey (sy_cfg sy) = []" "sy_gatewaySecret sy = []"
proof -
  have "\<not> boot_fails E Loading" using served_ok [OF assms(1)] by blast
  then show "cf_SecretKey (sy_cfg sy) = []" "sy_gatewaySecret sy = []"
    using assms by (auto simp: RunServe_loaded Let_def new_service_def boot_config_def split: option.splits sum.splits)
qed

text \<open>
  C26. A service whose environment has no \<open>SECRET_KEY\<close> comes up without complaint, and nothing is
  refused for the secret any more: a request to the contracts whose Authorization header is the
  bare \<open>Bearer\<close> prefix reaches the handler that registers them, and a request for a token without
  an \<open>X-Secret\<close> header is answered as if there were no gateway secret to compare.
\<close>

theorem service_without_secret:
  assumes "RunServe E global = (Waits sy, b)" and "vp_GetString (be_viper E) ''SECRET_KEY'' = []"
    and "rq_method r \<noteq> ''OPTIONS''"
  shows "(find_route (service_router sy R) path (rq_method r) = Some Contracts \<longrightarrow>
      rq_headers r ''Authorization'' = ''Bearer '' \<longrightarrow>
      http_serve (service_router sy R) path r s = contracts_handler (ro_env R) (ro_registration R) r (on_resp cors_headers s))
    \<and> (find_route (service_router sy R) path (rq_method r) = Some TokenRequest \<longrightarrow> rq_headers r ''X-Secret'' = [] \<longrightarrow>
      http_serve (service_router sy R) path r s =
        RequestTokenHandler (ro_jwt R) None (sy_jwtSecret sy) (ro_later R) (ro_token R) r (on_resp cors_headers s))"
proof -
  have k: "ro_secret (service_router sy R) = []" "ro_gatewaySecret (service_router sy R) = []"
    using served_without_secret [OF assms(1,2)] by (simp_all add: service_router_def)
  show ?thesis using unset_secret_opens [OF k assms(3), of path s] by (simp add: service_router_def)
qed

theorem service_without_secret_witness:
  "\<exists>sy b. RunServe ((sample_boot (\<lambda>url. None) (FileContent ''k''))\<lparr>be_viper :=
      (be_viper (sample_boot (\<lambda>url. None) (FileContent ''k'')))\<lparr>vp_GetString := \<lambda>_. []\<rparr>\<rparr>) None = (Waits sy, b) \<and>
    http_serve (service_router sy (sample_router ''s'')) ''/api/v1/contracts'' (method_request ''POST'' ''Bearer '') sample_api =
      contracts_handler sample_env (ro_registration (sample_router ''s'')) (method_request ''POST'' ''Bearer '')
        (on_resp cors_headers sample_api)"
proof -
  let ?E = "(sample_boot (\<lambda>url. None) (FileContent ''k''))\<lparr>be_viper :=
      (be_viper (sample_boot (\<lambda>url. None) (FileContent ''k'')))\<lparr>vp_GetString := \<lambda>_. []\<rparr>\<rparr>"
  obtain sy b where run: "RunServe ?E None = (Waits sy, b)"
    by (simp add: RunServe_def config_Load_def Let_def sample_boot_def sample_libs_def sample_config_def NewClient_def
        db_NewClient_def)
  have v: "vp_GetString (be_viper ?E) ''SECRET_KEY'' = []" by simp
  have m: "rq_method (method_request ''POST'' ''Bearer '') = ''POST''"
    "rq_headers (method_request ''POST'' ''Bearer '') ''Authorization'' = ''Bearer ''" by (simp_all add: method_request_def)
  have "find_route (service_router sy (sample_router ''s'')) ''/api/v1/contracts'' ''POST'' =
      find_route (sample_router ''s'') ''/api/v1/contracts'' ''POST''"
    by (simp add: find_route_def service_router_def)
  then have "find_route (service_router sy (sample_router ''s'')) ''/api/v1/contracts'' ''POST'' = Some Contracts"
    using find_route_of(1) [OF sample_path [of "''s''" Contracts], of "''POST''"] by simp
  then show ?thesis
    using service_without_secret [OF run v, of "method_request ''POST'' ''Bearer ''" "sample_router ''s''"
        "''/api/v1/contracts''" sample_api] run m
    by (simp add: sample_router_def)
qed

end
